(* ===== verification/Prelude.thy ===== *)
theory Prelude
  imports Main "HOL-Library.Word"
begin

unbundle bit_operations_syntax

text \<open>
  Shared vocabulary of the development.

  \<^item> the C integer types of \<^verbatim>\<open>kernel/types.h\<close> as words of their width;
  \<^item> the wait channels the kernel sleeps on, and the ways a kernel function can stop
    without returning: \<^verbatim>\<open>panic()\<close>, and a \<^verbatim>\<open>sleep()\<close> that has to wait for another
    process;
  \<^item> sequencing of fallible operations (\<open>bindR\<close>), loops over them (\<open>foldR\<close>) and their rules;
  \<^item> the table scan \<^verbatim>\<open>for (p = tab; p < &tab[N]; p++) if (P(p)) ...\<close> (\<open>first_idx\<close>);
  \<^item> the generic lemmas on lists and words the components share.
\<close>

section \<open>Integer types\<close>

type_synonym u8 = "8 word"
type_synonym u16 = "16 word"
type_synonym u32 = "32 word"
type_synonym u64 = "64 word"

text \<open>A C \<^verbatim>\<open>int\<close> is a \<open>32 word\<close> that is read with \<open>sint\<close>.\<close>

type_synonym i32 = "32 word"

section \<open>Stopping without a result\<close>

text \<open>
  The addresses that the kernel passes to \<^verbatim>\<open>sleep()\<close> and \<^verbatim>\<open>wakeup()\<close>: each
  constructor is the address of a different kernel object, \<open>NoChan\<close> is the null pointer.
\<close>

datatype chan =
    NoChan
  | ProcChan nat
  | TicksChan
  | LogChan
  | PipeReadChan u64
  | PipeWriteChan u64
  | BufLockChan nat
  | InodeLockChan nat
  | ConsChan
  | TxChan
  | DiskFreeChan
  | BufChan nat

text \<open>
  \<open>Panic\<close> is \<^verbatim>\<open>panic()\<close>; \<open>Sleep\<close> a \<^verbatim>\<open>sleep()\<close> on a channel; \<open>Spin\<close> a loop that goes on for as
  long as no one else changes what it waits for; \<open>Undef\<close> an access outside of an object, after which
  C promises nothing.
\<close>

datatype stop = Panic string | Sleep chan | Spin | Undef

type_synonym 'a res = "stop + 'a"

definition bindR :: "'a res \<Rightarrow> ('a \<Rightarrow> 'b res) \<Rightarrow> 'b res" where
  "bindR m f = (case m of Inl e \<Rightarrow> Inl e | Inr x \<Rightarrow> f x)"

lemma bindR_simps [simp]:
  "bindR (Inl e) f = Inl e"
  "bindR (Inr x) f = f x"
  by (simp_all add: bindR_def)

lemma bindR_cong [fundef_cong]:
  "m = m' \<Longrightarrow> (\<And>x. m' = Inr x \<Longrightarrow> f x = g x) \<Longrightarrow> bindR m f = bindR m' g"
  by (cases m') (simp_all add: bindR_def)

lemma bindR_eq_Inr [simp]: "(bindR m f = Inr y) = (\<exists>x. m = Inr x \<and> f x = Inr y)"
  by (cases m) simp_all

lemma bindR_assoc: "bindR (bindR m f) g = bindR m (\<lambda>x. bindR (f x) g)"
  by (cases m) simp_all

lemma bindR_split:
  "P (bindR m f) = ((\<forall>e. m = Inl e \<longrightarrow> P (Inl e)) \<and> (\<forall>x. m = Inr x \<longrightarrow> P (f x)))"
  by (cases m) simp_all

text \<open>A \<^verbatim>\<open>for\<close> loop whose body can stop.\<close>

primrec foldR :: "('a \<Rightarrow> 's \<Rightarrow> 's res) \<Rightarrow> 'a list \<Rightarrow> 's \<Rightarrow> 's res" where
  "foldR f [] s = Inr s"
| "foldR f (x # xs) s = bindR (f x s) (foldR f xs)"

lemma foldR_append: "foldR f (xs @ ys) s = bindR (foldR f xs s) (foldR f ys)"
  by (induction xs arbitrary: s) (auto simp: bindR_def split: sum.split)

text \<open>An invariant of the loop, indexed by the number of rounds done.\<close>

lemma foldR_invariant:
  assumes "I 0 s" "\<And>k s. k < length xs \<Longrightarrow> I k s \<Longrightarrow> \<exists>s'. f (xs ! k) s = Inr s' \<and> I (Suc k) s'"
  shows "\<exists>s'. foldR f xs s = Inr s' \<and> I (length xs) s'"
  using assms
proof (induction xs arbitrary: s I)
  case (Cons x xs)
  obtain s1 where s1: "f x s = Inr s1" "I 1 s1" using Cons.prems(1) Cons.prems(2) [of 0 s] by auto
  have "\<exists>s'. foldR f xs s1 = Inr s' \<and> I (Suc (length xs)) s'"
  proof (rule Cons.IH [of "\<lambda>k. I (Suc k)"])
    show "I (Suc 0) s1" using s1(2) by simp
    show "\<exists>s'. f (xs ! k) t = Inr s' \<and> I (Suc (Suc k)) s'" if "k < length xs" "I (Suc k) t" for k t
      using Cons.prems(2) [of "Suc k" t] that by simp
  qed
  then show ?case using s1(1) by simp
qed simp

section \<open>Table scans\<close>

primrec first_from :: "('a \<Rightarrow> bool) \<Rightarrow> nat \<Rightarrow> 'a list \<Rightarrow> nat option" where
  "first_from P i [] = None"
| "first_from P i (x # xs) = (if P x then Some i else first_from P (Suc i) xs)"

definition first_idx :: "('a \<Rightarrow> bool) \<Rightarrow> 'a list \<Rightarrow> nat option" where
  "first_idx P xs = first_from P 0 xs"

lemma first_from_None: "first_from P i xs = None \<longleftrightarrow> (\<forall>x \<in> set xs. \<not> P x)"
  by (induction xs arbitrary: i) auto

lemma first_from_Some:
  "first_from P i xs = Some k \<longleftrightarrow>
     i \<le> k \<and> k - i < length xs \<and> P (xs ! (k - i)) \<and> (\<forall>j < k - i. \<not> P (xs ! j))"
proof (induction xs arbitrary: i)
  case Nil
  show ?case by simp
next
  case (Cons x xs)
  show ?case
  proof (cases "P x")
    case True
    then show ?thesis
      by (auto simp: nth_Cons split: nat.splits)
  next
    case False
    have "first_from P i (x # xs) = Some k \<longleftrightarrow> first_from P (Suc i) xs = Some k"
      using False by simp
    also have "\<dots> \<longleftrightarrow> Suc i \<le> k \<and> k - Suc i < length xs \<and> P (xs ! (k - Suc i)) \<and>
        (\<forall>j < k - Suc i. \<not> P (xs ! j))"
      by (rule Cons.IH)
    also have "\<dots> \<longleftrightarrow> i \<le> k \<and> k - i < length (x # xs) \<and> P ((x # xs) ! (k - i)) \<and>
        (\<forall>j < k - i. \<not> P ((x # xs) ! j))"
    proof (cases "k - i")
      case 0
      with False show ?thesis by auto
    next
      case (Suc d)
      then have "k - Suc i = d" by simp
      with Suc False show ?thesis
        by (auto simp: less_Suc_eq_0_disj)
    qed
    finally show ?thesis .
  qed
qed

lemma first_idx_None: "first_idx P xs = None \<longleftrightarrow> (\<forall>i < length xs. \<not> P (xs ! i))"
  by (force simp: first_idx_def first_from_None in_set_conv_nth)

lemma first_idx_Some:
  "first_idx P xs = Some k \<longleftrightarrow> k < length xs \<and> P (xs ! k) \<and> (\<forall>j < k. \<not> P (xs ! j))"
  by (simp add: first_idx_def first_from_Some)

lemma find_upt: "List.find (\<lambda>i. P (xs ! i)) [0..<length xs] = first_idx P xs"
proof (cases "first_idx P xs")
  case None
  then have "List.find (\<lambda>i. P (xs ! i)) [0..<length xs] = None" by (simp add: find_None_iff first_idx_None)
  then show ?thesis using None by simp
next
  case (Some i)
  then have "i < length xs \<and> P (xs ! i) \<and> (\<forall>j < i. \<not> P (xs ! j))" by (simp add: first_idx_Some)
  then show ?thesis using Some by (auto simp: find_Some_iff intro!: exI [of _ i])
qed

section \<open>Bits of small words\<close>

lemma bit_less_exp:
  fixes d :: "'a::len word"
  assumes "unat d < 2 ^ k" "bit d n"
  shows "n < k"
proof -
  have "take_bit k (unat d) = unat d"
    using assms(1) by (simp add: take_bit_nat_eq_self_iff)
  moreover have "bit (unat d) n"
    using assms(2) by (simp add: bit_unsigned_iff)
  ultimately show ?thesis
    by (metis bit_take_bit_iff)
qed

lemma less_exp_bits:
  fixes d :: "'a::len word"
  assumes "\<And>n. bit d n \<Longrightarrow> n < k"
  shows "unat d < 2 ^ k"
proof -
  have "take_bit k (unat d) = unat d"
    by (rule bit_eqI) (use assms in \<open>auto simp: bit_take_bit_iff bit_unsigned_iff\<close>)
  then show ?thesis by (simp add: take_bit_nat_eq_self_iff)
qed

lemma unat_bound: "unat (w :: 'a::len word) < 2 ^ LENGTH('a)"
  by (rule unsigned_less)

lemma unat_ucast_up:
  fixes w :: "'a::len word"
  assumes "LENGTH('a) \<le> LENGTH('b)"
  shows "unat (ucast w :: 'b::len word) = unat w"
proof -
  have "unat w < 2 ^ LENGTH('b)"
    by (rule less_le_trans [OF unat_bound]) (use assms in simp)
  then show ?thesis
    by (simp add: unsigned_ucast_eq take_bit_nat_eq_self_iff)
qed

lemmas unat_ucast_ups [simp] =
  unat_ucast_up [where 'a = 8 and 'b = 32, simplified]
  unat_ucast_up [where 'a = 8 and 'b = 64, simplified]
  unat_ucast_up [where 'a = 16 and 'b = 32, simplified]
  unat_ucast_up [where 'a = 16 and 'b = 64, simplified]
  unat_ucast_up [where 'a = 32 and 'b = 64, simplified]

lemma unat_minus_one_wrap:
  "unat (x - 1 :: u64) = (if x = 0 then 2 ^ 64 - 1 else unat x - 1)"
proof (cases "x = 0")
  case True
  have "unat (- 1 :: u64) = 2 ^ 64 - 1"
    by (simp add: unsigned_minus_1_eq_mask mask_eq_exp_minus_1)
  with True show ?thesis by simp
qed (simp add: unat_minus_one)

text \<open>Small non-negative values survive the signed readings of a C \<^verbatim>\<open>int\<close>.\<close>

lemma sint_of_nat_small: "i < 2 ^ 31 \<Longrightarrow> sint (of_nat i :: i32) = int i"
  by (simp add: signed_of_nat signed_take_bit_int_eq_self)

lemma scast_of_nat_small: "i < 2 ^ 31 \<Longrightarrow> (scast (of_nat i :: i32) :: u64) = of_nat i"
  by (simp add: signed_of_nat signed_take_bit_int_eq_self)

lemma uint_eq_conv: "uint a = uint b \<longleftrightarrow> a = b"
  by (metis word_of_int_uint)

lemma uint_eq_zero_conv: "uint a = 0 \<longleftrightarrow> a = 0"
  using uint_eq_conv [of a 0] by simp

lemmas uint_conv = uint_eq_conv uint_eq_zero_conv

end
