(* ===== verification/Spinlock.thy ===== *)
theory Spinlock
  imports Prelude
begin

text \<open>
  Spin locks and interrupt nesting (\<^verbatim>\<open>kernel/spinlock.c\<close>, \<^verbatim>\<open>kernel/spinlock.h\<close>), the
  per-CPU structure of \<^verbatim>\<open>kernel/proc.h\<close>, and sleep locks (\<^verbatim>\<open>kernel/sleeplock.c\<close>).

  A CPU is its index in \<^verbatim>\<open>cpus[]\<close>, which the hardware keeps in the \<^verbatim>\<open>tp\<close> register; the
  supervisor interrupt-enable bit of its \<^verbatim>\<open>sstatus\<close> register is the field \<open>sie\<close>. An
  \<^verbatim>\<open>acquire\<close> that finds the lock taken by another CPU spins: the model returns \<open>Spin\<close>, and
  the CPU tries again later. The step relation \<open>lock_step\<close> interleaves any number of CPUs
  over any number of locks.
\<close>

section \<open>Data\<close>

record cpu =
  c_proc :: "nat option"
  noff :: int
  intena :: bool
  sie :: bool

record spinlock =
  locked :: bool
  lk_name :: string
  lk_cpu :: "nat option"

record sleeplock =
  slocked :: bool
  sl_name :: string
  sl_pid :: i32

section \<open>Operations\<close>

definition initlock :: "string \<Rightarrow> spinlock" where
  "initlock name = \<lparr>locked = False, lk_name = name, lk_cpu = None\<rparr>"

definition intr_get :: "nat \<Rightarrow> cpu list \<Rightarrow> bool" where
  "intr_get h cs = sie (cs ! h)"

definition intr_off :: "nat \<Rightarrow> cpu list \<Rightarrow> cpu list" where
  "intr_off h cs = cs[h := (cs ! h)\<lparr>sie := False\<rparr>]"

definition intr_on :: "nat \<Rightarrow> cpu list \<Rightarrow> cpu list" where
  "intr_on h cs = cs[h := (cs ! h)\<lparr>sie := True\<rparr>]"

definition push_off :: "nat \<Rightarrow> cpu list \<Rightarrow> cpu list" where
  "push_off h cs =
     (let old = intr_get h cs;
          cs1 = intr_off h cs;
          cs2 = (if noff (cs1 ! h) = 0 then cs1[h := (cs1 ! h)\<lparr>intena := old\<rparr>] else cs1)
      in cs2[h := (cs2 ! h)\<lparr>noff := noff (cs2 ! h) + 1\<rparr>])"

definition pop_off :: "nat \<Rightarrow> cpu list \<Rightarrow> cpu list res" where
  "pop_off h cs =
     (if intr_get h cs then Inl (Panic ''pop_off - interruptible'')
      else if noff (cs ! h) < 1 then Inl (Panic ''pop_off'')
      else let cs1 = cs[h := (cs ! h)\<lparr>noff := noff (cs ! h) - 1\<rparr>]
           in if noff (cs1 ! h) = 0 \<and> intena (cs1 ! h) then Inr (intr_on h cs1)
              else Inr cs1)"

definition holding :: "nat \<Rightarrow> spinlock \<Rightarrow> bool" where
  "holding h lk \<longleftrightarrow> locked lk \<and> lk_cpu lk = Some h"

definition acquire :: "nat \<Rightarrow> spinlock \<Rightarrow> cpu list \<Rightarrow> (spinlock \<times> cpu list) res" where
  "acquire h lk cs =
     (let cs1 = push_off h cs
      in if holding h lk then Inl (Panic ''acquire'')
         else if locked lk then Inl Spin
         else Inr (lk\<lparr>locked := True, lk_cpu := Some h\<rparr>, cs1))"

definition release :: "nat \<Rightarrow> spinlock \<Rightarrow> cpu list \<Rightarrow> (spinlock \<times> cpu list) res" where
  "release h lk cs =
     (if \<not> holding h lk then Inl (Panic ''release'')
      else bindR (pop_off h cs) (\<lambda>cs1. Inr (lk\<lparr>lk_cpu := None, locked := False\<rparr>, cs1)))"

text \<open>
  Sleep locks. The spin lock inside makes each operation atomic; an \<^verbatim>\<open>acquiresleep\<close> of a
  lock that is taken sleeps on the lock's address. \<^verbatim>\<open>releasesleep\<close> also calls
  \<^verbatim>\<open>wakeup(lk)\<close>; callers record that call.
\<close>

definition initsleeplock :: "string \<Rightarrow> sleeplock" where
  "initsleeplock name = \<lparr>slocked = False, sl_name = name, sl_pid = 0\<rparr>"

definition acquiresleep :: "chan \<Rightarrow> i32 \<Rightarrow> sleeplock \<Rightarrow> sleeplock res" where
  "acquiresleep ch pid lk =
     (if slocked lk then Inl (Sleep ch) else Inr (lk\<lparr>slocked := True, sl_pid := pid\<rparr>))"

definition releasesleep :: "sleeplock \<Rightarrow> sleeplock" where
  "releasesleep lk = lk\<lparr>slocked := False, sl_pid := 0\<rparr>"

definition holdingsleep :: "i32 \<Rightarrow> sleeplock \<Rightarrow> bool" where
  "holdingsleep pid lk \<longleftrightarrow> slocked lk \<and> sl_pid lk = pid"

section \<open>Nesting of push\_off and pop\_off\<close>

lemma push_off_simps:
  assumes "h < length cs"
  shows "push_off h cs =
    cs[h := (cs ! h)\<lparr>sie := False, noff := noff (cs ! h) + 1,
       intena := (if noff (cs ! h) = 0 then sie (cs ! h) else intena (cs ! h))\<rparr>]"
  using assms
  by (cases "cs ! h") (simp add: push_off_def intr_get_def intr_off_def Let_def)

lemma length_push_off [simp]: "length (push_off h cs) = length cs"
  by (simp add: push_off_def intr_off_def Let_def)

lemma length_pop_off: "pop_off h cs = Inr cs' \<Longrightarrow> length cs' = length cs"
  by (auto simp: pop_off_def intr_on_def Let_def split: if_splits)

text \<open>
  A matched pair restores the interrupt flag and the nesting depth. (What it may leave
  changed is \<open>intena\<close>, which has no meaning at depth 0.)
\<close>

lemma pop_push_off:
  assumes "h < length cs" "0 \<le> noff (cs ! h)" "0 < noff (cs ! h) \<longrightarrow> \<not> sie (cs ! h)"
  shows "pop_off h (push_off h cs) =
    Inr (cs[h := (cs ! h)\<lparr>intena :=
      (if noff (cs ! h) = 0 then sie (cs ! h) else intena (cs ! h))\<rparr>])"
  using assms
  by (cases "cs ! h") (auto simp: push_off_simps pop_off_def intr_get_def intr_on_def Let_def)

section \<open>Any number of CPUs and locks\<close>

record lock_sys =
  locks_of :: "nat \<Rightarrow> spinlock"
  harts :: "cpu list"

inductive lock_step :: "lock_sys \<Rightarrow> lock_sys \<Rightarrow> bool" where
  ls_acquire: "h < length (harts s) \<Longrightarrow> acquire h (locks_of s l) (harts s) = Inr (lk, cs) \<Longrightarrow>
     lock_step s (s\<lparr>locks_of := (locks_of s)(l := lk), harts := cs\<rparr>)"
| ls_release: "h < length (harts s) \<Longrightarrow> release h (locks_of s l) (harts s) = Inr (lk, cs) \<Longrightarrow>
     lock_step s (s\<lparr>locks_of := (locks_of s)(l := lk), harts := cs\<rparr>)"
| ls_intr_off: "h < length (harts s) \<Longrightarrow> lock_step s (s\<lparr>harts := intr_off h (harts s)\<rparr>)"
| ls_intr_on: "h < length (harts s) \<Longrightarrow> noff (harts s ! h) = 0 \<Longrightarrow>
     lock_step s (s\<lparr>harts := intr_on h (harts s)\<rparr>)"

inductive lock_reachable :: "lock_sys \<Rightarrow> bool" where
  lr_init: "(\<And>l. \<exists>nm. locks_of s l = initlock nm) \<Longrightarrow>
     (\<And>h. h < length (harts s) \<Longrightarrow> noff (harts s ! h) = 0) \<Longrightarrow> lock_reachable s"
| lr_step: "lock_reachable s \<Longrightarrow> lock_step s t \<Longrightarrow> lock_reachable t"

definition held_by :: "(nat \<Rightarrow> spinlock) \<Rightarrow> nat \<Rightarrow> nat set" where
  "held_by ls h = {l. holding h (ls l)}"

text \<open>
  The nesting depth of a CPU is the number of locks it holds, and with a positive depth its
  interrupts are off.
\<close>

definition lock_inv :: "lock_sys \<Rightarrow> bool" where
  "lock_inv s \<longleftrightarrow>
     (\<forall>l. locked (locks_of s l) \<longleftrightarrow> (\<exists>h < length (harts s). lk_cpu (locks_of s l) = Some h)) \<and>
     (\<forall>h < length (harts s). finite (held_by (locks_of s) h) \<and>
        noff (harts s ! h) = int (card (held_by (locks_of s) h)) \<and>
        (0 < noff (harts s ! h) \<longrightarrow> \<not> sie (harts s ! h)))"

lemma lock_inv_acquire:
  assumes inv: "lock_inv s" and h: "h < length (harts s)"
    and acq: "acquire h (locks_of s l) (harts s) = Inr (lk, cs)"
  shows "lock_inv (s\<lparr>locks_of := (locks_of s)(l := lk), harts := cs\<rparr>)" (is "lock_inv ?t")
proof -
  have free: "\<not> locked (locks_of s l)" and lk: "lk = (locks_of s l)\<lparr>locked := True, lk_cpu := Some h\<rparr>"
    and cs: "cs = push_off h (harts s)"
    using acq by (auto simp: acquire_def Let_def split: if_splits)
  have held: "held_by ((locks_of s)(l := lk)) h' = (if h' = h then insert l (held_by (locks_of s) h) else held_by (locks_of s) h')" for h'
    using free by (auto simp: held_by_def holding_def lk)
  have notin: "l \<notin> held_by (locks_of s) h" using free by (simp add: held_by_def holding_def)
  show ?thesis
    unfolding lock_inv_def
  proof (intro conjI allI impI)
    fix k
    show "locked (locks_of ?t k) \<longleftrightarrow> (\<exists>h < length (harts ?t). lk_cpu (locks_of ?t k) = Some h)"
      using inv h by (auto simp: lock_inv_def lk cs)
  next
    fix h' assume "h' < length (harts ?t)"
    then have h': "h' < length (harts s)" by (simp add: cs)
    show "finite (held_by (locks_of ?t) h')" using inv h' h by (auto simp: held lock_inv_def)
    show "noff (harts ?t ! h') = int (card (held_by (locks_of ?t) h'))"
      using inv h' h notin by (auto simp: held lock_inv_def cs push_off_simps nth_list_update)
    show "\<not> sie (harts ?t ! h')" if "0 < noff (harts ?t ! h')"
      using that inv h' h by (auto simp: lock_inv_def cs push_off_simps nth_list_update split: if_splits)
  qed
qed

lemma release_defined:
  assumes inv: "lock_inv s" and h: "h < length (harts s)" and hold: "holding h (locks_of s l)"
  shows "0 < noff (harts s ! h)" "\<not> sie (harts s ! h)"
    and "\<exists>lk cs. release h (locks_of s l) (harts s) = Inr (lk, cs)"
proof -
  have "l \<in> held_by (locks_of s) h" using hold by (simp add: held_by_def)
  then have "0 < card (held_by (locks_of s) h)" using inv h by (auto simp: lock_inv_def card_gt_0_iff)
  then show *: "0 < noff (harts s ! h)" using inv h by (simp add: lock_inv_def)
  then show **: "\<not> sie (harts s ! h)" using inv h by (simp add: lock_inv_def)
  show "\<exists>lk cs. release h (locks_of s l) (harts s) = Inr (lk, cs)"
    using hold * ** by (auto simp: release_def pop_off_def intr_get_def Let_def)
qed

lemma lock_inv_release:
  assumes inv: "lock_inv s" and h: "h < length (harts s)"
    and rel: "release h (locks_of s l) (harts s) = Inr (lk, cs)"
  shows "lock_inv (s\<lparr>locks_of := (locks_of s)(l := lk), harts := cs\<rparr>)" (is "lock_inv ?t")
proof -
  have hold: "holding h (locks_of s l)" and pop: "pop_off h (harts s) = Inr cs"
    and lk: "lk = (locks_of s l)\<lparr>lk_cpu := None, locked := False\<rparr>"
    using rel by (auto simp: release_def split: if_splits)
  have len: "length cs = length (harts s)" using pop by (rule length_pop_off)
  have held: "held_by ((locks_of s)(l := lk)) h' = (if h' = h then held_by (locks_of s) h - {l} else held_by (locks_of s) h')" for h'
    using hold by (auto simp: held_by_def holding_def lk)
  have mem: "l \<in> held_by (locks_of s) h" using hold by (simp add: held_by_def)
  have cs: "noff (cs ! h') = (if h' = h then noff (harts s ! h) - 1 else noff (harts s ! h'))"
    "sie (cs ! h') \<longrightarrow> h' = h \<and> noff (harts s ! h) = 1 \<or> h' \<noteq> h \<and> sie (harts s ! h')"
    if "h' < length (harts s)" for h'
    using pop h that release_defined(2) [OF inv h hold]
    by (auto simp: pop_off_def intr_on_def Let_def nth_list_update split: if_splits)
  show ?thesis
    unfolding lock_inv_def
  proof (intro conjI allI impI)
    fix k
    show "locked (locks_of ?t k) \<longleftrightarrow> (\<exists>h < length (harts ?t). lk_cpu (locks_of ?t k) = Some h)"
      using inv by (auto simp: lock_inv_def lk len)
  next
    fix h' assume "h' < length (harts ?t)"
    then have h': "h' < length (harts s)" by (simp add: len)
    show "finite (held_by (locks_of ?t) h')" using inv h' by (auto simp: held lock_inv_def)
    show "noff (harts ?t ! h') = int (card (held_by (locks_of ?t) h'))"
      using inv h' mem release_defined(1) [OF inv h hold]
      by (auto simp: held lock_inv_def cs card_Diff_singleton)
    show "\<not> sie (harts ?t ! h')" if "0 < noff (harts ?t ! h')"
      using that inv h' cs [OF h'] by (auto simp: lock_inv_def split: if_splits)
  qed
qed

lemma lock_step_inv: "lock_step s t \<Longrightarrow> lock_inv s \<Longrightarrow> lock_inv t"
proof (induction rule: lock_step.induct)
  case (ls_acquire h s l lk cs)
  then show ?case by (blast intro: lock_inv_acquire)
next
  case (ls_release h s l lk cs)
  then show ?case by (blast intro: lock_inv_release)
next
  case (ls_intr_off h s)
  then show ?case
    by (auto simp: lock_inv_def held_by_def intr_off_def nth_list_update)
next
  case (ls_intr_on h s)
  then show ?case
    by (auto simp: lock_inv_def held_by_def intr_on_def nth_list_update)
qed

lemma lock_reachable_inv: "lock_reachable s \<Longrightarrow> lock_inv s"
proof (induction rule: lock_reachable.induct)
  case (lr_init s)
  have "locked (locks_of s l) = False" "lk_cpu (locks_of s l) = None" for l
    using lr_init(1) [of l] by (auto simp: initlock_def)
  then show ?case using lr_init(2) by (auto simp: lock_inv_def held_by_def holding_def)
next
  case (lr_step s t)
  then show ?case by (blast intro: lock_step_inv)
qed

end
