(* ===== verification/Riscv.thy ===== *)
theory Riscv
  imports Prelude
begin

text \<open>
  The constants and address arithmetic of \<^verbatim>\<open>kernel/riscv.h\<close>, \<^verbatim>\<open>kernel/memlayout.h\<close> and
  \<^verbatim>\<open>kernel/param.h\<close>: page rounding, the Sv39 page-table indices, page-table entries and
  the kernel's address-space layout, all on 64-bit words, with the lemmas that turn the bit
  operations into arithmetic.
\<close>

section \<open>Parameters\<close>

abbreviation (input) NPROC :: nat where "NPROC \<equiv> 64"
abbreviation (input) NCPU :: nat where "NCPU \<equiv> 8"
abbreviation (input) NOFILE :: nat where "NOFILE \<equiv> 16"
abbreviation (input) NFILE :: nat where "NFILE \<equiv> 100"
abbreviation (input) NINODE :: nat where "NINODE \<equiv> 50"
abbreviation (input) NDEV :: nat where "NDEV \<equiv> 10"
abbreviation (input) ROOTDEV :: u32 where "ROOTDEV \<equiv> 1"
abbreviation (input) MAXARG :: nat where "MAXARG \<equiv> 32"
abbreviation (input) MAXOPBLOCKS :: nat where "MAXOPBLOCKS \<equiv> 10"
abbreviation (input) LOGBLOCKS :: nat where "LOGBLOCKS \<equiv> 30"
abbreviation (input) NBUF :: nat where "NBUF \<equiv> 30"
abbreviation (input) FSSIZE :: nat where "FSSIZE \<equiv> 2000"
abbreviation (input) MAXPATH :: nat where "MAXPATH \<equiv> 128"
abbreviation (input) USERSTACK :: u64 where "USERSTACK \<equiv> 1"

section \<open>Pages\<close>

abbreviation (input) PGSIZE :: u64 where "PGSIZE \<equiv> 4096"

definition PGROUNDUP :: "u64 \<Rightarrow> u64" where
  "PGROUNDUP sz = (sz + PGSIZE - 1) AND NOT (PGSIZE - 1)"

definition PGROUNDDOWN :: "u64 \<Rightarrow> u64" where
  "PGROUNDDOWN a = a AND NOT (PGSIZE - 1)"

section \<open>Page-table entries and indices\<close>

abbreviation (input) PTE_V :: u64 where "PTE_V \<equiv> 1"
abbreviation (input) PTE_R :: u64 where "PTE_R \<equiv> 2"
abbreviation (input) PTE_W :: u64 where "PTE_W \<equiv> 4"
abbreviation (input) PTE_X :: u64 where "PTE_X \<equiv> 8"
abbreviation (input) PTE_U :: u64 where "PTE_U \<equiv> 16"

definition PA2PTE :: "u64 \<Rightarrow> u64" where
  "PA2PTE pa = push_bit 10 (drop_bit 12 pa)"

definition PTE2PA :: "u64 \<Rightarrow> u64" where
  "PTE2PA pte = push_bit 12 (drop_bit 10 pte)"

definition PTE_FLAGS :: "u64 \<Rightarrow> u64" where
  "PTE_FLAGS pte = pte AND 0x3FF"

definition PX :: "nat \<Rightarrow> u64 \<Rightarrow> u64" where
  "PX level va = drop_bit (12 + 9 * level) va AND 0x1FF"

abbreviation (input) MAXVA :: u64 where "MAXVA \<equiv> 274877906944"

definition MAKE_SATP :: "u64 \<Rightarrow> u64" where
  "MAKE_SATP pagetable = push_bit 60 8 OR drop_bit 12 pagetable"

section \<open>Memory layout\<close>

abbreviation (input) UART0 :: u64 where "UART0 \<equiv> 0x10000000"
abbreviation (input) VIRTIO0 :: u64 where "VIRTIO0 \<equiv> 0x10001000"
abbreviation (input) PLIC :: u64 where "PLIC \<equiv> 0x0c000000"
abbreviation (input) KERNBASE :: u64 where "KERNBASE \<equiv> 0x80000000"
abbreviation (input) PHYSTOP :: u64 where "PHYSTOP \<equiv> 0x88000000"
abbreviation (input) TRAMPOLINE :: u64 where "TRAMPOLINE \<equiv> 274877902848"
abbreviation (input) TRAPFRAME :: u64 where "TRAPFRAME \<equiv> 274877898752"

definition KSTACK :: "nat \<Rightarrow> u64" where
  "KSTACK p = TRAMPOLINE - of_nat ((p + 1) * 2) * PGSIZE"

lemma layout_constants:
  "(MAXVA :: u64) = push_bit (9 + 9 + 9 + 12 - 1) 1"
  "TRAMPOLINE = MAXVA - PGSIZE"
  "TRAPFRAME = TRAMPOLINE - PGSIZE"
  "PHYSTOP = KERNBASE + 128 * 1024 * 1024"
  by simp_all

section \<open>Bits of page addresses\<close>

text \<open>Page alignment, as the code tests it.\<close>

definition page_aligned :: "u64 \<Rightarrow> bool" where
  "page_aligned a \<longleftrightarrow> a mod PGSIZE = 0"

lemma page_aligned_simps [simp]:
  "(a :: u64) mod 4096 = 0 \<longleftrightarrow> page_aligned a"
  "4096 dvd a \<longleftrightarrow> page_aligned a"
proof -
  show *: "(a :: u64) mod 4096 = 0 \<longleftrightarrow> page_aligned a" by (simp add: page_aligned_def)
  have "a mod 4096 = 0" if "4096 dvd a"
  proof -
    from that obtain c where c: "a = 4096 * c" ..
    have "unat a mod 4096 = 0" by (simp add: c unat_word_ariths mod_mod_cancel)
    then have "unat (a mod 4096) = 0" by (simp add: unat_mod)
    then show ?thesis by (simp only: unat_eq_0)
  qed
  then show "4096 dvd a \<longleftrightarrow> page_aligned a"
    using mod_0_imp_dvd [of a 4096] by (auto simp only: page_aligned_def)
qed

lemma bit_4095: "bit (4095 :: u64) n \<longleftrightarrow> n < 12"
proof -
  have "(4095 :: u64) = mask 12" by (simp add: mask_eq_exp_minus_1)
  then show ?thesis by (simp only: bit_mask_iff) (auto simp: bit_mask_iff)
qed

lemma bit_PGROUNDDOWN: "bit (PGROUNDDOWN a) n \<longleftrightarrow> 12 \<le> n \<and> bit a n"
proof -
  have "PGROUNDDOWN a = a AND NOT 4095"
    by (simp add: PGROUNDDOWN_def)
  then show ?thesis
    by (auto simp only: bit_and_iff bit_not_iff bit_4095 dest: bit_imp_possible_bit)
qed

lemma mod_4096_take_bit: "(a :: u64) mod 4096 = take_bit 12 a"
  by (simp add: take_bit_eq_mod)

lemma page_aligned_bits: "page_aligned a \<longleftrightarrow> (\<forall>n < 12. \<not> bit a n)"
proof
  assume "page_aligned a"
  then have "take_bit 12 a = 0" by (simp only: page_aligned_def mod_4096_take_bit)
  then show "\<forall>n < 12. \<not> bit a n"
    by (metis bit_0_eq bit_take_bit_iff bot_apply bot_bool_def)
next
  assume *: "\<forall>n < 12. \<not> bit a n"
  have "take_bit 12 a = 0"
    by (rule bit_word_eqI) (use * in \<open>auto simp: bit_take_bit_iff\<close>)
  then show "page_aligned a" by (simp only: page_aligned_def mod_4096_take_bit)
qed

lemma PGROUNDDOWN_aligned [simp]: "page_aligned (PGROUNDDOWN a)"
  by (auto simp: page_aligned_bits bit_PGROUNDDOWN)

lemma PGROUNDDOWN_id: "page_aligned a \<Longrightarrow> PGROUNDDOWN a = a"
  by (rule bit_word_eqI) (auto simp: page_aligned_bits bit_PGROUNDDOWN not_less)

lemma PGROUNDDOWN_idem [simp]: "PGROUNDDOWN (PGROUNDDOWN a) = PGROUNDDOWN a"
  by (simp add: PGROUNDDOWN_id)

lemma PGROUNDDOWN_minus: "PGROUNDDOWN a = a - a mod 4096"
proof -
  have "PGROUNDDOWN a = push_bit 12 (drop_bit 12 a)"
    by (rule bit_word_eqI) (auto simp: bit_PGROUNDDOWN bit_push_bit_iff bit_drop_bit_eq)
  moreover have "push_bit 12 (drop_bit 12 a) + take_bit 12 a = a"
    by (simp add: bits_ident)
  ultimately show ?thesis
    by (simp add: mod_4096_take_bit eq_diff_eq)
qed

lemma unat_PGROUNDDOWN: "unat (PGROUNDDOWN a) = unat a div 4096 * 4096"
proof -
  have "PGROUNDDOWN a = a - a mod 4096" by (rule PGROUNDDOWN_minus)
  moreover have "a mod 4096 \<le> a"
    by (simp add: word_le_nat_alt unat_mod)
  ultimately have "unat (PGROUNDDOWN a) = unat a - unat a mod 4096"
    by (simp add: unat_sub unat_mod)
  then show ?thesis by (simp add: minus_mod_eq_div_mult)
qed

lemma PGROUNDDOWN_le: "PGROUNDDOWN a \<le> a"
  by (simp add: word_le_nat_alt unat_PGROUNDDOWN)

lemma unat_PGROUNDUP:
  assumes "unat a + 4095 < 2 ^ 64"
  shows "unat (PGROUNDUP a) = (unat a + 4095) div 4096 * 4096"
proof -
  have "PGROUNDUP a = PGROUNDDOWN (a + 4095)"
    by (simp add: PGROUNDUP_def PGROUNDDOWN_def algebra_simps)
  moreover have "unat (a + 4095) = unat a + 4095"
    using assms by (simp add: unat_word_ariths)
  ultimately show ?thesis by (simp add: unat_PGROUNDDOWN)
qed

lemma PGROUNDUP_aligned [simp]: "page_aligned (PGROUNDUP a)"
proof -
  have "PGROUNDUP a = PGROUNDDOWN (a + 4095)"
    by (simp add: PGROUNDUP_def PGROUNDDOWN_def algebra_simps)
  then show ?thesis by simp
qed

text \<open>Membership in a page: an offset below 4096, or the same page address.\<close>

lemma in_page_iff:
  assumes "page_aligned p"
  shows "a - p < 4096 \<longleftrightarrow> PGROUNDDOWN a = p"
proof
  assume "a - p < 4096"
  then have "unat (a - p) < 2 ^ 12" by (simp add: word_less_nat_alt)
  then have d: "\<And>n. bit (a - p) n \<Longrightarrow> n < 12" by (rule bit_less_exp)
  have p: "\<And>n. n < 12 \<Longrightarrow> \<not> bit p n" using assms by (simp add: page_aligned_bits)
  have "p + (a - p) = p OR (a - p)"
    by (rule disjunctive_add) (use d p in blast)
  then have "a = p OR (a - p)" by simp
  then have "\<And>n. bit a n \<longleftrightarrow> bit p n \<or> bit (a - p) n" by (metis bit_or_iff)
  then have "bit (PGROUNDDOWN a) n \<longleftrightarrow> bit p n" for n
    using d [of n] p [of n] by (auto simp: bit_PGROUNDDOWN) (metis not_le)
  then show "PGROUNDDOWN a = p" by (intro bit_word_eqI)
next
  assume "PGROUNDDOWN a = p"
  then have "a - p = a mod 4096" using PGROUNDDOWN_minus [of a] by (simp add: algebra_simps)
  then show "a - p < 4096" by (simp add: word_less_nat_alt unat_mod)
qed

lemma PGROUNDDOWN_add:
  assumes "page_aligned p" "d < 4096"
  shows "PGROUNDDOWN (p + d) = p"
  using in_page_iff [OF assms(1), of "p + d"] assms(2) by simp

section \<open>Page-table indices\<close>

lemma bit_PX: "bit (PX l va) n \<longleftrightarrow> n < 9 \<and> bit va (12 + 9 * l + n)"
proof -
  have "PX l va = take_bit 9 (drop_bit (12 + 9 * l) va)"
    by (simp add: PX_def take_bit_eq_mask mask_eq_exp_minus_1)
  then show ?thesis by (simp add: bit_take_bit_iff bit_drop_bit_eq)
qed

lemma PX_less: "PX l va < 512"
proof -
  have "unat (PX l va) < 2 ^ 9"
    by (rule less_exp_bits) (simp add: bit_PX)
  then show ?thesis by (simp add: word_less_nat_alt)
qed

text \<open>Below \<^verbatim>\<open>MAXVA\<close> the three indices determine the page.\<close>

lemma MAXVA_bits: "va < MAXVA \<Longrightarrow> bit va n \<Longrightarrow> n < 38"
  by (rule bit_less_exp [of va]) (simp_all add: word_less_nat_alt)

lemma PX_inj:
  assumes "va < MAXVA" "vb < MAXVA"
    and "PX 2 va = PX 2 vb" "PX 1 va = PX 1 vb" "PX 0 va = PX 0 vb"
  shows "PGROUNDDOWN va = PGROUNDDOWN vb"
proof (rule bit_word_eqI)
  fix n
  have eq: "bit va (12 + 9 * l + k) = bit vb (12 + 9 * l + k)" if "k < 9" "l < 3" for l k
  proof -
    have "PX l va = PX l vb" using assms that(2) by (auto simp: numeral_eq_Suc less_Suc_eq)
    then have "bit (PX l va) k = bit (PX l vb) k" by simp
    with that(1) show ?thesis by (simp add: bit_PX)
  qed
  show "bit (PGROUNDDOWN va) n = bit (PGROUNDDOWN vb) n"
  proof (cases "12 \<le> n \<and> n < 39")
    case True
    then have "n = 12 + 9 * ((n - 12) div 9) + (n - 12) mod 9" by presburger
    moreover have "(n - 12) mod 9 < 9" "(n - 12) div 9 < 3" using True by auto
    ultimately show ?thesis
      using eq [of "(n - 12) mod 9" "(n - 12) div 9"] by (simp add: bit_PGROUNDDOWN)
  next
    case False
    then show ?thesis
      using MAXVA_bits [OF assms(1), of n] MAXVA_bits [OF assms(2), of n]
      by (auto simp: bit_PGROUNDDOWN)
  qed
qed

lemma PX_PGROUNDDOWN [simp]: "PX l (PGROUNDDOWN va) = PX l va"
  by (rule bit_word_eqI) (auto simp: bit_PX bit_PGROUNDDOWN)

section \<open>Page-table entries\<close>

lemma bit_PTE2PA: "bit (PTE2PA e) n \<longleftrightarrow> 12 \<le> n \<and> n < 64 \<and> bit e (n - 2)"
  by (auto simp: PTE2PA_def bit_push_bit_iff bit_drop_bit_eq)

lemma bit_PA2PTE: "bit (PA2PTE pa) n \<longleftrightarrow> 10 \<le> n \<and> n < 64 \<and> bit pa (n + 2)"
  by (auto simp: PA2PTE_def bit_push_bit_iff bit_drop_bit_eq)

lemma PTE2PA_aligned [simp]: "page_aligned (PTE2PA e)"
  by (simp add: page_aligned_bits bit_PTE2PA)

lemma PTE2PA_PA2PTE:
  assumes "page_aligned pa" "unat fl < 1024"
  shows "PTE2PA (PA2PTE pa OR fl) = pa"
proof (rule bit_word_eqI)
  fix n
  have f: "\<not> bit fl k" if "10 \<le> k" for k
    using bit_less_exp [of fl 10 k] assms(2) that by auto
  show "bit (PTE2PA (PA2PTE pa OR fl)) n = bit pa n"
  proof (cases "12 \<le> n")
    case True
    then have "\<not> bit fl (n - 2)" "10 \<le> n - 2" "n - 2 + 2 = n"
      using f [of "n - 2"] by auto
    with True show ?thesis
      by (auto simp: bit_PTE2PA bit_or_iff bit_PA2PTE dest: bit_imp_le_length)
  next
    case False
    with assms(1) show ?thesis by (simp add: bit_PTE2PA page_aligned_bits)
  qed
qed

lemma PTE_FLAGS_PA2PTE:
  assumes "unat fl < 1024"
  shows "PTE_FLAGS (PA2PTE pa OR fl) = fl"
proof (rule bit_word_eqI)
  fix n
  have "PTE_FLAGS e = take_bit 10 e" for e
    by (simp add: PTE_FLAGS_def take_bit_eq_mask mask_eq_exp_minus_1)
  then show "bit (PTE_FLAGS (PA2PTE pa OR fl)) n = bit fl n"
    using bit_less_exp [of fl 10 n] assms
    by (auto simp: bit_take_bit_iff bit_or_iff bit_PA2PTE)
qed

end
