(* ===== verification/KString.thy ===== *)
theory KString
  imports Riscv
begin

text \<open>
  The byte and string routines of \<^verbatim>\<open>kernel/string.c\<close>, over a byte-addressed memory
  \<open>u64 \<Rightarrow> u8\<close>, pointer by pointer as the loops of the source run, and their closed forms.
  The closed forms say which bytes change through the wrapped offset \<open>a - dst\<close> of an
  address \<open>a\<close> in the written region.
\<close>

type_synonym memory = "u64 \<Rightarrow> u8"

section \<open>Definitions\<close>

text \<open>\<^verbatim>\<open>memset(dst, c, n)\<close>: the loop writes one byte and moves on.\<close>

primrec memset_loop :: "nat \<Rightarrow> memory \<Rightarrow> u64 \<Rightarrow> u8 \<Rightarrow> memory" where
  "memset_loop 0 m cdst c = m"
| "memset_loop (Suc k) m cdst c = memset_loop k (m(cdst := c)) (cdst + 1) c"

definition memset :: "memory \<Rightarrow> u64 \<Rightarrow> i32 \<Rightarrow> u32 \<Rightarrow> memory" where
  "memset m dst c n = memset_loop (unat n) m dst (ucast c)"

primrec memcmp_loop :: "nat \<Rightarrow> memory \<Rightarrow> u64 \<Rightarrow> u64 \<Rightarrow> int" where
  "memcmp_loop 0 m s1 s2 = 0"
| "memcmp_loop (Suc k) m s1 s2 =
     (if m s1 \<noteq> m s2 then uint (m s1) - uint (m s2)
      else memcmp_loop k m (s1 + 1) (s2 + 1))"

definition memcmp :: "memory \<Rightarrow> u64 \<Rightarrow> u64 \<Rightarrow> u32 \<Rightarrow> int" where
  "memcmp m v1 v2 n = memcmp_loop (unat n) m v1 v2"

primrec copy_forward :: "nat \<Rightarrow> memory \<Rightarrow> u64 \<Rightarrow> u64 \<Rightarrow> memory" where
  "copy_forward 0 m d s = m"
| "copy_forward (Suc k) m d s = copy_forward k (m(d := m s)) (d + 1) (s + 1)"

primrec copy_backward :: "nat \<Rightarrow> memory \<Rightarrow> u64 \<Rightarrow> u64 \<Rightarrow> memory" where
  "copy_backward 0 m d s = m"
| "copy_backward (Suc k) m d s = copy_backward k (m(d - 1 := m (s - 1))) (d - 1) (s - 1)"

definition memmove :: "memory \<Rightarrow> u64 \<Rightarrow> u64 \<Rightarrow> u32 \<Rightarrow> memory" where
  "memmove m dst src n =
     (if n = 0 then m
      else if src < dst \<and> dst < src + ucast n
      then copy_backward (unat n) m (dst + ucast n) (src + ucast n)
      else copy_forward (unat n) m dst src)"

definition memcpy :: "memory \<Rightarrow> u64 \<Rightarrow> u64 \<Rightarrow> u32 \<Rightarrow> memory" where
  "memcpy m dst src n = memmove m dst src n"

primrec strncmp_loop :: "nat \<Rightarrow> memory \<Rightarrow> u64 \<Rightarrow> u64 \<Rightarrow> int" where
  "strncmp_loop 0 m p q = 0"
| "strncmp_loop (Suc k) m p q =
     (if m p \<noteq> 0 \<and> m p = m q then strncmp_loop k m (p + 1) (q + 1)
      else uint (m p) - uint (m q))"

definition strncmp :: "memory \<Rightarrow> u64 \<Rightarrow> u64 \<Rightarrow> u32 \<Rightarrow> int" where
  "strncmp m p q n = strncmp_loop (unat n) m p q"

text \<open>
  \<^verbatim>\<open>strncpy(s, t, n)\<close>: copy up to and including a NUL, then fill the rest with zeros
  (the second loop is \<open>memset_loop\<close> with \<open>c = 0\<close>). A non-positive \<^verbatim>\<open>n\<close> copies nothing.
\<close>

primrec strncpy_loop :: "nat \<Rightarrow> memory \<Rightarrow> u64 \<Rightarrow> u64 \<Rightarrow> memory" where
  "strncpy_loop 0 m s t = m"
| "strncpy_loop (Suc k) m s t =
     (let m' = m(s := m t)
      in if m t \<noteq> 0 then strncpy_loop k m' (s + 1) (t + 1)
         else memset_loop k m' (s + 1) 0)"

definition strncpy :: "memory \<Rightarrow> u64 \<Rightarrow> u64 \<Rightarrow> i32 \<Rightarrow> memory" where
  "strncpy m s t n = strncpy_loop (nat (sint n)) m s t"

text \<open>\<^verbatim>\<open>safestrcpy(s, t, n)\<close>: at most \<^verbatim>\<open>n - 1\<close> bytes, then always a NUL.\<close>

primrec safestrcpy_loop :: "nat \<Rightarrow> memory \<Rightarrow> u64 \<Rightarrow> u64 \<Rightarrow> memory" where
  "safestrcpy_loop 0 m s t = m(s := 0)"
| "safestrcpy_loop (Suc k) m s t =
     (let m' = m(s := m t)
      in if m t \<noteq> 0 then safestrcpy_loop k m' (s + 1) (t + 1)
         else m'(s + 1 := 0))"

definition safestrcpy :: "memory \<Rightarrow> u64 \<Rightarrow> u64 \<Rightarrow> i32 \<Rightarrow> memory" where
  "safestrcpy m s t n =
     (if sint n \<le> 0 then m else safestrcpy_loop (nat (sint n) - 1) m s t)"

text \<open>
  \<^verbatim>\<open>strlen(s)\<close> runs until it meets a NUL; not meeting one is \<open>None\<close>.
\<close>

partial_function (option) strlen_loop :: "memory \<Rightarrow> u64 \<Rightarrow> i32 \<Rightarrow> i32 option" where
  "strlen_loop m s n =
     (if m (s + scast n) = 0 then Some n else strlen_loop m s (n + 1))"

definition strlen :: "memory \<Rightarrow> u64 \<Rightarrow> i32 option" where
  "strlen m s = strlen_loop m s 0"

section \<open>Closed forms\<close>

lemma offset_step:
  "unat (a - (d + 1) :: u64) = (if a = d then 2 ^ 64 - 1 else unat (a - d) - 1)"
  using unat_minus_one_wrap [of "a - d"] by (simp add: algebra_simps)

lemma offset_pos: "a \<noteq> d \<Longrightarrow> 0 < unat (a - d :: u64)"
  by (simp add: unat_gt_0)

lemma memset_loop_eq:
  "k \<le> 2 ^ 64 \<Longrightarrow> memset_loop k m d c = (\<lambda>a. if unat (a - d) < k then c else m a)"
proof (induction k arbitrary: m d)
  case 0
  then show ?case by simp
next
  case (Suc k)
  have "(if unat (a - (d + 1)) < k then c else (m(d := c)) a) =
        (if unat (a - d) < Suc k then c else m a)" for a
    using Suc.prems offset_step [of a d] offset_pos [of a d] by auto
  with Suc show ?case by simp
qed

lemma memset_eq:
  "memset m dst c n = (\<lambda>a. if a - dst < ucast n then ucast c else m a)"
proof -
  have "unat n \<le> 2 ^ 64" using unat_bound [of n] by simp
  then show ?thesis
    by (simp add: memset_def memset_loop_eq word_less_nat_alt)
qed

text \<open>
  A forward copy reads each source byte before overwriting it unless the destination starts
  strictly inside the source region; a backward copy, unless the source starts strictly
  inside the destination region.
\<close>

lemma copy_forward_eq:
  assumes "k \<le> 2 ^ 64" "d = s \<or> k \<le> unat (d - s)"
  shows "copy_forward k m d s = (\<lambda>a. if unat (a - d) < k then m (s + (a - d)) else m a)"
  using assms
proof (induction k arbitrary: m d s)
  case 0
  then show ?case by simp
next
  case (Suc k)
  let ?m = "m(d := m s)"
  have IH: "copy_forward k ?m (d + 1) (s + 1) =
      (\<lambda>a. if unat (a - (d + 1)) < k then ?m (s + 1 + (a - (d + 1))) else ?m a)"
    by (rule Suc.IH) (use Suc.prems in auto)
  have "(if unat (a - (d + 1)) < k then ?m (s + 1 + (a - (d + 1))) else ?m a) =
        (if unat (a - d) < Suc k then m (s + (a - d)) else m a)" for a
  proof (cases "a = d")
    case True
    then show ?thesis using Suc.prems offset_step [of a d] by auto
  next
    case False
    have src: "s + 1 + (a - (d + 1)) = s + (a - d)" by simp
    have "s + (a - d) \<noteq> d" if "unat (a - d) < Suc k"
    proof
      assume "s + (a - d) = d"
      then have "a - d = d - s" by (simp add: algebra_simps)
      with that False Suc.prems show False by auto
    qed
    moreover have "unat (a - (d + 1)) < k \<longleftrightarrow> unat (a - d) < Suc k"
      using False offset_step [of a d] offset_pos [of a d] by auto
    ultimately show ?thesis using False by (simp add: src)
  qed
  with IH show ?case by simp
qed

lemma copy_backward_eq:
  assumes "k \<le> 2 ^ 64" "d = s \<or> k \<le> unat (s - d)"
  shows "copy_backward k m (d + of_nat k) (s + of_nat k) =
    (\<lambda>a. if unat (a - d) < k then m (s + (a - d)) else m a)"
  using assms
proof (induction k arbitrary: m)
  case 0
  then show ?case by simp
next
  case (Suc k)
  let ?D = "d + of_nat k" and ?S = "s + of_nat k"
  let ?m = "m(?D := m ?S)"
  have k: "unat (of_nat k :: u64) = k"
    using Suc.prems by (simp add: unat_of_nat take_bit_nat_eq_self_iff)
  have IH: "copy_backward k ?m ?D ?S =
      (\<lambda>a. if unat (a - d) < k then ?m (s + (a - d)) else ?m a)"
    by (rule Suc.IH) (use Suc.prems in auto)
  have "(if unat (a - d) < k then ?m (s + (a - d)) else ?m a) =
        (if unat (a - d) < Suc k then m (s + (a - d)) else m a)" for a
  proof (cases "a = ?D")
    case True
    then show ?thesis using k by simp
  next
    case False
    have "unat (a - d) \<noteq> k"
    proof
      assume "unat (a - d) = k"
      moreover have "of_nat (unat (a - d)) = a - d" by simp
      ultimately have "a - d = of_nat k" by metis
      with False show False by (simp add: algebra_simps)
    qed
    moreover have "s + (a - d) \<noteq> ?D" if "unat (a - d) < k"
    proof
      assume "s + (a - d) = ?D"
      then have *: "of_nat k - (a - d) = s - d" by (simp add: algebra_simps)
      have "unat (of_nat k - (a - d) :: u64) = k - unat (a - d)"
        using that k by (subst unat_sub) (simp_all add: word_le_nat_alt)
      with * have "unat (s - d) = k - unat (a - d)" by metis
      with that Suc.prems(2) show False by fastforce
    qed
    ultimately show ?thesis using False by auto
  qed
  with IH show ?case by (simp add: algebra_simps)
qed

text \<open>
  Overlap-safe copying: whenever neither region runs past the end of the address space,
  \<^verbatim>\<open>memmove\<close> leaves in the destination what the source held before the call, and changes no
  other byte, however the two regions overlap.
\<close>

lemma memmove_eq:
  assumes src: "unat src + unat n \<le> 2 ^ 64" and dst: "unat dst + unat n \<le> 2 ^ 64"
  shows "memmove m dst src n =
    (\<lambda>a. if a - dst < ucast n then m (src + (a - dst)) else m a)"
proof -
  let ?spec = "\<lambda>a. if unat (a - dst) < unat n then m (src + (a - dst)) else m a"
  have n: "unat n \<le> 2 ^ 64" using unat_bound [of n] by simp
  have [simp]: "(of_nat (unat n) :: u64) = ucast n" by simp
  have "memmove m dst src n = ?spec"
  proof (cases "n = 0")
    case True
    then show ?thesis by (simp add: memmove_def)
  next
    case False
    show ?thesis
    proof (cases "src < dst \<and> dst < src + ucast n")
      case True
      have "unat (src - dst) = 2 ^ 64 - (unat dst - unat src)"
        using True unat_bound [of dst]
        by (simp add: unat_sub_if_size word_size word_less_nat_alt)
      then have "unat n \<le> unat (src - dst)" using dst True by (simp add: word_less_nat_alt)
      with copy_backward_eq [OF n, of dst src m] True False show ?thesis
        by (simp add: memmove_def)
    next
      case fwd: False
      have "dst = src \<or> unat n \<le> unat (dst - src)"
      proof (cases "src < dst")
        case True
        then have "src + ucast n \<le> dst" using fwd by auto
        then have "unat (src + ucast n) \<le> unat dst" by (simp add: word_le_nat_alt)
        moreover have "unat (src + ucast n) = unat src + unat n"
        proof -
          have "unat src + unat n < 2 ^ 64"
          proof (rule ccontr)
            assume "\<not> unat src + unat n < 2 ^ 64"
            with src have "unat src + unat n = 2 ^ 64" by simp
            with dst True show False by (simp add: word_less_nat_alt)
          qed
          then show ?thesis by (simp add: unat_word_ariths)
        qed
        moreover have "unat (dst - src) = unat dst - unat src"
          using True by (simp add: unat_sub)
        ultimately show ?thesis by linarith
      next
        case False
        then have "unat (dst - src) = 2 ^ 64 - (unat src - unat dst) \<or> dst = src"
          using unat_bound [of src]
          by (auto simp: unat_sub_if_size word_size word_less_nat_alt word_unat_eq_iff)
        then show ?thesis using src False by (auto simp: word_less_nat_alt)
      qed
      with copy_forward_eq [OF n, of dst src m] fwd False show ?thesis
        by (auto simp: memmove_def)
    qed
  qed
  then show ?thesis by (simp add: word_less_nat_alt)
qed

section \<open>Strings\<close>

text \<open>\<open>cstring m p xs\<close>: the NUL-terminated string at \<open>p\<close> has the bytes \<open>xs\<close>.\<close>

primrec cstring :: "memory \<Rightarrow> u64 \<Rightarrow> u8 list \<Rightarrow> bool" where
  "cstring m p [] \<longleftrightarrow> m p = 0"
| "cstring m p (x # xs) \<longleftrightarrow> m p = x \<and> x \<noteq> 0 \<and> cstring m (p + 1) xs"

lemma cstring_cong:
  "(\<And>j. j \<le> length xs \<Longrightarrow> m' (p + of_nat j) = m (p + of_nat j)) \<Longrightarrow>
   cstring m' p xs = cstring m p xs"
proof (induction xs arbitrary: p)
  case Nil
  then show ?case by (simp add: Nil [of 0, simplified])
next
  case (Cons x xs)
  have "cstring m' (p + 1) xs = cstring m (p + 1) xs"
    by (rule Cons.IH) (use Cons.prems [of "Suc j" for j] in \<open>simp add: algebra_simps\<close>)
  with Cons.prems [of 0] show ?case by simp
qed

text \<open>
  \<^verbatim>\<open>strlen\<close> returns on every NUL-terminated string shorter than 2 GB, with its length.
\<close>

lemma strlen_loop_cstring:
  assumes "cstring m (s + of_nat i) xs" "i + length xs < 2 ^ 31"
  shows "strlen_loop m s (of_nat i) = Some (of_nat (i + length xs))"
  using assms
proof (induction xs arbitrary: i)
  case Nil
  have "(scast (of_nat i :: i32) :: u64) = of_nat i"
    using Nil.prems by (intro scast_of_nat_small) simp
  with Nil show ?case by (simp add: strlen_loop.simps)
next
  case (Cons x xs)
  have sc: "(scast (of_nat i :: i32) :: u64) = of_nat i"
    using Cons.prems by (intro scast_of_nat_small) simp
  have "strlen_loop m s (of_nat (Suc i)) = Some (of_nat (Suc i + length xs))"
    by (rule Cons.IH) (use Cons.prems in \<open>simp_all add: algebra_simps\<close>)
  with Cons.prems show ?case
    by (subst strlen_loop.simps) (simp add: sc algebra_simps)
qed

lemma strlen_cstring:
  "cstring m s xs \<Longrightarrow> length xs < 2 ^ 31 \<Longrightarrow> strlen m s = Some (of_nat (length xs))"
  using strlen_loop_cstring [of m s 0 xs] by (simp add: strlen_def)

text \<open>\<^verbatim>\<open>safestrcpy\<close> writes at most \<open>n\<close> bytes and leaves the longest prefix that fits, terminated.\<close>

lemma safestrcpy_loop_frame:
  "k < 2 ^ 64 - 1 \<Longrightarrow> k < unat (a - s) \<Longrightarrow> safestrcpy_loop k m s t a = m a"
proof (induction k arbitrary: m s t)
  case 0
  then show ?case by auto
next
  case (Suc k)
  then have "a \<noteq> s" and off: "k < unat (a - (s + 1))"
    using offset_step [of a s] by auto
  moreover have "a \<noteq> s + 1" using off by auto
  ultimately show ?case using Suc by (simp add: Let_def)
qed

lemma safestrcpy_loop_cstring:
  assumes "k < 2 ^ 32" "cstring m t xs"
    and "\<And>i j. i \<le> k \<Longrightarrow> j \<le> length xs \<Longrightarrow> s + of_nat i \<noteq> t + of_nat j"
  shows "cstring (safestrcpy_loop k m s t) s (take k xs)"
  using assms
proof (induction k arbitrary: m s t xs)
  case 0
  then show ?case by simp
next
  case (Suc k)
  show ?case
  proof (cases xs)
    case Nil
    with Suc.prems(2) show ?thesis by simp
  next
    case (Cons x ys)
    let ?m = "m(s := m t)"
    have x: "m t = x" "x \<noteq> 0" using Suc.prems(2) Cons by auto
    have "cstring ?m (t + 1) ys = cstring m (t + 1) ys"
    proof (rule cstring_cong)
      fix j assume "j \<le> length ys"
      then have "s \<noteq> t + 1 + of_nat j"
        using Suc.prems(3) [of 0 "Suc j"] Cons by (simp add: algebra_simps)
      then show "?m (t + 1 + of_nat j) = m (t + 1 + of_nat j)" by auto
    qed
    then have ys: "cstring ?m (t + 1) ys" using Suc.prems(2) Cons by simp
    have "cstring (safestrcpy_loop k ?m (s + 1) (t + 1)) (s + 1) (take k ys)"
    proof (rule Suc.IH [OF _ ys])
      fix i j assume "i \<le> k" "j \<le> length ys"
      then show "s + 1 + of_nat i \<noteq> t + 1 + of_nat j"
        using Suc.prems(3) [of "Suc i" "Suc j"] Cons by (simp add: algebra_simps)
    qed (use Suc.prems(1) in simp)
    moreover have "safestrcpy_loop k ?m (s + 1) (t + 1) s = ?m s"
      by (rule safestrcpy_loop_frame) (use Suc.prems(1) offset_step [of s s] in auto)
    ultimately show ?thesis using Cons x by simp
  qed
qed

lemma safestrcpy_cstring:
  assumes "0 < sint n" "cstring m t xs"
    and "\<And>i j. int i < sint n \<Longrightarrow> j \<le> length xs \<Longrightarrow> s + of_nat i \<noteq> t + of_nat j"
  shows "cstring (safestrcpy m s t n) s (take (nat (sint n) - 1) xs)"
proof -
  have "sint n < 2 ^ 31" using sint_lt [of n] by simp
  with assms show ?thesis
    unfolding safestrcpy_def by (auto intro!: safestrcpy_loop_cstring)
qed

lemma safestrcpy_frame:
  assumes "nat (sint n) \<le> unat (a - s)"
  shows "safestrcpy m s t n a = m a"
proof -
  have "sint n < 2 ^ 31" using sint_lt [of n] by simp
  with assms show ?thesis
    unfolding safestrcpy_def by (auto intro!: safestrcpy_loop_frame)
qed

text \<open>
  The name that an \<open>n\<close>-byte field holds: the bytes up to the first NUL, or all of them.
  \<^verbatim>\<open>strncmp\<close> is zero exactly on equal names.
\<close>

primrec field_name :: "nat \<Rightarrow> memory \<Rightarrow> u64 \<Rightarrow> u8 list" where
  "field_name 0 m p = []"
| "field_name (Suc k) m p = (if m p = 0 then [] else m p # field_name k m (p + 1))"

lemma strncmp_loop_eq_0: "strncmp_loop k m p q = 0 \<longleftrightarrow> field_name k m p = field_name k m q"
  by (induction k arbitrary: p q) (auto simp: uint_conv)

lemma strncmp_eq_0:
  "strncmp m p q n = 0 \<longleftrightarrow> field_name (unat n) m p = field_name (unat n) m q"
  by (simp add: strncmp_def strncmp_loop_eq_0)

lemma memcmp_loop_eq_0:
  "memcmp_loop k m s1 s2 = 0 \<longleftrightarrow> (\<forall>i < k. m (s1 + of_nat i) = m (s2 + of_nat i))"
proof (induction k arbitrary: s1 s2)
  case 0
  show ?case by simp
next
  case (Suc k)
  have "(\<forall>i < Suc k. m (s1 + of_nat i) = m (s2 + of_nat i)) \<longleftrightarrow>
      m s1 = m s2 \<and> (\<forall>i < k. m (s1 + 1 + of_nat i) = m (s2 + 1 + of_nat i))"
    by (auto simp: less_Suc_eq_0_disj algebra_simps)
  with Suc show ?case by (auto simp: uint_conv)
qed

lemma memcmp_eq_0:
  "memcmp m v1 v2 n = 0 \<longleftrightarrow> (\<forall>i < unat n. m (v1 + of_nat i) = m (v2 + of_nat i))"
  by (simp add: memcmp_def memcmp_loop_eq_0)

end
