(* ===== verification/Proc.thy ===== *)
theory Proc
  imports Spinlock KString
begin

text \<open>
  The process table and the scheduler: \<^verbatim>\<open>kernel/proc.h\<close> and the parts of \<^verbatim>\<open>kernel/proc.c\<close>
  that work on the table alone. A process is its slot number in \<^verbatim>\<open>proc[]\<close>; pointers to
  processes are slot numbers, a null pointer is \<open>None\<close>.

  Locks. The lock of a process is passed from the thread that gives up the CPU to the
  scheduler and from the scheduler to the thread that gets it, and \<^verbatim>\<open>sched()\<close> checks it, so
  \<open>yield\<close>, \<open>sleep\<close>, \<open>sched\<close>, \<open>kexit_sched\<close>, \<open>scan_entry\<close> and \<open>resume\<close> acquire and release it
  explicitly. The search of the scheduler locks one entry at a time, and \<open>scan_entry\<close> is the critical section of
  one entry; \<open>dispatch\<close> runs the loops without interference, and theory Sched interleaves the entries with
  the steps of the other CPUs. The scans of \<^verbatim>\<open>wakeup()\<close> and \<^verbatim>\<open>kkill()\<close> lock one entry at a time too; \<open>wakeup_entry\<close> and
  \<open>kkill_entry\<close> are their critical sections, \<open>wakeup\<close> and \<open>kkill\<close> the whole calls without interference.

  Context switches. A thread that is switched out is suspended inside \<^verbatim>\<open>sched()\<close>, with the
  local variable \<^verbatim>\<open>intena\<close> on its kernel stack: the ghost fields \<open>k_point\<close> and \<open>k_intena\<close> say
  where it will continue and with which value.
\<close>

section \<open>Data\<close>

datatype procstate = UNUSED | USED | SLEEPING | RUNNABLE | RUNNING | ZOMBIE

record kcontext =
  ctx_ra :: u64
  ctx_sp :: u64
  ctx_s0 :: u64
  ctx_s1 :: u64
  ctx_s2 :: u64
  ctx_s3 :: u64
  ctx_s4 :: u64
  ctx_s5 :: u64
  ctx_s6 :: u64
  ctx_s7 :: u64
  ctx_s8 :: u64
  ctx_s9 :: u64
  ctx_s10 :: u64
  ctx_s11 :: u64

datatype kpoint = AtForkret | InYield | InSleep

record proc =
  plock :: spinlock
  p_state :: procstate
  p_chan :: chan
  p_killed :: i32
  xstate :: i32
  priority :: i32
  ticks_used :: i32
  p_pid :: i32
  parent :: "nat option"
  kstack :: u64
  sz :: u64
  pagetable :: u64
  trapframe :: u64
  p_context :: kcontext
  ofile :: "nat option list"
  cwd :: "nat option"
  p_name :: "u8 list"
  k_point :: kpoint
  k_intena :: bool

record ksched =
  procs :: "proc list"
  cpus :: "cpu list"
  initproc :: "nat option"
  nextpid :: i32
  pid_lock :: spinlock
  wait_lock :: spinlock
  tickslock :: spinlock
  ticks :: u32

text \<open>The address of a process as a wait channel.\<close>

definition proc_chan :: "nat option \<Rightarrow> chan" where
  "proc_chan p = (case p of None \<Rightarrow> NoChan | Some i \<Rightarrow> ProcChan i)"

definition upd_proc :: "nat \<Rightarrow> (proc \<Rightarrow> proc) \<Rightarrow> ksched \<Rightarrow> ksched" where
  "upd_proc i f k = k\<lparr>procs := (procs k)[i := f (procs k ! i)]\<rparr>"

definition upd_cpu :: "nat \<Rightarrow> (cpu \<Rightarrow> cpu) \<Rightarrow> ksched \<Rightarrow> ksched" where
  "upd_cpu h f k = k\<lparr>cpus := (cpus k)[h := f (cpus k ! h)]\<rparr>"

section \<open>Operations\<close>

definition zero_context :: kcontext where
  "zero_context = \<lparr>ctx_ra = 0, ctx_sp = 0, ctx_s0 = 0, ctx_s1 = 0, ctx_s2 = 0, ctx_s3 = 0,
     ctx_s4 = 0, ctx_s5 = 0, ctx_s6 = 0, ctx_s7 = 0, ctx_s8 = 0, ctx_s9 = 0, ctx_s10 = 0,
     ctx_s11 = 0\<rparr>"

definition zero_proc :: proc where
  "zero_proc = \<lparr>plock = initlock '''', p_state = UNUSED, p_chan = NoChan, p_killed = 0,
     xstate = 0, priority = 0, ticks_used = 0, p_pid = 0, parent = None, kstack = 0, sz = 0,
     pagetable = 0, trapframe = 0, p_context = zero_context, ofile = replicate NOFILE None,
     cwd = None, p_name = replicate 16 0, k_point = AtForkret, k_intena = False\<rparr>"

definition procinit :: "ksched \<Rightarrow> ksched" where
  "procinit k =
     k\<lparr>pid_lock := initlock ''nextpid'', wait_lock := initlock ''wait_lock'',
       procs := map (\<lambda>i. (procs k ! i)\<lparr>plock := initlock ''proc'', p_state := UNUSED,
                          kstack := KSTACK i\<rparr>) [0..<NPROC]\<rparr>"

definition myproc :: "nat \<Rightarrow> ksched \<Rightarrow> nat option" where
  "myproc h k = c_proc (cpus k ! h)"

definition allocpid :: "ksched \<Rightarrow> i32 \<times> ksched" where
  "allocpid k = (nextpid k, k\<lparr>nextpid := nextpid k + 1\<rparr>)"

definition acquire_p :: "nat \<Rightarrow> nat \<Rightarrow> ksched \<Rightarrow> ksched res" where
  "acquire_p h i k =
     bindR (acquire h (plock (procs k ! i)) (cpus k))
       (\<lambda>(lk, cs). Inr ((upd_proc i (\<lambda>p. p\<lparr>plock := lk\<rparr>) k)\<lparr>cpus := cs\<rparr>))"

definition release_p :: "nat \<Rightarrow> nat \<Rightarrow> ksched \<Rightarrow> ksched res" where
  "release_p h i k =
     bindR (release h (plock (procs k ! i)) (cpus k))
       (\<lambda>(lk, cs). Inr ((upd_proc i (\<lambda>p. p\<lparr>plock := lk\<rparr>) k)\<lparr>cpus := cs\<rparr>))"

text \<open>What \<^verbatim>\<open>scheduler()\<close> does when the process switches back to it.\<close>

definition scheduler_return :: "nat \<Rightarrow> nat \<Rightarrow> ksched \<Rightarrow> ksched res" where
  "scheduler_return h i k = release_p h i (upd_cpu h (\<lambda>c. c\<lparr>c_proc := None\<rparr>) k)"

text \<open>\<^verbatim>\<open>sched()\<close> up to its \<^verbatim>\<open>swtch\<close>. With no current process it dereferences null: a kernel trap.\<close>

definition sched :: "nat \<Rightarrow> ksched \<Rightarrow> (nat \<times> ksched) res" where
  "sched h k =
     (case myproc h k of
        None \<Rightarrow> Inl (Panic ''kerneltrap'')
      | Some i \<Rightarrow>
          if \<not> holding h (plock (procs k ! i)) then Inl (Panic ''sched p->lock'')
          else if noff (cpus k ! h) \<noteq> 1 then Inl (Panic ''sched locks'')
          else if p_state (procs k ! i) = RUNNING then Inl (Panic ''sched RUNNING'')
          else if intr_get h (cpus k) then Inl (Panic ''sched interruptible'')
          else Inr (i, upd_proc i (\<lambda>p. p\<lparr>k_intena := intena (cpus k ! h)\<rparr>) k))"

text \<open>\<^verbatim>\<open>sched()\<close> followed by the scheduler's side of the switch.\<close>

definition switch_out :: "nat \<Rightarrow> ksched \<Rightarrow> ksched res" where
  "switch_out h k = bindR (sched h k) (\<lambda>(i, k1). scheduler_return h i k1)"

text \<open>
  The thread of process \<open>i\<close> continues after \<^verbatim>\<open>swtch\<close>: at the start of \<^verbatim>\<open>forkret()\<close>, or in
  \<^verbatim>\<open>sched()\<close>, which restores \<^verbatim>\<open>intena\<close> and returns to \<^verbatim>\<open>yield()\<close> or \<^verbatim>\<open>sleep()\<close>. All three release
  the lock of the process; \<^verbatim>\<open>sleep()\<close> first clears the channel.
\<close>

definition resume :: "nat \<Rightarrow> nat \<Rightarrow> ksched \<Rightarrow> ksched res" where
  "resume h i k =
     (let p = procs k ! i
      in case k_point p of
           AtForkret \<Rightarrow> release_p h i k
         | InYield \<Rightarrow> release_p h i (upd_cpu h (\<lambda>c. c\<lparr>intena := k_intena p\<rparr>) k)
         | InSleep \<Rightarrow>
             release_p h i (upd_proc i (\<lambda>p. p\<lparr>p_chan := NoChan\<rparr>)
               (upd_cpu h (\<lambda>c. c\<lparr>intena := k_intena p\<rparr>) k)))"

text \<open>
  The body of the inner loop of \<^verbatim>\<open>scheduler()\<close>: entry \<open>i\<close> is locked, tested for level \<open>pr\<close>, and either unlocked
  again or given the CPU, where its thread continues up to the release of the lock that it has been handed.
  The first component says which.
\<close>

definition scan_entry :: "nat \<Rightarrow> i32 \<Rightarrow> nat \<Rightarrow> ksched \<Rightarrow> (bool \<times> ksched) res" where
  "scan_entry h pr i k =
     bindR (acquire_p h i k) (\<lambda>k1.
       if p_state (procs k1 ! i) = RUNNABLE \<and> priority (procs k1 ! i) = pr
       then bindR (resume h i (upd_cpu h (\<lambda>c. c\<lparr>c_proc := Some i\<rparr>) (upd_proc i (\<lambda>p. p\<lparr>p_state := RUNNING\<rparr>) k1)))
              (\<lambda>k2. Inr (True, k2))
       else bindR (release_p h i k1) (\<lambda>k2. Inr (False, k2)))"

text \<open>The two loops, and one round of \<^verbatim>\<open>scheduler()\<close>, when nothing else runs meanwhile.\<close>

primrec scan_level :: "nat \<Rightarrow> i32 \<Rightarrow> nat list \<Rightarrow> ksched \<Rightarrow> (bool \<times> ksched) res" where
  "scan_level h pr [] k = Inr (False, k)"
| "scan_level h pr (i # is) k =
     bindR (scan_entry h pr i k) (\<lambda>(found, k1). if found then Inr (True, k1) else scan_level h pr is k1)"

primrec scan_levels :: "nat \<Rightarrow> i32 list \<Rightarrow> ksched \<Rightarrow> (bool \<times> ksched) res" where
  "scan_levels h [] k = Inr (False, k)"
| "scan_levels h (pr # prs) k =
     bindR (scan_level h pr [0..<NPROC] k) (\<lambda>(found, k1). if found then Inr (True, k1) else scan_levels h prs k1)"

definition dispatch :: "nat \<Rightarrow> ksched \<Rightarrow> ksched res" where
  "dispatch h k =
     bindR (scan_levels h [0, 1, 2] (k\<lparr>cpus := intr_off h (intr_on h (cpus k))\<rparr>)) (\<lambda>(found, k1).
       if found then Inr k1 else Inr (k1\<lparr>cpus := intr_off h (cpus k1)\<rparr>))"

definition yield :: "nat \<Rightarrow> ksched \<Rightarrow> ksched res" where
  "yield h k =
     (case myproc h k of
        None \<Rightarrow> Inl (Panic ''kerneltrap'')
      | Some i \<Rightarrow>
          bindR (acquire_p h i k) (\<lambda>k1.
            switch_out h (upd_proc i (\<lambda>p. p\<lparr>p_state := RUNNABLE, k_point := InYield\<rparr>) k1)))"

text \<open>\<^verbatim>\<open>sleep(chan, lk)\<close>, until it is switched out; \<open>lk\<close> is the condition lock the caller holds.\<close>

definition sleep :: "nat \<Rightarrow> chan \<Rightarrow> spinlock \<Rightarrow> ksched \<Rightarrow> (spinlock \<times> ksched) res" where
  "sleep h ch lk k =
     (case myproc h k of
        None \<Rightarrow> Inl (Panic ''kerneltrap'')
      | Some i \<Rightarrow>
          bindR (acquire_p h i k) (\<lambda>k1.
          bindR (release h lk (cpus k1)) (\<lambda>(lk', cs).
          bindR (switch_out h (upd_proc i (\<lambda>p. p\<lparr>p_chan := ch, p_state := SLEEPING,
                                                  k_point := InSleep\<rparr>)
                                (k1\<lparr>cpus := cs\<rparr>)))
            (\<lambda>k2. Inr (lk', k2)))))"

definition wakeup_entry :: "nat \<Rightarrow> chan \<Rightarrow> nat \<Rightarrow> ksched \<Rightarrow> ksched" where
  "wakeup_entry h ch i k =
     (if Some i \<noteq> myproc h k \<and> p_state (procs k ! i) = SLEEPING \<and> p_chan (procs k ! i) = ch
      then upd_proc i (\<lambda>p. p\<lparr>p_state := RUNNABLE\<rparr>) k else k)"

definition wakeup :: "nat \<Rightarrow> chan \<Rightarrow> ksched \<Rightarrow> ksched" where
  "wakeup h ch k = fold (wakeup_entry h ch) [0..<length (procs k)] k"

definition kkill_entry :: "i32 \<Rightarrow> nat \<Rightarrow> ksched \<Rightarrow> bool \<times> ksched" where
  "kkill_entry pid i k =
     (if p_pid (procs k ! i) = pid
      then (True, upd_proc i (\<lambda>p. p\<lparr>p_killed := 1,
                p_state := (if p_state p = SLEEPING then RUNNABLE else p_state p)\<rparr>) k)
      else (False, k))"

primrec kkill_scan :: "i32 \<Rightarrow> nat list \<Rightarrow> ksched \<Rightarrow> i32 \<times> ksched" where
  "kkill_scan pid [] k = (- 1, k)"
| "kkill_scan pid (i # is) k =
     (let (hit, k1) = kkill_entry pid i k in if hit then (0, k1) else kkill_scan pid is k1)"

definition kkill :: "i32 \<Rightarrow> ksched \<Rightarrow> i32 \<times> ksched" where
  "kkill pid k = kkill_scan pid [0..<length (procs k)] k"

definition setkilled :: "nat \<Rightarrow> ksched \<Rightarrow> ksched" where
  "setkilled i k = upd_proc i (\<lambda>p. p\<lparr>p_killed := 1\<rparr>) k"

definition killed :: "nat \<Rightarrow> ksched \<Rightarrow> i32" where
  "killed i k = p_killed (procs k ! i)"

text \<open>\<^verbatim>\<open>reparent(p)\<close>: each child goes to init, and init is woken once per child.\<close>

definition reparent :: "nat \<Rightarrow> nat \<Rightarrow> ksched \<Rightarrow> ksched" where
  "reparent h i k =
     fold (\<lambda>j k. if parent (procs k ! j) = Some i
                 then wakeup h (proc_chan (initproc k))
                        (upd_proc j (\<lambda>p. p\<lparr>parent := initproc k\<rparr>) k)
                 else k)
       [0..<length (procs k)] k"

text \<open>
  The end of \<^verbatim>\<open>kexit()\<close>, after the files are closed: from \<^verbatim>\<open>acquire(&wait_lock)\<close> to \<^verbatim>\<open>sched()\<close>.
\<close>

definition kexit_sched :: "nat \<Rightarrow> i32 \<Rightarrow> ksched \<Rightarrow> ksched res" where
  "kexit_sched h status k =
     (case myproc h k of
        None \<Rightarrow> Inl (Panic ''kerneltrap'')
      | Some i \<Rightarrow>
          bindR (acquire h (wait_lock k) (cpus k)) (\<lambda>(lk, cs).
            let k1 = reparent h i (k\<lparr>wait_lock := lk, cpus := cs\<rparr>);
                k2 = wakeup h (proc_chan (parent (procs k1 ! i))) k1
            in bindR (acquire_p h i k2) (\<lambda>k3.
               let k4 = upd_proc i (\<lambda>p. p\<lparr>xstate := status, p_state := ZOMBIE\<rparr>) k3
               in bindR (release h (wait_lock k4) (cpus k4)) (\<lambda>(lk', cs').
                    switch_out h (k4\<lparr>wait_lock := lk', cpus := cs'\<rparr>)))))"

text \<open>
  The first half of \<^verbatim>\<open>allocproc()\<close>: the slot, the pid, and the scheduling fields of a new
  process.
\<close>

definition alloc_slot :: "ksched \<Rightarrow> (nat \<times> ksched) option" where
  "alloc_slot k =
     (case first_idx (\<lambda>p. p_state p = UNUSED) (procs k) of
        None \<Rightarrow> None
      | Some i \<Rightarrow>
          let (pid, k1) = allocpid k
          in Some (i, upd_proc i (\<lambda>p. p\<lparr>p_pid := pid, p_state := USED, priority := 0,
                                         ticks_used := 0\<rparr>) k1))"

text \<open>
  The last lines of \<^verbatim>\<open>allocproc()\<close>: a first switch to the process starts in \<^verbatim>\<open>forkret()\<close>, whose
  address the linker chooses.
\<close>

definition alloc_context :: "u64 \<Rightarrow> nat \<Rightarrow> ksched \<Rightarrow> ksched" where
  "alloc_context forkret_addr i k =
     upd_proc i (\<lambda>p. p\<lparr>p_context := zero_context\<lparr>ctx_ra := forkret_addr,
                         ctx_sp := kstack p + PGSIZE\<rparr>, k_point := AtForkret\<rparr>) k"

text \<open>The fields \<^verbatim>\<open>freeproc()\<close> clears, after it has freed the memory.\<close>

definition free_slot :: "nat \<Rightarrow> ksched \<Rightarrow> ksched" where
  "free_slot i k =
     upd_proc i (\<lambda>p. p\<lparr>trapframe := 0, pagetable := 0, sz := 0, p_pid := 0, parent := None,
       p_name := (p_name p)[0 := 0], p_chan := NoChan, p_killed := 0, xstate := 0,
       p_state := UNUSED\<rparr>) k"

text \<open>The last two critical sections of \<^verbatim>\<open>kfork()\<close>: the child gets its parent, then becomes RUNNABLE.\<close>

definition fork_parent :: "nat \<Rightarrow> nat \<Rightarrow> ksched \<Rightarrow> ksched" where
  "fork_parent np p k = upd_proc np (\<lambda>q. q\<lparr>parent := Some p\<rparr>) k"

definition fork_runnable :: "nat \<Rightarrow> ksched \<Rightarrow> ksched" where
  "fork_runnable np k = upd_proc np (\<lambda>q. q\<lparr>p_state := RUNNABLE\<rparr>) k"

text \<open>
  One scan of the table in \<^verbatim>\<open>kwait()\<close>: the first ZOMBIE child, or whether there are
  children at all.
\<close>

definition zombie_child :: "nat \<Rightarrow> proc list \<Rightarrow> nat option" where
  "zombie_child i ps = first_idx (\<lambda>p. parent p = Some i \<and> p_state p = ZOMBIE) ps"

definition havekids :: "nat \<Rightarrow> proc list \<Rightarrow> bool" where
  "havekids i ps \<longleftrightarrow> (\<exists>p \<in> set ps. parent p = Some i)"

text \<open>\<^verbatim>\<open>procdump()\<close>: one line per used slot, as (pid, state, name).\<close>

definition state_name :: "procstate \<Rightarrow> string" where
  "state_name st =
     (case st of UNUSED \<Rightarrow> ''unused'' | USED \<Rightarrow> ''used'' | SLEEPING \<Rightarrow> ''sleep ''
      | RUNNABLE \<Rightarrow> ''runble'' | RUNNING \<Rightarrow> ''run   '' | ZOMBIE \<Rightarrow> ''zombie'')"

definition procdump :: "ksched \<Rightarrow> (i32 \<times> string \<times> u8 list) list" where
  "procdump k =
     map (\<lambda>p. (p_pid p, state_name (p_state p), p_name p))
       (filter (\<lambda>p. p_state p \<noteq> UNUSED) (procs k))"

section \<open>Reading an updated table\<close>

lemma upd_proc_simps [simp]:
  "procs (upd_proc i f k) = (procs k)[i := f (procs k ! i)]"
  "cpus (upd_proc i f k) = cpus k"
  "initproc (upd_proc i f k) = initproc k"
  "nextpid (upd_proc i f k) = nextpid k"
  "pid_lock (upd_proc i f k) = pid_lock k"
  "wait_lock (upd_proc i f k) = wait_lock k"
  "tickslock (upd_proc i f k) = tickslock k"
  "ticks (upd_proc i f k) = ticks k"
  by (simp_all add: upd_proc_def)

lemma upd_cpu_simps [simp]:
  "cpus (upd_cpu h f k) = (cpus k)[h := f (cpus k ! h)]"
  "procs (upd_cpu h f k) = procs k"
  "initproc (upd_cpu h f k) = initproc k"
  "nextpid (upd_cpu h f k) = nextpid k"
  "pid_lock (upd_cpu h f k) = pid_lock k"
  "wait_lock (upd_cpu h f k) = wait_lock k"
  "tickslock (upd_cpu h f k) = tickslock k"
  "ticks (upd_cpu h f k) = ticks k"
  by (simp_all add: upd_cpu_def)

lemma wakeup_entry_simps [simp]:
  "length (procs (wakeup_entry h ch i k)) = length (procs k)" "myproc h' (wakeup_entry h ch i k) = myproc h' k"
  by (simp_all add: wakeup_entry_def myproc_def)

text \<open>The scans in closed form.\<close>

lemma wakeup_eq:
  "wakeup h ch k =
     k\<lparr>procs := map (\<lambda>i. let p = procs k ! i
                       in if Some i \<noteq> myproc h k \<and> p_state p = SLEEPING \<and> p_chan p = ch
                          then p\<lparr>p_state := RUNNABLE\<rparr> else p)
                  [0..<length (procs k)]\<rparr>"
proof -
  let ?g = "\<lambda>i p. if Some i \<noteq> myproc h k \<and> p_state p = SLEEPING \<and> p_chan p = ch then p\<lparr>p_state := RUNNABLE\<rparr> else p"
  have "fold (wakeup_entry h ch) [0..<n] k = k\<lparr>procs := map (\<lambda>i. ?g i (procs k ! i)) [0..<n] @ drop n (procs k)\<rparr>"
    if "n \<le> length (procs k)" for n
    using that
  proof (induction n)
    case (Suc n)
    have d: "drop n (procs k) = procs k ! n # drop (Suc n) (procs k)" using Suc.prems by (intro Cons_nth_drop_Suc [symmetric]) simp
    show ?case using Suc d by (auto simp: wakeup_entry_def upd_proc_def myproc_def nth_append list_update_append)
  qed simp
  from this [of "length (procs k)"] show ?thesis by (simp add: wakeup_def Let_def)
qed

lemma kkill_alt:
  "kkill pid k =
     (case first_idx (\<lambda>p. p_pid p = pid) (procs k) of
        None \<Rightarrow> (- 1, k)
      | Some i \<Rightarrow> (0, upd_proc i (\<lambda>p. p\<lparr>p_killed := 1,
                p_state := (if p_state p = SLEEPING then RUNNABLE else p_state p)\<rparr>) k))"
proof -
  have "kkill_scan pid is k =
     (case List.find (\<lambda>i. p_pid (procs k ! i) = pid) is of
        None \<Rightarrow> (- 1, k)
      | Some i \<Rightarrow> (0, upd_proc i (\<lambda>p. p\<lparr>p_killed := 1,
                p_state := (if p_state p = SLEEPING then RUNNABLE else p_state p)\<rparr>) k))" for "is"
    by (induction "is") (simp_all add: kkill_entry_def)
  then show ?thesis unfolding kkill_def find_upt [of "\<lambda>p. p_pid p = pid" "procs k", symmetric] by blast
qed

lemma wakeup_simps [simp]:
  "length (procs (wakeup h ch k)) = length (procs k)"
  "cpus (wakeup h ch k) = cpus k"
  "initproc (wakeup h ch k) = initproc k"
  "nextpid (wakeup h ch k) = nextpid k"
  "pid_lock (wakeup h ch k) = pid_lock k"
  "wait_lock (wakeup h ch k) = wait_lock k"
  "tickslock (wakeup h ch k) = tickslock k"
  "ticks (wakeup h ch k) = ticks k"
  by (simp_all add: wakeup_eq)

lemma wakeup_nth:
  assumes "i < length (procs k)"
  shows "procs (wakeup h ch k) ! i =
    (if Some i \<noteq> myproc h k \<and> p_state (procs k ! i) = SLEEPING \<and> p_chan (procs k ! i) = ch
     then (procs k ! i)\<lparr>p_state := RUNNABLE\<rparr> else procs k ! i)"
  using assms by (simp add: wakeup_eq Let_def)

section \<open>Free locks and balanced CPUs\<close>

definition lock_free :: "spinlock \<Rightarrow> bool" where
  "lock_free lk \<longleftrightarrow> \<not> locked lk \<and> lk_cpu lk = None"

lemma lock_free_initlock [simp]: "lock_free (initlock nm)"
  by (simp add: lock_free_def initlock_def)

lemma lock_free_restore [simp]:
  "lock_free lk \<Longrightarrow> lk\<lparr>locked := False, lk_cpu := None\<rparr> = lk"
  by (cases lk) (simp add: lock_free_def)

lemma acquire_free:
  "lock_free lk \<Longrightarrow> acquire h lk cs = Inr (lk\<lparr>locked := True, lk_cpu := Some h\<rparr>, push_off h cs)"
  by (simp add: acquire_def lock_free_def holding_def)

lemma release_held:
  assumes "locked lk" "lk_cpu lk = Some h" "\<not> sie (cs ! h)" "noff (cs ! h) \<ge> 1" "h < length cs"
  shows "release h lk cs = Inr (lk\<lparr>locked := False, lk_cpu := None\<rparr>,
    cs[h := (cs ! h)\<lparr>noff := noff (cs ! h) - 1,
                     sie := noff (cs ! h) = 1 \<and> intena (cs ! h)\<rparr>])"
  using assms
  by (cases "cs ! h"; cases lk)
     (auto simp: release_def holding_def pop_off_def intr_get_def intr_on_def Let_def)

lemma acquire_p_free:
  assumes "lock_free (plock (procs k ! i))"
  shows "acquire_p h i k =
    Inr ((upd_proc i (\<lambda>p. p\<lparr>plock := (plock p)\<lparr>locked := True, lk_cpu := Some h\<rparr>\<rparr>) k)
           \<lparr>cpus := push_off h (cpus k)\<rparr>)"
  using assms by (simp add: acquire_p_def acquire_free upd_proc_def)

lemma release_p_held:
  assumes "locked (plock (procs k ! i))" "lk_cpu (plock (procs k ! i)) = Some h"
    "\<not> sie (cpus k ! h)" "noff (cpus k ! h) \<ge> 1" "h < length (cpus k)"
  shows "release_p h i k =
    Inr ((upd_proc i (\<lambda>p. p\<lparr>plock := (plock p)\<lparr>locked := False, lk_cpu := None\<rparr>\<rparr>) k)
           \<lparr>cpus := (cpus k)[h := (cpus k ! h)\<lparr>noff := noff (cpus k ! h) - 1,
                     sie := noff (cpus k ! h) = 1 \<and> intena (cpus k ! h)\<rparr>]\<rparr>)"
  using assms by (simp add: release_p_def release_held upd_proc_def)

text \<open>CPU \<open>h\<close> runs process \<open>i\<close> and holds no lock.\<close>

definition runs :: "nat \<Rightarrow> nat \<Rightarrow> ksched \<Rightarrow> bool" where
  "runs h i k \<longleftrightarrow> h < length (cpus k) \<and> i < length (procs k) \<and> myproc h k = Some i \<and>
     noff (cpus k ! h) = 0 \<and> lock_free (plock (procs k ! i))"

text \<open>The CPU after a thread has left it: no process, and its own interrupt flag.\<close>

definition left_cpu :: "cpu \<Rightarrow> cpu" where
  "left_cpu c = c\<lparr>c_proc := None, noff := 0, intena := sie c\<rparr>"

lemma switch_out_eq:
  assumes "h < length (cpus k)" "i < length (procs k)" "myproc h k = Some i"
    "locked (plock (procs k ! i))" "lk_cpu (plock (procs k ! i)) = Some h"
    "noff (cpus k ! h) = 1" "\<not> sie (cpus k ! h)" "p_state (procs k ! i) \<noteq> RUNNING"
  shows "switch_out h k =
    Inr (k\<lparr>procs := (procs k)[i := (procs k ! i)\<lparr>k_intena := intena (cpus k ! h),
             plock := (plock (procs k ! i))\<lparr>locked := False, lk_cpu := None\<rparr>\<rparr>],
           cpus := (cpus k)[h := (cpus k ! h)\<lparr>c_proc := None, noff := 0,
             sie := intena (cpus k ! h)\<rparr>]\<rparr>)"
  using assms
  by (simp add: switch_out_def sched_def holding_def intr_get_def scheduler_return_def
       release_p_held)

lemma yield_eq:
  assumes "runs h i k"
  shows "yield h k =
    Inr (k\<lparr>procs := (procs k)[i := (procs k ! i)\<lparr>p_state := RUNNABLE, k_point := InYield,
             k_intena := sie (cpus k ! h)\<rparr>],
           cpus := (cpus k)[h := left_cpu (cpus k ! h)]\<rparr>)"
  using assms unfolding runs_def
  by (cases "cpus k ! h"; cases "procs k ! i")
     (simp add: yield_def acquire_p_free switch_out_eq [where i = i] push_off_simps myproc_def
       left_cpu_def upd_proc_def)

lemma sleep_eq:
  assumes "runs h i k" "lock_free lk" "lk1 = lk\<lparr>locked := True, lk_cpu := Some h\<rparr>"
  shows "sleep h ch lk1 (k\<lparr>cpus := push_off h (cpus k)\<rparr>) =
    Inr (lk, k\<lparr>procs := (procs k)[i := (procs k ! i)\<lparr>p_chan := ch, p_state := SLEEPING,
                 k_point := InSleep, k_intena := sie (cpus k ! h)\<rparr>],
               cpus := (cpus k)[h := left_cpu (cpus k ! h)]\<rparr>)"
  using assms unfolding runs_def
  by (cases "cpus k ! h"; cases "procs k ! i")
     (simp add: sleep_def acquire_p_free release_held switch_out_eq [where i = i] push_off_simps myproc_def
       left_cpu_def upd_proc_def)

section \<open>Dispatching a process\<close>

text \<open>The process and the CPU when the thread runs again.\<close>

definition resumed :: "proc \<Rightarrow> proc" where
  "resumed p = p\<lparr>p_state := RUNNING, p_chan := (if k_point p = InSleep then NoChan else p_chan p)\<rparr>"

definition resumed_sie :: "proc \<Rightarrow> bool" where
  "resumed_sie p \<longleftrightarrow> k_point p \<noteq> AtForkret \<and> k_intena p"

definition entered :: "nat \<Rightarrow> nat \<Rightarrow> ksched \<Rightarrow> ksched" where
  "entered h i k = k\<lparr>procs := (procs k)[i := resumed (procs k ! i)],
     cpus := (cpus k)[h := \<lparr>c_proc = Some i, noff = 0, intena = resumed_sie (procs k ! i),
       sie = resumed_sie (procs k ! i)\<rparr>]\<rparr>"

text \<open>A CPU that scans the table: interrupts off, no lock held.\<close>

definition scans :: "nat \<Rightarrow> ksched \<Rightarrow> bool" where
  "scans h k \<longleftrightarrow> h < length (cpus k) \<and> noff (cpus k ! h) = 0 \<and> \<not> sie (cpus k ! h)"

lemma scan_entry_hit:
  assumes "scans h k" "i < length (procs k)" "lock_free (plock (procs k ! i))"
    "p_state (procs k ! i) = RUNNABLE" "priority (procs k ! i) = pr"
  shows "scan_entry h pr i k = Inr (True, entered h i k)"
  using assms unfolding scans_def entered_def
  by (cases "cpus k ! h"; cases "procs k ! i"; cases "k_point (procs k ! i)")
     (simp_all add: scan_entry_def acquire_p_free push_off_simps upd_proc_def upd_cpu_def resume_def resumed_def
       resumed_sie_def release_p_held)

text \<open>An entry that is passed over leaves a trace only in \<^verbatim>\<open>intena\<close> of the CPU.\<close>

definition passed :: "nat \<Rightarrow> ksched \<Rightarrow> ksched" where
  "passed h k = k\<lparr>cpus := (cpus k)[h := (cpus k ! h)\<lparr>intena := False\<rparr>]\<rparr>"

lemma passed_simps [simp]:
  "procs (passed h k) = procs k" "length (cpus (passed h k)) = length (cpus k)"
  "h' < length (cpus k) \<Longrightarrow> noff (cpus (passed h k) ! h') = noff (cpus k ! h')"
  "h' < length (cpus k) \<Longrightarrow> sie (cpus (passed h k) ! h') = sie (cpus k ! h')"
  "h' < length (cpus k) \<Longrightarrow> c_proc (cpus (passed h k) ! h') = c_proc (cpus k ! h')"
  "passed h (passed h k) = passed h k"
  by (cases "h < length (cpus k)"; cases "h = h'"; simp add: passed_def list_update_beyond)+

lemma scan_entry_pass:
  assumes "scans h k" "i < length (procs k)" "lock_free (plock (procs k ! i))"
    "\<not> (p_state (procs k ! i) = RUNNABLE \<and> priority (procs k ! i) = pr)"
  shows "scan_entry h pr i k = Inr (False, passed h k)"
  using assms unfolding scans_def
  by (cases "cpus k ! h"; cases "procs k ! i")
     (simp add: scan_entry_def acquire_p_free push_off_simps upd_proc_def passed_def release_p_held list_update_same_conv)

lemma scans_passed: "scans h k \<Longrightarrow> scans h (passed h k)"
  by (simp add: scans_def)

lemma entered_passed: "entered h i (passed h k) = entered h i k"
  by (simp add: entered_def passed_def)

text \<open>
  What the search amounts to when the table does not change: for each priority 0, 1, 2 in turn, the first
  RUNNABLE process of that priority in table order.
\<close>

primrec pick_levels :: "i32 list \<Rightarrow> proc list \<Rightarrow> nat option" where
  "pick_levels [] ps = None"
| "pick_levels (pr # prs) ps =
     (case first_idx (\<lambda>p. p_state p = RUNNABLE \<and> priority p = pr) ps of
        Some i \<Rightarrow> Some i
      | None \<Rightarrow> pick_levels prs ps)"

definition scheduler_pick :: "proc list \<Rightarrow> nat option" where
  "scheduler_pick ps = pick_levels [0, 1, 2] ps"

definition all_unlocked :: "ksched \<Rightarrow> bool" where
  "all_unlocked k \<longleftrightarrow> length (procs k) = NPROC \<and> (\<forall>i < NPROC. lock_free (plock (procs k ! i)))"

lemma all_unlocked_passed [simp]: "all_unlocked (passed h k) = all_unlocked k"
  by (simp add: all_unlocked_def)

lemma scan_level_eq:
  assumes "scans h k" "all_unlocked k" "set is \<subseteq> {..<NPROC}"
  shows "scan_level h pr is k =
    (case List.find (\<lambda>i. p_state (procs k ! i) = RUNNABLE \<and> priority (procs k ! i) = pr) is of
       Some i \<Rightarrow> Inr (True, entered h i k)
     | None \<Rightarrow> Inr (False, if is = [] then k else passed h k))"
  using assms
proof (induction "is" arbitrary: k)
  case (Cons i "is")
  have i: "i < length (procs k)" "lock_free (plock (procs k ! i))" using Cons.prems by (simp_all add: all_unlocked_def)
  show ?case
  proof (cases "p_state (procs k ! i) = RUNNABLE \<and> priority (procs k ! i) = pr")
    case True
    then show ?thesis using scan_entry_hit [OF Cons.prems(1) i] by simp
  next
    case False
    then show ?thesis
      using scan_entry_pass [OF Cons.prems(1) i False] Cons.IH [OF scans_passed [OF Cons.prems(1)]] Cons.prems
      by (auto simp: entered_passed split: option.splits)
  qed
qed simp

lemma scan_levels_eq:
  assumes "scans h k" "all_unlocked k"
  shows "scan_levels h prs k =
    (case pick_levels prs (procs k) of
       Some i \<Rightarrow> Inr (True, entered h i k)
     | None \<Rightarrow> Inr (False, if prs = [] then k else passed h k))"
  using assms
proof (induction prs arbitrary: k)
  case (Cons pr prs)
  have len: "length (procs k) = NPROC" using Cons.prems by (simp add: all_unlocked_def)
  have find: "List.find (\<lambda>i. p_state (procs k ! i) = RUNNABLE \<and> priority (procs k ! i) = pr) [0..<NPROC] =
      first_idx (\<lambda>p. p_state p = RUNNABLE \<and> priority p = pr) (procs k)"
    using find_upt [of "\<lambda>p. p_state p = RUNNABLE \<and> priority p = pr" "procs k"] by (simp only: len)
  have lev: "scan_level h pr [0..<NPROC] k =
    (case first_idx (\<lambda>p. p_state p = RUNNABLE \<and> priority p = pr) (procs k) of
       Some i \<Rightarrow> Inr (True, entered h i k)
     | None \<Rightarrow> Inr (False, passed h k))"
    unfolding find [symmetric] using Cons.prems by (subst scan_level_eq) (auto split: option.splits)
  show ?case
    using Cons.IH [OF scans_passed [OF Cons.prems(1)]] Cons.prems(2)
    by (auto simp: lev entered_passed split: option.splits)
qed simp

lemma scans_start:
  assumes "h < length (cpus k)" "noff (cpus k ! h) = 0"
  shows "scans h (k\<lparr>cpus := intr_off h (intr_on h (cpus k))\<rparr>)"
  using assms by (simp add: scans_def intr_on_def intr_off_def)

lemma dispatch_eq:
  assumes "h < length (cpus k)" "noff (cpus k ! h) = 0" "scheduler_pick (procs k) = Some i" "all_unlocked k"
  shows "dispatch h k = Inr (entered h i k)"
  using assms scan_levels_eq [OF scans_start [OF assms(1,2)], of "[0, 1, 2]"]
  by (simp add: dispatch_def scheduler_pick_def all_unlocked_def entered_def intr_on_def intr_off_def del: pick_levels.simps scan_levels.simps)

lemma dispatch_idle:
  assumes "scheduler_pick (procs k) = None" "h < length (cpus k)" "noff (cpus k ! h) = 0" "all_unlocked k"
  shows "dispatch h k = Inr (k\<lparr>cpus := (cpus k)[h := (cpus k ! h)\<lparr>sie := False, intena := False\<rparr>]\<rparr>)"
  using assms scan_levels_eq [OF scans_start [OF assms(2,3)], of "[0, 1, 2]"]
  by (cases "cpus k ! h")
     (simp add: dispatch_def scheduler_pick_def all_unlocked_def passed_def intr_on_def intr_off_def del: pick_levels.simps scan_levels.simps)

section \<open>Reparenting and exit\<close>

lemma reparent_frame [simp]:
  "length (procs (reparent h i k)) = length (procs k)"
  "cpus (reparent h i k) = cpus k"
  "initproc (reparent h i k) = initproc k"
  "nextpid (reparent h i k) = nextpid k"
  "wait_lock (reparent h i k) = wait_lock k"
  "tickslock (reparent h i k) = tickslock k"
  "ticks (reparent h i k) = ticks k"
proof -
  let ?f = "\<lambda>j k. if parent (procs k ! j) = Some i
                 then wakeup h (proc_chan (initproc k))
                        (upd_proc j (\<lambda>p. p\<lparr>parent := initproc k\<rparr>) k)
                 else k"
  have "length (procs (fold ?f js k)) = length (procs k) \<and> cpus (fold ?f js k) = cpus k \<and>
      initproc (fold ?f js k) = initproc k \<and> nextpid (fold ?f js k) = nextpid k \<and>
      wait_lock (fold ?f js k) = wait_lock k \<and> tickslock (fold ?f js k) = tickslock k \<and>
      ticks (fold ?f js k) = ticks k" for js
    by (induction js arbitrary: k) simp_all
  then show "length (procs (reparent h i k)) = length (procs k)"
    "cpus (reparent h i k) = cpus k" "initproc (reparent h i k) = initproc k"
    "nextpid (reparent h i k) = nextpid k" "wait_lock (reparent h i k) = wait_lock k"
    "tickslock (reparent h i k) = tickslock k" "ticks (reparent h i k) = ticks k"
    by (simp_all add: reparent_def)
qed

text \<open>Slot \<open>j\<close> after the first \<open>n\<close> rounds of the loop of \<^verbatim>\<open>reparent(p)\<close>.\<close>

definition reparented :: "nat \<Rightarrow> nat \<Rightarrow> ksched \<Rightarrow> nat \<Rightarrow> nat \<Rightarrow> proc" where
  "reparented h i k n j =
    (let p = procs k ! j;
         p' = (if j < n \<and> parent p = Some i then p\<lparr>parent := initproc k\<rparr> else p)
     in if (\<exists>c < n. parent (procs k ! c) = Some i) \<and> Some j \<noteq> myproc h k \<and>
           p_state p = SLEEPING \<and> p_chan p = proc_chan (initproc k)
        then p'\<lparr>p_state := RUNNABLE\<rparr> else p')"

lemma reparented_Suc:
  "reparented h i k (Suc n) j =
     (if parent (procs k ! n) = Some i
      then let q = reparented h i k n j; q' = (if j = n then q\<lparr>parent := initproc k\<rparr> else q)
           in if Some j \<noteq> myproc h k \<and> p_state q' = SLEEPING \<and> p_chan q' = proc_chan (initproc k)
              then q'\<lparr>p_state := RUNNABLE\<rparr> else q'
      else reparented h i k n j)"
proof (cases "parent (procs k ! n) = Some i")
  case False
  have "(\<exists>c < Suc n. parent (procs k ! c) = Some i) \<longleftrightarrow> (\<exists>c < n. parent (procs k ! c) = Some i)"
    using False less_Suc_eq by auto
  moreover have "j < Suc n \<and> parent (procs k ! j) = Some i \<longleftrightarrow> j < n \<and> parent (procs k ! j) = Some i"
    using False less_Suc_eq by auto
  ultimately show ?thesis using False unfolding reparented_def by simp
next
  case True
  then have "\<exists>c < Suc n. parent (procs k ! c) = Some i" by auto
  with True show ?thesis
    by (cases "j = n"; cases "\<exists>c < n. parent (procs k ! c) = Some i")
       (simp_all add: reparented_def Let_def less_Suc_eq)
qed

lemma reparent_nth:
  assumes "j < length (procs k)"
  shows "procs (reparent h i k) ! j = reparented h i k (length (procs k)) j"
proof -
  let ?f = "\<lambda>j k. if parent (procs k ! j) = Some i
                 then wakeup h (proc_chan (initproc k))
                        (upd_proc j (\<lambda>p. p\<lparr>parent := initproc k\<rparr>) k)
                 else k"
  let ?k = "\<lambda>n. fold ?f [0..<n] k"
  have frame: "length (procs (?k n)) = length (procs k)" "initproc (?k n) = initproc k"
    "myproc h (?k n) = myproc h k" for n
    by (induction n) (simp_all add: myproc_def)
  have par: "parent (reparented h i k n n) = parent (procs k ! n)" for n
    by (simp add: reparented_def Let_def)
  have my: "myproc h (upd_proc n f (?k m)) = myproc h k" for n f m
    using frame(3) [of m] by (simp add: myproc_def)
  have "j < length (procs k) \<Longrightarrow> procs (?k n) ! j = reparented h i k n j"
    if "n \<le> length (procs k)" for n j
    using that
  proof (induction n arbitrary: j)
    case 0
    then show ?case by (simp add: reparented_def)
  next
    case (Suc n)
    have n: "n < length (procs k)" and IH: "\<And>j. j < length (procs k) \<Longrightarrow> procs (?k n) ! j = reparented h i k n j"
      using Suc by simp_all
    have step: "?k (Suc n) = ?f n (?k n)" by simp
    have pn: "parent (procs (?k n) ! n) = parent (procs k ! n)" using IH [OF n] par by simp
    show ?case
    proof (cases "parent (procs k ! n) = Some i")
      case False
      then show ?thesis unfolding step using pn IH Suc.prems by (simp add: reparented_Suc)
    next
      case True
      then have "?k (Suc n) = wakeup h (proc_chan (initproc k))
          (upd_proc n (\<lambda>p. p\<lparr>parent := initproc k\<rparr>) (?k n))"
        unfolding step using pn frame(2) by simp
      then show ?thesis
        using True n Suc.prems frame IH
        by (simp add: wakeup_nth nth_list_update my reparented_Suc Let_def)
    qed
  qed
  then show ?thesis using assms by (simp add: reparent_def)
qed

text \<open>The table after the part of \<^verbatim>\<open>kexit()\<close> that hands over the children and wakes the parent.\<close>

definition exit_table :: "nat \<Rightarrow> nat \<Rightarrow> ksched \<Rightarrow> proc list" where
  "exit_table h i k =
     (let k1 = reparent h i k
      in procs (wakeup h (proc_chan (parent (procs k1 ! i))) k1))"

lemma wakeup_commute:
  assumes "c_proc (cs ! h) = c_proc (cpus k ! h)"
  shows "wakeup h ch (k\<lparr>wait_lock := lk, cpus := cs\<rparr>) =
    (wakeup h ch k)\<lparr>wait_lock := lk, cpus := cs\<rparr>"
  using assms by (simp add: wakeup_eq myproc_def)

lemma reparent_commute:
  assumes "c_proc (cs ! h) = c_proc (cpus k ! h)"
  shows "reparent h i (k\<lparr>wait_lock := lk, cpus := cs\<rparr>) =
    (reparent h i k)\<lparr>wait_lock := lk, cpus := cs\<rparr>"
proof -
  let ?f = "\<lambda>j k. if parent (procs k ! j) = Some i
                 then wakeup h (proc_chan (initproc k))
                        (upd_proc j (\<lambda>p. p\<lparr>parent := initproc k\<rparr>) k)
                 else k"
  have step: "?f j (k\<lparr>wait_lock := lk, cpus := cs\<rparr>) = (?f j k)\<lparr>wait_lock := lk, cpus := cs\<rparr>"
    "c_proc (cs ! h) = c_proc (cpus (?f j k) ! h)"
    if "c_proc (cs ! h) = c_proc (cpus k ! h)" for j k
    using that by (simp_all add: wakeup_eq upd_proc_def myproc_def)
  have "c_proc (cs ! h) = c_proc (cpus k ! h) \<Longrightarrow>
      fold ?f js (k\<lparr>wait_lock := lk, cpus := cs\<rparr>) = (fold ?f js k)\<lparr>wait_lock := lk, cpus := cs\<rparr>"
    for js k
  proof (induction js arbitrary: k)
    case (Cons j js)
    show ?case
      unfolding fold_simps step(1) [OF Cons.prems]
      by (rule Cons.IH) (rule step(2) [OF Cons.prems])
  qed simp
  with assms show ?thesis by (simp add: reparent_def)
qed

lemma reparent_procs: "reparent h i k = k\<lparr>procs := procs (reparent h i k)\<rparr>"
proof -
  have "fold (\<lambda>j k. if parent (procs k ! j) = Some i
                 then wakeup h (proc_chan (initproc k))
                        (upd_proc j (\<lambda>p. p\<lparr>parent := initproc k\<rparr>) k)
                 else k) js k \<in> range (\<lambda>ps. k\<lparr>procs := ps\<rparr>)" for js
  proof (induction js rule: rev_induct)
    case Nil
    show ?case by (auto intro: range_eqI [where x = "procs k"])
  next
    case (snoc j js)
    then show ?case by (auto simp: wakeup_eq upd_proc_def)
  qed
  then obtain ps where "reparent h i k = k\<lparr>procs := ps\<rparr>" by (auto simp: reparent_def)
  then show ?thesis by simp
qed

lemma exit_table_state:
  "wakeup h (proc_chan (parent (procs (reparent h i k) ! i))) (reparent h i k) =
     k\<lparr>procs := exit_table h i k\<rparr>"
  unfolding exit_table_def Let_def
  by (subst (2) reparent_procs) (simp add: wakeup_eq myproc_def)

lemma length_exit_table [simp]: "length (exit_table h i k) = length (procs k)"
  by (simp add: exit_table_def Let_def)

lemma kexit_sched_eq:
  assumes runs: "runs h i k" and wl: "lock_free (wait_lock k)"
  shows "kexit_sched h status k =
    Inr (k\<lparr>procs := (exit_table h i k)[i := (exit_table h i k ! i)\<lparr>xstate := status,
              p_state := ZOMBIE, k_intena := sie (cpus k ! h)\<rparr>],
           cpus := (cpus k)[h := left_cpu (cpus k ! h)]\<rparr>)"
proof -
  let ?cs = "push_off h (cpus k)"
  let ?wl = "(wait_lock k)\<lparr>locked := True, lk_cpu := Some h\<rparr>"
  have r: "h < length (cpus k)" "i < length (procs k)" "myproc h k = Some i"
    "noff (cpus k ! h) = 0" "lock_free (plock (procs k ! i))" using runs by (auto simp: runs_def)
  have c: "c_proc (?cs ! h) = c_proc (cpus k ! h)" using r(1) by (simp add: push_off_simps)
  have "plock (exit_table h i k ! i) = plock (procs k ! i)"
    using r by (simp add: exit_table_def wakeup_nth reparent_nth reparented_def Let_def)
  then have pl: "lock_free (plock (exit_table h i k ! i))" using r by simp
  have k1: "wakeup h (proc_chan (parent (procs (reparent h i k) ! i)))
       ((reparent h i k)\<lparr>wait_lock := ?wl, cpus := ?cs\<rparr>) =
     k\<lparr>procs := exit_table h i k, wait_lock := ?wl, cpus := ?cs\<rparr>"
    using wakeup_commute [of ?cs h "reparent h i k"] c by (simp add: exit_table_state)
  have "kexit_sched h status k =
     bindR (acquire_p h i (k\<lparr>procs := exit_table h i k, wait_lock := ?wl, cpus := ?cs\<rparr>)) (\<lambda>k3.
       let k4 = upd_proc i (\<lambda>p. p\<lparr>xstate := status, p_state := ZOMBIE\<rparr>) k3
       in bindR (release h (wait_lock k4) (cpus k4)) (\<lambda>(lk', cs').
            switch_out h (k4\<lparr>wait_lock := lk', cpus := cs'\<rparr>)))"
    using r wl c by (simp add: kexit_sched_def acquire_free reparent_commute k1 Let_def)
  also have "\<dots> = Inr (k\<lparr>procs := (exit_table h i k)[i := (exit_table h i k ! i)\<lparr>xstate := status,
              p_state := ZOMBIE, k_intena := sie (cpus k ! h)\<rparr>],
           cpus := (cpus k)[h := left_cpu (cpus k ! h)]\<rparr>)"
    using r pl wl
    by (cases "cpus k ! h"; cases "exit_table h i k ! i")
       (simp add: acquire_p_free push_off_simps Let_def release_held switch_out_eq [where i = i]
          myproc_def left_cpu_def upd_proc_def)
  finally show ?thesis .
qed

end
