(* ===== verification/Sched.thy ===== *)
theory Sched
  imports Proc
begin

text \<open>
  The multi-level feedback queue: the demotion rule of \<^verbatim>\<open>usertrap()\<close> and the clock interrupt
  of \<^verbatim>\<open>kernel/trap.c\<close>, and the process table as a state machine. A step of \<open>sched_step\<close> is
  what one CPU does to the table between two points where it holds no lock other than one it hands
  over at a context switch; the CPUs interleave freely, and the search of \<^verbatim>\<open>scheduler()\<close> and a \<^verbatim>\<open>kkill()\<close>
  take one step for each entry. A \<^verbatim>\<open>wakeup()\<close> may take one step for each entry too; inside \<^verbatim>\<open>kexit()\<close> and
  \<^verbatim>\<open>clockintr()\<close>, where the caller keeps \<^verbatim>\<open>wait_lock\<close> or \<^verbatim>\<open>tickslock\<close> throughout, it is part of the caller's step.
  The invariants hold in every state reachable from the one that \<^verbatim>\<open>procinit()\<close> and \<^verbatim>\<open>userinit()\<close>
  leave.
\<close>

section \<open>Timer interrupts\<close>

text \<open>The demotion rule of \<^verbatim>\<open>usertrap()\<close>: 5 ticks at priority 0, 10 ticks at priority 1.\<close>

definition mlfq_tick :: "proc \<Rightarrow> proc" where
  "mlfq_tick p =
     (let p1 = p\<lparr>ticks_used := ticks_used p + 1\<rparr>
      in if priority p1 = 0 \<and> 5 \<le> sint (ticks_used p1)
         then p1\<lparr>priority := 1, ticks_used := 0\<rparr>
         else if priority p1 = 1 \<and> 10 \<le> sint (ticks_used p1)
         then p1\<lparr>priority := 2, ticks_used := 0\<rparr>
         else p1)"

text \<open>What \<^verbatim>\<open>usertrap()\<close> does for a timer interrupt that arrives in user mode.\<close>

definition user_timer :: "nat \<Rightarrow> ksched \<Rightarrow> ksched res" where
  "user_timer h k =
     (case myproc h k of
        Some i \<Rightarrow>
          yield h (if p_state (procs k ! i) = RUNNING then upd_proc i mlfq_tick k else k)
      | None \<Rightarrow> yield h k)"

text \<open>What \<^verbatim>\<open>kerneltrap()\<close> does for a timer interrupt that arrives in the kernel.\<close>

definition kernel_timer :: "nat \<Rightarrow> ksched \<Rightarrow> ksched res" where
  "kernel_timer h k = (if myproc h k \<noteq> None then yield h k else Inr k)"

text \<open>\<^verbatim>\<open>clockintr()\<close>: CPU 0 counts the tick and wakes the processes that wait for one.\<close>

definition clockintr :: "nat \<Rightarrow> ksched \<Rightarrow> ksched res" where
  "clockintr h k =
     (if h = 0 then
        bindR (acquire h (tickslock k) (cpus k)) (\<lambda>(lk, cs).
          let k1 = wakeup h TicksChan (k\<lparr>tickslock := lk, cpus := cs, ticks := ticks k + 1\<rparr>)
          in bindR (release h (tickslock k1) (cpus k1))
               (\<lambda>(lk', cs'). Inr (k1\<lparr>tickslock := lk', cpus := cs'\<rparr>)))
      else Inr k)"

section \<open>The table as a state machine\<close>

text \<open>
  The table after \<^verbatim>\<open>procinit()\<close> and \<^verbatim>\<open>userinit()\<close>, from the zeroed memory the kernel is loaded
  with; \<open>fa\<close> is the address of \<^verbatim>\<open>forkret\<close>.
\<close>

definition boot_cpu :: cpu where
  "boot_cpu = \<lparr>c_proc = None, noff = 0, intena = False, sie = False\<rparr>"

definition loaded :: ksched where
  "loaded = \<lparr>procs = replicate NPROC zero_proc, cpus = replicate NCPU boot_cpu,
     initproc = None, nextpid = 1, pid_lock = initlock '''', wait_lock = initlock '''',
     tickslock = initlock '''', ticks = 0\<rparr>"

definition boot_sched :: "u64 \<Rightarrow> ksched" where
  "boot_sched fa =
     (let k0 = (procinit loaded)\<lparr>tickslock := initlock ''time''\<rparr>
      in case alloc_slot k0 of
           None \<Rightarrow> k0
         | Some (i, k1) \<Rightarrow> fork_runnable i ((alloc_context fa i k1)\<lparr>initproc := Some i\<rparr>))"

inductive sched_step :: "ksched \<Rightarrow> ksched \<Rightarrow> bool" where
  st_scan: "h < NCPU \<Longrightarrow> myproc h k = None \<Longrightarrow> \<not> sie (cpus k ! h) \<Longrightarrow> i < NPROC \<Longrightarrow>
     scan_entry h pr i k = Inr (found, k') \<Longrightarrow> sched_step k k'"
| st_user_timer: "h < NCPU \<Longrightarrow> myproc h k = Some i \<Longrightarrow> user_timer h k = Inr k' \<Longrightarrow> sched_step k k'"
| st_kernel_timer: "h < NCPU \<Longrightarrow> kernel_timer h k = Inr k' \<Longrightarrow> sched_step k k'"
| st_clock: "h < NCPU \<Longrightarrow> clockintr h k = Inr k' \<Longrightarrow> sched_step k k'"
| st_intr: "h < NCPU \<Longrightarrow> sched_step k (upd_cpu h (\<lambda>c. c\<lparr>sie := b\<rparr>) k)"
| st_sleep: "h < NCPU \<Longrightarrow> myproc h k = Some i \<Longrightarrow> (\<And>p. ch \<noteq> ProcChan p) \<Longrightarrow> lock_free lk \<Longrightarrow>
     acquire h lk (cpus k) = Inr (lk1, cs) \<Longrightarrow> sleep h ch lk1 (k\<lparr>cpus := cs\<rparr>) = Inr (lk2, k') \<Longrightarrow>
     sched_step k k'"
| st_kwait_sleep: "h < NCPU \<Longrightarrow> myproc h k = Some i \<Longrightarrow> zombie_child i (procs k) = None \<Longrightarrow>
     havekids i (procs k) \<Longrightarrow> killed i k = 0 \<Longrightarrow>
     acquire h (wait_lock k) (cpus k) = Inr (lk1, cs) \<Longrightarrow>
     sleep h (ProcChan i) lk1 (k\<lparr>cpus := cs\<rparr>) = Inr (lk2, k') \<Longrightarrow> sched_step k k'"
| st_kwait_reap: "h < NCPU \<Longrightarrow> myproc h k = Some i \<Longrightarrow> zombie_child i (procs k) = Some c \<Longrightarrow>
     sched_step k (free_slot c k)"
| st_wakeup: "h < NCPU \<Longrightarrow> sched_step k (wakeup h ch k)"
| st_wakeup_entry: "h < NCPU \<Longrightarrow> i < NPROC \<Longrightarrow> sched_step k (wakeup_entry h ch i k)"
| st_kkill: "i < NPROC \<Longrightarrow> sched_step k (snd (kkill_entry pid i k))"
| st_setkilled: "i < NPROC \<Longrightarrow> sched_step k (setkilled i k)"
| st_kexit: "h < NCPU \<Longrightarrow> myproc h k = Some i \<Longrightarrow> initproc k \<noteq> Some i \<Longrightarrow>
     kexit_sched h status k = Inr k' \<Longrightarrow> sched_step k k'"
| st_allocproc: "h < NCPU \<Longrightarrow> myproc h k = Some p \<Longrightarrow> alloc_slot k = Some (i, k1) \<Longrightarrow>
     sched_step k (alloc_context fa i k1)"
| st_fork_parent: "h < NCPU \<Longrightarrow> myproc h k = Some p \<Longrightarrow> i < NPROC \<Longrightarrow>
     p_state (procs k ! i) = USED \<Longrightarrow> sched_step k (fork_parent i p k)"
| st_fork_runnable: "i < NPROC \<Longrightarrow> p_state (procs k ! i) = USED \<Longrightarrow>
     parent (procs k ! i) \<noteq> None \<Longrightarrow>
     sched_step k (fork_runnable i k)"
| st_fork_fail: "i < NPROC \<Longrightarrow> p_state (procs k ! i) = USED \<Longrightarrow> sched_step k (free_slot i k)"

inductive sched_reachable :: "ksched \<Rightarrow> bool" where
  sr_boot: "sched_reachable (boot_sched fa)"
| sr_step: "sched_reachable k \<Longrightarrow> sched_step k k' \<Longrightarrow> sched_reachable k'"

section \<open>The invariants\<close>

subsection \<open>Locks and the CPU a process runs on\<close>

definition quiet :: "ksched \<Rightarrow> bool" where
  "quiet k \<longleftrightarrow>
     length (procs k) = NPROC \<and> length (cpus k) = NCPU \<and>
     (\<forall>i < NPROC. lock_free (plock (procs k ! i))) \<and>
     lock_free (wait_lock k) \<and> lock_free (tickslock k) \<and>
     (\<forall>h < NCPU. noff (cpus k ! h) = 0)"

definition running :: "ksched \<Rightarrow> nat \<Rightarrow> bool" where
  "running k i \<longleftrightarrow> i < NPROC \<and> p_state (procs k ! i) = RUNNING"

definition on_cpu :: "ksched \<Rightarrow> nat \<Rightarrow> nat option" where
  "on_cpu k h = (if h < NCPU then c_proc (cpus k ! h) else None)"

text \<open>The running processes are exactly those on a CPU, and each is on one CPU.\<close>

definition run_ok :: "(nat \<Rightarrow> bool) \<Rightarrow> (nat \<Rightarrow> nat option) \<Rightarrow> bool" where
  "run_ok R C \<longleftrightarrow> (\<forall>i. R i \<longleftrightarrow> (\<exists>h. C h = Some i)) \<and>
     (\<forall>h h' i. C h = Some i \<longrightarrow> C h' = Some i \<longrightarrow> h = h')"

lemma run_ok_enter:
  assumes "run_ok R C" "C h = None" "\<not> R i"
  shows "run_ok (R(i := True)) (C(h := Some i))"
proof -
  have R: "\<And>j. R j \<longleftrightarrow> (\<exists>h. C h = Some j)" using assms(1) unfolding run_ok_def by blast
  have one: "\<And>a b j. C a = Some j \<Longrightarrow> C b = Some j \<Longrightarrow> a = b"
    using assms(1) unfolding run_ok_def by blast
  have no: "\<And>a. C a \<noteq> Some i" using R assms(3) by blast
  show ?thesis
    unfolding run_ok_def
  proof (intro conjI allI impI)
    fix j
    show "(R(i := True)) j \<longleftrightarrow> (\<exists>a. (C(h := Some i)) a = Some j)"
    proof
      assume r: "(R(i := True)) j"
      show "\<exists>a. (C(h := Some i)) a = Some j"
      proof (cases "j = i")
        case True
        then show ?thesis by (intro exI [of _ h]) simp
      next
        case False
        with r obtain a where a: "C a = Some j" using R by auto
        then have "a \<noteq> h" using assms(2) by auto
        with a show ?thesis by (intro exI [of _ a]) simp
      qed
    next
      assume "\<exists>a. (C(h := Some i)) a = Some j"
      then obtain a where "(C(h := Some i)) a = Some j" ..
      then show "(R(i := True)) j" using R by (cases "a = h") auto
    qed
  next
    fix a b j
    assume "(C(h := Some i)) a = Some j" "(C(h := Some i)) b = Some j"
    then show "a = b"
      using no [of a] no [of b] one [of a j b] by (cases "a = h"; cases "b = h") simp_all
  qed
qed

lemma run_ok_leave:
  assumes "run_ok R C" "C h = Some i"
  shows "run_ok (R(i := False)) (C(h := None))"
proof -
  have R: "\<And>j. R j \<longleftrightarrow> (\<exists>h. C h = Some j)" using assms(1) unfolding run_ok_def by blast
  have one: "\<And>a b j. C a = Some j \<Longrightarrow> C b = Some j \<Longrightarrow> a = b"
    using assms(1) unfolding run_ok_def by blast
  show ?thesis
    unfolding run_ok_def
  proof (intro conjI allI impI)
    fix j
    show "(R(i := False)) j \<longleftrightarrow> (\<exists>a. (C(h := None)) a = Some j)"
    proof
      assume r: "(R(i := False)) j"
      then have ji: "j \<noteq> i" by auto
      with r obtain a where a: "C a = Some j" using R by auto
      then have "a \<noteq> h" using assms(2) ji by auto
      with a show "\<exists>a. (C(h := None)) a = Some j" by (intro exI [of _ a]) simp
    next
      assume "\<exists>a. (C(h := None)) a = Some j"
      then obtain a where a: "(C(h := None)) a = Some j" ..
      then have "a \<noteq> h" "C a = Some j" by (auto split: if_splits)
      then show "(R(i := False)) j" using R one [of a i h] assms(2) by auto
    qed
  next
    fix a b j
    assume "(C(h := None)) a = Some j" "(C(h := None)) b = Some j"
    then show "a = b"
      using one [of a j b] by (cases "a = h"; cases "b = h") simp_all
  qed
qed

lemma quietD:
  assumes "quiet k"
  shows "length (procs k) = NPROC" "length (cpus k) = NCPU" "lock_free (wait_lock k)"
    "lock_free (tickslock k)" "i < NPROC \<Longrightarrow> lock_free (plock (procs k ! i))"
    "h < NCPU \<Longrightarrow> noff (cpus k ! h) = 0"
  using assms by (auto simp: quiet_def)

lemma running_on_cpu:
  assumes "run_ok (running k) (on_cpu k)" "h < NCPU" "myproc h k = Some i"
  shows "i < NPROC" "p_state (procs k ! i) = RUNNING"
proof -
  have "on_cpu k h = Some i" using assms by (simp add: on_cpu_def myproc_def)
  then have "running k i" using assms(1) unfolding run_ok_def by blast
  then show "i < NPROC" "p_state (procs k ! i) = RUNNING" by (simp_all add: running_def)
qed

lemma runsI:
  assumes "quiet k" "run_ok (running k) (on_cpu k)" "h < NCPU" "myproc h k = Some i"
  shows "runs h i k"
  using running_on_cpu [OF assms(2-4)] assms by (simp add: runs_def quietD)

lemma plock_mlfq_tick [simp]: "plock (mlfq_tick p) = plock p" "p_state (mlfq_tick p) = p_state p"
  "parent (mlfq_tick p) = parent p" "p_chan (mlfq_tick p) = p_chan p" "p_pid (mlfq_tick p) = p_pid p"
  by (simp_all add: mlfq_tick_def Let_def)

lemma user_timer_eq:
  assumes "runs h i k" "p_state (procs k ! i) = RUNNING"
  shows "user_timer h k =
    Inr (k\<lparr>procs := (procs k)[i := (mlfq_tick (procs k ! i))\<lparr>p_state := RUNNABLE,
             k_point := InYield, k_intena := sie (cpus k ! h)\<rparr>],
           cpus := (cpus k)[h := left_cpu (cpus k ! h)]\<rparr>)"
proof -
  have "runs h i (upd_proc i mlfq_tick k)" using assms by (simp add: runs_def myproc_def)
  from yield_eq [OF this] show ?thesis
    using assms by (simp add: user_timer_def runs_def upd_proc_def)
qed

lemma kernel_timer_eq:
  assumes "runs h i k"
  shows "kernel_timer h k = yield h k"
  using assms by (simp add: kernel_timer_def runs_def)

lemma clockintr_eq:
  assumes "h < length (cpus k)" "noff (cpus k ! h) = 0" "lock_free (tickslock k)"
  shows "clockintr h k =
    Inr (if h = 0 then (wakeup h TicksChan k)\<lparr>ticks := ticks k + 1,
           cpus := (cpus k)[h := (cpus k ! h)\<lparr>intena := sie (cpus k ! h)\<rparr>]\<rparr>
         else k)"
  using assms
  by (cases "cpus k ! h")
     (auto simp: clockintr_def acquire_free Let_def wakeup_eq myproc_def push_off_simps release_held)

lemma alloc_slotD:
  assumes "alloc_slot k = Some (i, k1)"
  shows "i < length (procs k)" "p_state (procs k ! i) = UNUSED"
    "k1 = k\<lparr>nextpid := nextpid k + 1, procs := (procs k)[i := (procs k ! i)\<lparr>p_pid := nextpid k,
            p_state := USED, priority := 0, ticks_used := 0\<rparr>]\<rparr>"
  using assms
  by (auto simp: alloc_slot_def allocpid_def first_idx_Some Let_def upd_proc_def split: option.splits)

lemma alloc_slot_None:
  "alloc_slot k = None \<longleftrightarrow> (\<forall>i < length (procs k). p_state (procs k ! i) \<noteq> UNUSED)"
proof -
  have "alloc_slot k = None \<longleftrightarrow> first_idx (\<lambda>p. p_state p = UNUSED) (procs k) = None"
    by (simp add: alloc_slot_def allocpid_def Let_def split: option.splits)
  then show ?thesis by (simp add: first_idx_None)
qed

definition base_inv :: "ksched \<Rightarrow> bool" where
  "base_inv k \<longleftrightarrow> quiet k \<and> run_ok (running k) (on_cpu k)"

definition same_cpus :: "cpu list \<Rightarrow> cpu list \<Rightarrow> bool" where
  "same_cpus cs cs' \<longleftrightarrow> length cs' = length cs \<and>
     (\<forall>h < length cs. c_proc (cs' ! h) = c_proc (cs ! h) \<and> noff (cs' ! h) = noff (cs ! h))"

text \<open>What a step can do, in closed form.\<close>

lemma sched_step_forms:
  assumes step: "sched_step k k'" and base: "base_inv k"
  obtains
    (flags) cs where "k' = k\<lparr>cpus := cs\<rparr>" "same_cpus (cpus k) cs"
  | (wake) h ch cs t where "h < NCPU" "k' = (wakeup h ch k)\<lparr>ticks := t, cpus := cs\<rparr>"
      "same_cpus (cpus k) cs"
  | (wakes) i where "i < NPROC" "p_state (procs k ! i) = SLEEPING" "k' = upd_proc i (\<lambda>p. p\<lparr>p_state := RUNNABLE\<rparr>) k"
  | (enter) h i c where "h < NCPU" "myproc h k = None" "i < NPROC"
      "p_state (procs k ! i) = RUNNABLE" "c_proc c = Some i" "noff c = 0"
      "k' = k\<lparr>procs := (procs k)[i := resumed (procs k ! i)], cpus := (cpus k)[h := c]\<rparr>"
  | (preempt) h i f b where "runs h i k" "h < NCPU" "f = mlfq_tick \<or> f = id"
      "k' = k\<lparr>procs := (procs k)[i := (f (procs k ! i))\<lparr>p_state := RUNNABLE, k_point := InYield,
                k_intena := b\<rparr>], cpus := (cpus k)[h := left_cpu (cpus k ! h)]\<rparr>"
  | (sleeps) h i ch b where "runs h i k" "h < NCPU"
      "(\<forall>p. ch \<noteq> ProcChan p) \<or> ch = ProcChan i \<and> zombie_child i (procs k) = None"
      "k' = k\<lparr>procs := (procs k)[i := (procs k ! i)\<lparr>p_chan := ch, p_state := SLEEPING,
                k_point := InSleep, k_intena := b\<rparr>],
              cpus := (cpus k)[h := left_cpu (cpus k ! h)]\<rparr>"
  | (frees) c where "c < NPROC" "p_state (procs k ! c) = ZOMBIE \<or> p_state (procs k ! c) = USED"
      "k' = free_slot c k"
  | (kills) i where "i < NPROC" "k' = upd_proc i (\<lambda>p. p\<lparr>p_killed := 1,
        p_state := (if p_state p = SLEEPING then RUNNABLE else p_state p)\<rparr>) k"
  | (marks) i where "i < NPROC" "k' = setkilled i k"
  | (exits) h i st b where "runs h i k" "h < NCPU" "initproc k \<noteq> Some i"
      "k' = k\<lparr>procs := (exit_table h i k)[i := (exit_table h i k ! i)\<lparr>xstate := st,
                p_state := ZOMBIE, k_intena := b\<rparr>],
              cpus := (cpus k)[h := left_cpu (cpus k ! h)]\<rparr>"
  | (allocs) i ctx where "i < NPROC" "p_state (procs k ! i) = UNUSED"
      "k' = k\<lparr>nextpid := nextpid k + 1, procs := (procs k)[i := (procs k ! i)\<lparr>p_pid := nextpid k,
            p_state := USED, priority := 0, ticks_used := 0, p_context := ctx,
            k_point := AtForkret\<rparr>]\<rparr>"
  | (parents) h p i where "runs h p k" "h < NCPU" "i < NPROC" "p_state (procs k ! i) = USED"
      "k' = fork_parent i p k"
  | (readies) i where "i < NPROC" "p_state (procs k ! i) = USED" "parent (procs k ! i) \<noteq> None"
      "k' = fork_runnable i k"
proof -
  have q: "quiet k" and r: "run_ok (running k) (on_cpu k)" using base by (auto simp: base_inv_def)
  note qs = quietD [OF q]
  have rI: "runs h i k" if "h < NCPU" "myproc h k = Some i" for h i
    by (rule runsI [OF q r that])
  from step show thesis
  proof cases
    case (st_scan h i pr found)
    have sc: "scans h k" "i < length (procs k)" "lock_free (plock (procs k ! i))"
      using st_scan qs by (simp_all add: scans_def)
    show thesis
    proof (cases "p_state (procs k ! i) = RUNNABLE \<and> priority (procs k ! i) = pr")
      case False
      then show thesis using scan_entry_pass [OF sc False] st_scan qs
        by (intro flags [of "cpus (passed h k)"]) (auto simp: passed_def same_cpus_def nth_list_update)
    next
      case True
      show thesis
        by (rule enter [of h i "\<lparr>c_proc = Some i, noff = 0, intena = resumed_sie (procs k ! i),
              sie = resumed_sie (procs k ! i)\<rparr>"])
           (use st_scan True scan_entry_hit [OF sc] in \<open>auto simp: entered_def\<close>)
    qed
  next
    case (st_user_timer h i)
    have rn: "p_state (procs k ! i) = RUNNING" using running_on_cpu [OF r] st_user_timer by simp
    show thesis
      using st_user_timer user_timer_eq [OF rI rn]
      by (intro preempt [where h = h and i = i and f = mlfq_tick and b = "sie (cpus k ! h)"]) (auto intro: rI)
  next
    case (st_kernel_timer h)
    show thesis
    proof (cases "myproc h k")
      case None
      then show thesis using st_kernel_timer
        by (intro flags [of "cpus k"]) (simp_all add: kernel_timer_def same_cpus_def)
    next
      case (Some i)
      then show thesis
        using st_kernel_timer yield_eq [OF rI, of h i] kernel_timer_eq [OF rI, of h i]
        by (intro preempt [where h = h and i = i and f = id and b = "sie (cpus k ! h)"]) (auto intro: rI)
    qed
  next
    case (st_clock h)
    show thesis
    proof (cases "h = 0")
      case True
      with st_clock qs show thesis
        by (intro wake [where h = h and ch = TicksChan and cs = "(cpus k)[h := (cpus k ! h)\<lparr>intena := sie (cpus k ! h)\<rparr>]" and t = "ticks k + 1"])
           (auto simp: clockintr_eq same_cpus_def nth_list_update)
    next
      case False
      with st_clock qs show thesis
        by (intro flags [of "cpus k"]) (simp_all add: clockintr_eq same_cpus_def)
    qed
  next
    case (st_intr h b)
    with qs show thesis
      by (intro flags [of "(cpus k)[h := (cpus k ! h)\<lparr>sie := b\<rparr>]"])
         (auto simp: upd_cpu_def same_cpus_def nth_list_update)
  next
    case (st_sleep h i ch lk lk1 cs lk2)
    then show thesis
      using sleep_eq [OF rI [OF st_sleep(1,2)] st_sleep(4) refl, of ch]
      by (intro sleeps [where h = h and i = i and ch = ch and b = "sie (cpus k ! h)"]) (auto simp: acquire_free intro: rI)
  next
    case (st_kwait_sleep h i lk1 cs lk2)
    then show thesis
      using sleep_eq [OF rI [OF st_kwait_sleep(1,2)] qs(3) refl, of "ProcChan i"] qs(3)
      by (intro sleeps [where h = h and i = i and ch = "ProcChan i" and b = "sie (cpus k ! h)"]) (auto simp: acquire_free intro: rI)
  next
    case (st_kwait_reap h i c)
    then show thesis using qs by (intro frees [of c]) (auto simp: zombie_child_def first_idx_Some)
  next
    case (st_wakeup h ch)
    then show thesis by (intro wake [where h = h and ch = ch and cs = "cpus k" and t = "ticks k"])
        (simp_all add: same_cpus_def wakeup_eq)
  next
    case (st_wakeup_entry h i ch)
    show thesis
    proof (cases "Some i \<noteq> myproc h k \<and> p_state (procs k ! i) = SLEEPING \<and> p_chan (procs k ! i) = ch")
      case True
      then show thesis using st_wakeup_entry by (intro wakes [of i]) (simp_all add: wakeup_entry_def)
    next
      case False
      then have "k' = k" using st_wakeup_entry by (auto simp: wakeup_entry_def)
      then show thesis by (intro flags [of "cpus k"]) (simp_all add: same_cpus_def)
    qed
  next
    case (st_kkill i pid)
    show thesis
    proof (cases "p_pid (procs k ! i) = pid")
      case True
      then show thesis using st_kkill by (intro kills [of i]) (simp_all add: kkill_entry_def)
    next
      case False
      then show thesis using st_kkill by (intro flags [of "cpus k"]) (simp_all add: kkill_entry_def same_cpus_def)
    qed
  next
    case (st_setkilled i)
    then show thesis by (rule marks [rotated])
  next
    case (st_kexit h i st)
    then show thesis
      using kexit_sched_eq [OF rI [OF st_kexit(1,2)] qs(3), of st]
      by (intro exits [where h = h and i = i and st = st and b = "sie (cpus k ! h)"]) (auto intro: rI)
  next
    case (st_allocproc h p i k1 fa)
    note a = alloc_slotD [OF st_allocproc(4)]
    show thesis
      by (rule allocs [of i]) (use a qs in \<open>simp_all add: st_allocproc(1) alloc_context_def upd_proc_def\<close>)
  next
    case (st_fork_parent h p i)
    then show thesis using rI by (intro parents [of h p i]) auto
  next
    case (st_fork_runnable i)
    then show thesis by (intro readies [of i]) auto
  next
    case (st_fork_fail i)
    then show thesis by (intro frees [of i]) auto
  qed
qed
lemma same_cpus_quiet:
  "quiet k \<Longrightarrow> same_cpus (cpus k) cs \<Longrightarrow> quiet (k\<lparr>cpus := cs\<rparr>)"
  by (auto simp: quiet_def same_cpus_def)

lemma same_cpus_on_cpu:
  "quiet k \<Longrightarrow> same_cpus (cpus k) cs \<Longrightarrow> c_proc (cs ! h) = c_proc (cpus k ! h) \<or> \<not> h < NCPU"
  by (auto simp: quiet_def same_cpus_def)

lemma running_upd:
  "length (procs k) = NPROC \<Longrightarrow> procs k' = (procs k)[i := q] \<Longrightarrow> i < NPROC \<Longrightarrow>
     running k' = (running k)(i := p_state q = RUNNING)"
  by (auto simp: running_def nth_list_update fun_eq_iff)

lemma on_cpu_upd:
  "length (cpus k) = NCPU \<Longrightarrow> cpus k' = (cpus k)[h := c] \<Longrightarrow> h < NCPU \<Longrightarrow>
     on_cpu k' = (on_cpu k)(h := c_proc c)"
  by (auto simp: on_cpu_def nth_list_update fun_eq_iff)

lemma upd_same_bool: "R i = b \<Longrightarrow> R(i := b) = R"
  by auto

text \<open>An update of one slot that keeps its lock, and of one CPU that keeps it balanced.\<close>

lemma quiet_upd:
  assumes "quiet k" "procs k' = (procs k)[i := q]" "i < NPROC" "plock q = plock (procs k ! i)"
    "cpus k' = (cpus k)[h := c]" "h < NCPU" "noff c = 0"
    "wait_lock k' = wait_lock k" "tickslock k' = tickslock k"
  shows "quiet k'"
  using assms by (auto simp: quiet_def nth_list_update)

lemma exit_table_nth:
  assumes "j < length (procs k)"
  shows "exit_table h i k ! j =
    (let q = reparented h i k (length (procs k)) j;
         par = parent (procs (reparent h i k) ! i)
     in if Some j \<noteq> myproc h k \<and> p_state q = SLEEPING \<and> p_chan q = proc_chan par
        then q\<lparr>p_state := RUNNABLE\<rparr> else q)"
  using assms
  by (simp add: exit_table_def Let_def wakeup_nth reparent_nth myproc_def)

lemma reparented_frame [simp]:
  "plock (reparented h i k n j) = plock (procs k ! j)"
  "priority (reparented h i k n j) = priority (procs k ! j)"
  "ticks_used (reparented h i k n j) = ticks_used (procs k ! j)"
  "p_chan (reparented h i k n j) = p_chan (procs k ! j)"
  "p_pid (reparented h i k n j) = p_pid (procs k ! j)"
  by (simp_all add: reparented_def Let_def)

lemma exit_table_frame:
  assumes "j < length (procs k)"
  shows "plock (exit_table h i k ! j) = plock (procs k ! j)"
    "priority (exit_table h i k ! j) = priority (procs k ! j)"
    "ticks_used (exit_table h i k ! j) = ticks_used (procs k ! j)"
    "p_chan (exit_table h i k ! j) = p_chan (procs k ! j)"
    "p_pid (exit_table h i k ! j) = p_pid (procs k ! j)"
    "p_state (exit_table h i k ! j) = p_state (procs k ! j) \<or>
     p_state (procs k ! j) = SLEEPING \<and> p_state (exit_table h i k ! j) = RUNNABLE"
  using assms by (simp_all add: exit_table_nth Let_def) (auto simp: reparented_def Let_def)

lemma running_exit_table:
  "length (procs k) = NPROC \<Longrightarrow> running (k\<lparr>procs := exit_table h i k\<rparr>) = running k"
  using exit_table_frame(6) [of _ k h i] by (fastforce simp: running_def fun_eq_iff)

lemma running_wakeup: "length (procs k) = NPROC \<Longrightarrow> running (wakeup h ch k) = running k"
  by (auto simp: running_def fun_eq_iff wakeup_nth split: if_splits)
lemma running_eqI: "(\<And>i. i < NPROC \<Longrightarrow> (p_state (procs k' ! i) = RUNNING) = (p_state (procs k ! i) = RUNNING))
   \<Longrightarrow> running k' = running k"
  by (auto simp: running_def fun_eq_iff)

lemma on_cpu_eqI: "cpus k' = cpus k \<Longrightarrow> on_cpu k' = on_cpu k"
  by (simp add: on_cpu_def fun_eq_iff)

text \<open>A step that changes one slot, and no CPU, outside the running state.\<close>

lemma base_inv_slot:
  assumes base: "base_inv k" and i: "i < NPROC"
    and k': "procs k' = (procs k)[i := procs k' ! i]" "cpus k' = cpus k" "wait_lock k' = wait_lock k"
      "tickslock k' = tickslock k"
    and q: "plock (procs k' ! i) = plock (procs k ! i)"
      "(p_state (procs k' ! i) = RUNNING) = (p_state (procs k ! i) = RUNNING)"
  shows "base_inv k'"
proof -
  have qu: "quiet k" and r: "run_ok (running k) (on_cpu k)" using base by (auto simp: base_inv_def)
  have "running k' = running k"
    using running_upd [OF quietD(1) [OF qu] k'(1) i] i q(2) by (simp add: running_def fun_eq_iff)
  moreover have "quiet k'"
    using quiet_upd [OF qu k'(1) i q(1), where h = 0 and c = "cpus k ! 0"] k' quietD(6) [OF qu, of 0]
    by simp
  ultimately show ?thesis using r on_cpu_eqI [OF k'(2)] by (simp add: base_inv_def)
qed

text \<open>A step by which a running process gives up its CPU.\<close>

lemma base_inv_leave:
  assumes base: "base_inv k" and r: "runs h i k" "h < NCPU" and kk: "running kk = running k"
      "length (procs kk) = NPROC" "\<And>j. j < NPROC \<Longrightarrow> plock (procs kk ! j) = plock (procs k ! j)"
    and k': "procs k' = (procs kk)[i := procs k' ! i]" "cpus k' = (cpus k)[h := left_cpu (cpus k ! h)]"
      "wait_lock k' = wait_lock k" "tickslock k' = tickslock k"
    and q: "plock (procs k' ! i) = plock (procs k ! i)" "p_state (procs k' ! i) \<noteq> RUNNING"
  shows "base_inv k'"
proof -
  have qu: "quiet k" and ok: "run_ok (running k) (on_cpu k)" using base by (auto simp: base_inv_def)
  have i: "i < NPROC" "myproc h k = Some i" using r qu by (auto simp: runs_def quietD)
  have "running k' = (running k)(i := False)"
    using running_upd [OF kk(2) k'(1) i(1)] q(2) kk(1) by simp
  moreover have "on_cpu k' = (on_cpu k)(h := None)"
    using on_cpu_upd [OF quietD(2) [OF qu] k'(2) r(2)] by (simp add: left_cpu_def)
  moreover have "on_cpu k h = Some i" using i r(2) by (simp add: on_cpu_def myproc_def)
  moreover have "quiet k'"
  proof -
    have "quiet (k\<lparr>procs := procs kk\<rparr>)" using qu kk by (auto simp: quiet_def)
    then show ?thesis
      by (rule quiet_upd [where i = i and q = "procs k' ! i" and h = h and c = "left_cpu (cpus k ! h)"])
         (use k' q i kk r(2) in \<open>simp_all add: left_cpu_def\<close>)
  qed
  ultimately show ?thesis using run_ok_leave [OF ok] by (simp add: base_inv_def)
qed

lemma base_inv_step:
  assumes "sched_step k k'" and base: "base_inv k"
  shows "base_inv k'"
proof -
  have qu: "quiet k" and ok: "run_ok (running k) (on_cpu k)" using base by (auto simp: base_inv_def)
  note qs = quietD [OF qu]
  from assms show ?thesis
  proof (cases rule: sched_step_forms)
    case (flags cs)
    then have "on_cpu k' = on_cpu k" "running k' = running k"
      using same_cpus_on_cpu [OF qu, of cs] by (auto simp: on_cpu_def fun_eq_iff running_def)
    then show ?thesis using flags ok same_cpus_quiet [OF qu] by (simp add: base_inv_def)
  next
    case (wake h ch cs t)
    then have "on_cpu k' = on_cpu k" "running k' = running (wakeup h ch k)"
      using same_cpus_on_cpu [OF qu, of cs] by (auto simp: on_cpu_def fun_eq_iff running_def)
    moreover have "quiet k'"
      using same_cpus_quiet [OF qu wake(3)] wake(2) by (auto simp: quiet_def wakeup_nth)
    ultimately show ?thesis using ok by (simp add: base_inv_def running_wakeup [OF qs(1)])
  next
    case (wakes i)
    show ?thesis by (rule base_inv_slot [OF base wakes(1)]) (use wakes qs in auto)
  next
    case (enter h i c)
    have "running k' = (running k)(i := True)"
      using running_upd [OF qs(1) _ enter(3), of k'] enter by (simp add: resumed_def)
    moreover have "on_cpu k' = (on_cpu k)(h := Some i)"
      using on_cpu_upd [OF qs(2) _ enter(1), of k' c] enter by simp
    moreover have "on_cpu k h = None" "\<not> running k i"
      using enter by (simp_all add: on_cpu_def myproc_def running_def)
    moreover have "quiet k'"
      by (rule quiet_upd [OF qu, where i = i and h = h and c = c
            and q = "resumed (procs k ! i)"]) (use enter in \<open>auto simp: resumed_def\<close>)
    ultimately show ?thesis using run_ok_enter [OF ok] by (simp add: base_inv_def)
  next
    case (preempt h i f b)
    show ?thesis
      by (rule base_inv_leave [OF base preempt(1,2), where kk = k])
         (use preempt qs in \<open>auto simp: runs_def\<close>)
  next
    case (sleeps h i ch b)
    show ?thesis
      by (rule base_inv_leave [OF base sleeps(1,2), where kk = k]) (use sleeps qs in \<open>auto simp: runs_def\<close>)
  next
    case (frees c)
    show ?thesis
      by (rule base_inv_slot [OF base frees(1)]) (use frees qs in \<open>auto simp: free_slot_def\<close>)
  next
    case (kills i)
    show ?thesis by (rule base_inv_slot [OF base kills(1)]) (use kills qs in auto)
  next
    case (marks i)
    show ?thesis
      by (rule base_inv_slot [OF base marks(1)]) (use marks qs in \<open>auto simp: setkilled_def\<close>)
  next
    case (exits h i st b)
    have "i < length (procs k)" using exits(1) by (simp add: runs_def)
    then show ?thesis
      by (intro base_inv_leave [OF base exits(1,2), where kk = "k\<lparr>procs := exit_table h i k\<rparr>"])
         (use exits qs in \<open>auto simp: running_exit_table exit_table_frame(1) runs_def\<close>)
  next
    case (allocs i ctx)
    show ?thesis by (rule base_inv_slot [OF base allocs(1)]) (use allocs qs in auto)
  next
    case (parents h p i)
    show ?thesis
      by (rule base_inv_slot [OF base parents(3)]) (use parents qs in \<open>auto simp: fork_parent_def\<close>)
  next
    case (readies i)
    show ?thesis
      by (rule base_inv_slot [OF base readies(1)]) (use readies qs in \<open>auto simp: fork_runnable_def\<close>)
  qed
qed
text \<open>The boot state.\<close>

definition boot_slot :: "nat \<Rightarrow> proc" where
  "boot_slot i = zero_proc\<lparr>plock := initlock ''proc'', kstack := KSTACK i\<rparr>"

lemma boot_sched_eq:
  "boot_sched fa =
     \<lparr>procs = (map boot_slot [0..<NPROC])[0 := (boot_slot 0)\<lparr>p_pid := 1, p_state := RUNNABLE,
        p_context := zero_context\<lparr>ctx_ra := fa, ctx_sp := KSTACK 0 + PGSIZE\<rparr>\<rparr>],
      cpus = replicate NCPU boot_cpu, initproc = Some 0, nextpid = 2,
      pid_lock = initlock ''nextpid'', wait_lock = initlock ''wait_lock'',
      tickslock = initlock ''time'', ticks = 0\<rparr>"
proof -
  let ?k0 = "(procinit loaded)\<lparr>tickslock := initlock ''time''\<rparr>"
  have slots: "procs ?k0 = map boot_slot [0..<NPROC]"
    by (rule nth_equalityI)
       (simp_all add: procinit_def loaded_def boot_slot_def zero_proc_def del: upt_conv_Cons upt.simps)
  let ?k1 = "\<lparr>procs = map boot_slot [0..<NPROC], cpus = replicate NCPU boot_cpu, initproc = None,
      nextpid = 1, pid_lock = initlock ''nextpid'', wait_lock = initlock ''wait_lock'',
      tickslock = initlock ''time'', ticks = 0\<rparr>"
  have k0: "?k0 = ?k1"
    using slots by (simp add: procinit_def loaded_def del: upt_conv_Cons upt.simps)
  have "first_idx (\<lambda>p. p_state p = UNUSED) (procs ?k1) = Some 0"
    by (simp add: first_idx_Some boot_slot_def zero_proc_def del: upt_conv_Cons upt.simps)
  then show ?thesis
    unfolding boot_sched_def Let_def k0
    by (simp add: alloc_slot_def allocpid_def fork_runnable_def alloc_context_def upd_proc_def
        boot_slot_def zero_proc_def del: upt_conv_Cons upt.simps)
qed

lemma boot_sched_nth:
  assumes "i < NPROC"
  shows "procs (boot_sched fa) ! i = (if i = 0 then (boot_slot 0)\<lparr>p_pid := 1, p_state := RUNNABLE,
        p_context := zero_context\<lparr>ctx_ra := fa, ctx_sp := KSTACK 0 + PGSIZE\<rparr>\<rparr> else boot_slot i)"
  using assms by (simp add: boot_sched_eq nth_list_update del: upt_conv_Cons upt.simps)

lemma base_inv_boot: "base_inv (boot_sched fa)"
proof -
  have "\<not> running (boot_sched fa) i" for i
    by (simp add: running_def boot_sched_nth boot_slot_def zero_proc_def)
  moreover have "on_cpu (boot_sched fa) h = None" for h
    by (simp add: on_cpu_def boot_sched_eq boot_cpu_def)
  ultimately have "run_ok (running (boot_sched fa)) (on_cpu (boot_sched fa))" by (simp add: run_ok_def)
  moreover have "quiet (boot_sched fa)"
    by (simp add: quiet_def boot_sched_nth boot_slot_def)
       (simp add: boot_sched_eq boot_cpu_def)
  ultimately show ?thesis by (simp add: base_inv_def)
qed

lemma reachable_base: "sched_reachable k \<Longrightarrow> base_inv k"
  by (induction rule: sched_reachable.induct) (auto intro: base_inv_boot base_inv_step)

subsection \<open>Priorities\<close>

definition mlfq_ok :: "proc \<Rightarrow> bool" where
  "mlfq_ok p \<longleftrightarrow>
     priority p = 0 \<and> 0 \<le> sint (ticks_used p) \<and> sint (ticks_used p) < 5 \<or>
     priority p = 1 \<and> 0 \<le> sint (ticks_used p) \<and> sint (ticks_used p) < 10 \<or>
     priority p = 2"

lemma nth_upd: "xs[i := x] ! j = (if i = j \<and> i < length xs then x else xs ! j)"
  by (cases "i < length xs") (auto simp: nth_list_update list_update_beyond)

lemma sint_add_one:
  fixes w :: i32
  assumes "sint w < 2 ^ 31 - 1"
  shows "sint (w + 1) = sint w + 1"
proof -
  have "- (2 ^ 31) \<le> sint w" using sint_ge [of w] by simp
  then show ?thesis
    using assms by (simp add: sint_word_ariths signed_take_bit_int_eq_self)
qed

lemma mlfq_ok_tick: "mlfq_ok p \<Longrightarrow> mlfq_ok (mlfq_tick p)"
  by (auto simp: mlfq_ok_def mlfq_tick_def Let_def sint_add_one)

text \<open>How a step changes the scheduling fields of a slot.\<close>

lemma sched_step_levels:
  assumes "sched_step k k'" "base_inv k" "i < NPROC"
  shows "priority (procs k' ! i) = priority (procs k ! i) \<and> ticks_used (procs k' ! i) = ticks_used (procs k ! i) \<or>
     p_state (procs k ! i) = RUNNING \<and>
       priority (procs k' ! i) = priority (mlfq_tick (procs k ! i)) \<and>
       ticks_used (procs k' ! i) = ticks_used (mlfq_tick (procs k ! i)) \<or>
     p_state (procs k ! i) = UNUSED \<and> priority (procs k' ! i) = 0 \<and> ticks_used (procs k' ! i) = 0"
proof -
  have qu: "quiet k" and ok: "run_ok (running k) (on_cpu k)" using assms(2) by (auto simp: base_inv_def)
  note qs = quietD [OF qu]
  from assms(1,2) show ?thesis
  proof (cases rule: sched_step_forms)
    case (wake h ch cs t)
    then show ?thesis using assms(3) qs by (simp add: wakeup_nth)
  next
    case (preempt h j f b)
    then have "p_state (procs k ! j) = RUNNING" using running_on_cpu [OF ok] by (auto simp: runs_def)
    with preempt show ?thesis using assms(3) qs by (auto simp: nth_upd)
  next
    case (exits h j st b)
    then show ?thesis using assms(3) qs exit_table_frame(2,3) [of _ k h j] by (auto simp: nth_upd)
  qed (use assms(3) qs in \<open>auto simp: nth_upd resumed_def free_slot_def setkilled_def
        fork_parent_def fork_runnable_def\<close>)
qed

definition levels_ok :: "ksched \<Rightarrow> bool" where
  "levels_ok k \<longleftrightarrow> (\<forall>i < NPROC. mlfq_ok (procs k ! i))"

lemma levels_ok_step:
  assumes "sched_step k k'" "base_inv k" "levels_ok k"
  shows "levels_ok k'"
  unfolding levels_ok_def
proof (intro allI impI)
  fix i assume i: "i < NPROC"
  have "mlfq_ok (procs k ! i)" "mlfq_ok (mlfq_tick (procs k ! i))"
    using assms(3) i mlfq_ok_tick by (auto simp: levels_ok_def)
  then show "mlfq_ok (procs k' ! i)"
    using sched_step_levels [OF assms(1,2) i] by (auto simp: mlfq_ok_def)
qed

lemma levels_ok_boot: "levels_ok (boot_sched fa)"
  by (simp add: levels_ok_def boot_sched_nth boot_slot_def zero_proc_def mlfq_ok_def)

lemma reachable_levels: "sched_reachable k \<Longrightarrow> levels_ok k"
  by (induction rule: sched_reachable.induct)
     (auto intro: levels_ok_boot levels_ok_step reachable_base)
subsection \<open>Parents, children and exits\<close>

text \<open>A process that exists, and has not exited.\<close>

definition alive :: "ksched \<Rightarrow> nat \<Rightarrow> bool" where
  "alive k i \<longleftrightarrow> i < NPROC \<and> p_state (procs k ! i) \<in> {SLEEPING, RUNNABLE, RUNNING}"

text \<open>
  Init is alive; a parent is alive; a slot that is not in use has no parent, and a process
  other than init that can run, or has exited, has one.
\<close>

definition family_inv :: "ksched \<Rightarrow> bool" where
  "family_inv k \<longleftrightarrow>
     (\<exists>r. initproc k = Some r \<and> alive k r) \<and>
     (\<forall>i < NPROC. \<forall>p. parent (procs k ! i) = Some p \<longrightarrow> alive k p) \<and>
     (\<forall>i < NPROC. p_state (procs k ! i) = UNUSED \<longrightarrow> parent (procs k ! i) = None) \<and>
     (\<forall>i < NPROC. alive k i \<or> p_state (procs k ! i) = ZOMBIE \<longrightarrow> initproc k \<noteq> Some i \<longrightarrow>
        parent (procs k ! i) \<noteq> None)"

text \<open>A step that keeps who is alive, and keeps the parents.\<close>

lemma family_inv_same:
  assumes "family_inv k" "initproc k' = initproc k"
    "\<And>i. i < NPROC \<Longrightarrow> p_state (procs k' ! i) = p_state (procs k ! i) \<or> alive k i \<and> alive k' i"
    "\<And>i. i < NPROC \<Longrightarrow> parent (procs k' ! i) = parent (procs k ! i)"
  shows "family_inv k'"
proof -
  have al: "alive k' i \<longleftrightarrow> alive k i" for i
    using assms(3) [of i] by (cases "i < NPROC") (auto simp: alive_def)
  have st: "p_state (procs k' ! i) = s \<longleftrightarrow> p_state (procs k ! i) = s" if "i < NPROC" "s \<in> {UNUSED, USED, ZOMBIE}" for i s
    using assms(3) [OF that(1)] that(2) by (auto simp: alive_def)
  show ?thesis using assms(1,2,4) st by (auto simp: family_inv_def al)
qed

lemma runs_alive:
  assumes "base_inv k" "runs h i k" "h < NCPU"
  shows "alive k i" "p_state (procs k ! i) = RUNNING" "i < NPROC"
  using running_on_cpu [of k h i] assms by (auto simp: base_inv_def runs_def alive_def)

lemma parent_reparented:
  "parent (reparented h i k n j) =
     (if j < n \<and> parent (procs k ! j) = Some i then initproc k else parent (procs k ! j))"
  by (simp add: reparented_def Let_def)

lemma parent_exit_table:
  assumes "j < length (procs k)"
  shows "parent (exit_table h i k ! j) =
     (if parent (procs k ! j) = Some i then initproc k else parent (procs k ! j))"
  using assms by (simp add: exit_table_nth parent_reparented Let_def)

lemma family_inv_exit:
  assumes fam: "family_inv k" and base: "base_inv k" and r: "runs h i k" "h < NCPU" "initproc k \<noteq> Some i"
    and k': "procs k' = (exit_table h i k)[i := (exit_table h i k ! i)\<lparr>xstate := st,
                p_state := ZOMBIE, k_intena := b\<rparr>]" "initproc k' = initproc k"
  shows "family_inv k'"
proof -
  have len: "length (procs k) = NPROC" using base by (simp add: base_inv_def quiet_def)
  note al = runs_alive [OF base r(1,2)]
  have st: "p_state (procs k' ! j) = (if j = i then ZOMBIE else p_state (exit_table h i k ! j))"
    and par: "parent (procs k' ! j) = (if parent (procs k ! j) = Some i then initproc k else parent (procs k ! j))"
    if "j < NPROC" for j
    using that len al(3) parent_exit_table [of j k h i] by (auto simp: k' nth_upd)
  have al': "alive k' j \<longleftrightarrow> j \<noteq> i \<and> alive k j" for j
    using st [of j] exit_table_frame(6) [of j k h i] len by (cases "j = i") (auto simp: alive_def)
  obtain r0 where r0: "initproc k = Some r0" "alive k r0" using fam by (auto simp: family_inv_def)
  have un: "p_state (procs k' ! j) = UNUSED \<Longrightarrow> p_state (procs k ! j) = UNUSED" if "j < NPROC" for j
    using st [OF that] exit_table_frame(6) [of j k h i] len that by (auto split: if_splits)
  have zo: "j = i \<or> p_state (procs k ! j) = ZOMBIE" if "j < NPROC" "p_state (procs k' ! j) = ZOMBIE" for j
    using st [OF that(1)] exit_table_frame(6) [of j k h i] len that by (auto split: if_splits)
  show ?thesis
    unfolding family_inv_def
  proof (intro conjI allI impI)
    show "\<exists>r. initproc k' = Some r \<and> alive k' r" using r0 r(3) by (auto simp: k' al')
  next
    fix j p assume "j < NPROC" "parent (procs k' ! j) = Some p"
    then show "alive k' p" using par [of j] r0 r(3) fam by (auto simp: al' family_inv_def split: if_splits)
  next
    fix j assume j: "j < NPROC" "p_state (procs k' ! j) = UNUSED"
    then have "parent (procs k ! j) = None" using un fam by (auto simp: family_inv_def)
    then show "parent (procs k' ! j) = None" using par j by simp
  next
    fix j assume j: "j < NPROC" "alive k' j \<or> p_state (procs k' ! j) = ZOMBIE" "initproc k' \<noteq> Some j"
    have "alive k j \<or> p_state (procs k ! j) = ZOMBIE" using j zo [of j] al al' by auto
    then have "parent (procs k ! j) \<noteq> None" using fam j k' by (auto simp: family_inv_def)
    then show "parent (procs k' ! j) \<noteq> None" using par [OF j(1)] r0 by simp
  qed
qed

text \<open>A step that changes one slot whose process is not alive.\<close>

lemma family_inv_upd:
  assumes fam: "family_inv k" and i: "i < NPROC" "i < length (procs k)" "\<not> alive k i"
    and k': "procs k' = (procs k)[i := procs k' ! i]" "initproc k' = initproc k"
    and par: "\<And>p. parent (procs k' ! i) = Some p \<Longrightarrow> alive k p"
    and un: "p_state (procs k' ! i) = UNUSED \<Longrightarrow> parent (procs k' ! i) = None"
    and al: "alive k' i \<or> p_state (procs k' ! i) = ZOMBIE \<Longrightarrow> parent (procs k' ! i) \<noteq> None"
  shows "family_inv k'"
proof -
  have other: "procs k' ! j = procs k ! j" if "j \<noteq> i" for j
    using that by (subst k'(1)) (simp add: nth_upd)
  have al': "alive k j \<Longrightarrow> alive k' j" "j \<noteq> i \<Longrightarrow> alive k' j = alive k j" for j
    using other [of j] i by (cases "j = i"; auto simp: alive_def)+
  show ?thesis
    unfolding family_inv_def
  proof (intro conjI allI impI)
    show "\<exists>r. initproc k' = Some r \<and> alive k' r"
      using fam al'(1) k'(2) by (auto simp: family_inv_def)
  next
    fix j p assume j: "j < NPROC" "parent (procs k' ! j) = Some p"
    have "alive k p"
    proof (cases "j = i")
      case False
      with j other [of j] fam show ?thesis by (simp add: family_inv_def)
    qed (use j par in simp)
    then show "alive k' p" by (rule al'(1))
  next
    fix j assume "j < NPROC" "p_state (procs k' ! j) = UNUSED"
    then show "parent (procs k' ! j) = None"
      using un other [of j] fam by (cases "j = i") (auto simp: family_inv_def)
  next
    fix j assume j: "j < NPROC" "alive k' j \<or> p_state (procs k' ! j) = ZOMBIE" "initproc k' \<noteq> Some j"
    show "parent (procs k' ! j) \<noteq> None"
    proof (cases "j = i")
      case True
      then show ?thesis using al j by simp
    next
      case False
      then show ?thesis using j other [of j] fam al'(2) [of j] k'(2) by (auto simp: family_inv_def)
    qed
  qed
qed

lemma family_inv_step:
  assumes step: "sched_step k k'" and base: "base_inv k" and fam: "family_inv k"
  shows "family_inv k'"
proof -
  have len: "length (procs k) = NPROC" using base by (simp add: base_inv_def quiet_def)
  from step base show ?thesis
  proof (cases rule: sched_step_forms)
    case (flags cs)
    show ?thesis by (rule family_inv_same [OF fam]) (use flags in simp_all)
  next
    case (wake h ch cs t)
    show ?thesis
      by (rule family_inv_same [OF fam]) (use wake len in \<open>auto simp: wakeup_nth alive_def\<close>)
  next
    case (wakes i)
    show ?thesis by (rule family_inv_same [OF fam]) (use wakes len in \<open>auto simp: nth_upd alive_def\<close>)
  next
    case (enter h i c)
    show ?thesis
      by (rule family_inv_same [OF fam]) (use enter len in \<open>auto simp: nth_upd resumed_def alive_def\<close>)
  next
    case (preempt h i f b)
    note al = runs_alive [OF base preempt(1,2)]
    show ?thesis
      by (rule family_inv_same [OF fam]) (use preempt len al in \<open>auto simp: nth_upd alive_def\<close>)
  next
    case (sleeps h i ch b)
    note al = runs_alive [OF base sleeps(1,2)]
    show ?thesis
      by (rule family_inv_same [OF fam]) (use sleeps len al in \<open>auto simp: nth_upd alive_def\<close>)
  next
    case (frees c)
    show ?thesis
      by (rule family_inv_upd [OF fam frees(1)])
         (use frees len in \<open>auto simp: free_slot_def alive_def\<close>)
  next
    case (kills i)
    show ?thesis
      by (rule family_inv_same [OF fam]) (use kills len in \<open>auto simp: nth_upd alive_def\<close>)
  next
    case (marks i)
    show ?thesis
      by (rule family_inv_same [OF fam]) (use marks len in \<open>auto simp: nth_upd setkilled_def\<close>)
  next
    case (exits h i st b)
    show ?thesis by (rule family_inv_exit [OF fam base exits(1-3)]) (use exits in simp_all)
  next
    case (allocs i ctx)
    then have "parent (procs k ! i) = None" using fam by (auto simp: family_inv_def)
    then show ?thesis
      by (intro family_inv_upd [OF fam allocs(1)]) (use allocs len in \<open>auto simp: alive_def\<close>)
  next
    case (parents h p i)
    note al = runs_alive [OF base parents(1,2)]
    show ?thesis
      by (rule family_inv_upd [OF fam parents(3)])
         (use parents len al in \<open>auto simp: fork_parent_def alive_def\<close>)
  next
    case (readies i)
    have "\<And>p. parent (procs k ! i) = Some p \<Longrightarrow> alive k p"
      using fam readies(1) by (auto simp: family_inv_def)
    then show ?thesis
      by (intro family_inv_upd [OF fam readies(1)])
         (use readies len in \<open>auto simp: fork_runnable_def alive_def\<close>)
  qed
qed

lemma family_inv_boot: "family_inv (boot_sched fa)"
  by (simp add: family_inv_def alive_def boot_sched_nth boot_slot_def zero_proc_def) (simp add: boot_sched_eq)

lemma reachable_family: "sched_reachable k \<Longrightarrow> family_inv k"
  by (induction rule: sched_reachable.induct)
     (auto intro: family_inv_boot family_inv_step reachable_base)

subsection \<open>No lost wakeup between exit and wait\<close>

text \<open>
  A process that sleeps in \<^verbatim>\<open>kwait()\<close> (the only place that sleeps on the address of a
  process) sleeps on its own address and has no child that has exited.
\<close>

definition wait_inv :: "ksched \<Rightarrow> bool" where
  "wait_inv k \<longleftrightarrow>
     (\<forall>i < NPROC. \<forall>q. p_state (procs k ! i) = SLEEPING \<longrightarrow> p_chan (procs k ! i) = ProcChan q \<longrightarrow>
        q = i \<and> (\<forall>c < NPROC. parent (procs k ! c) = Some i \<longrightarrow> p_state (procs k ! c) \<noteq> ZOMBIE))"

lemma wait_inv_same:
  assumes w: "wait_inv k"
    and sl: "\<And>i q. i < NPROC \<Longrightarrow> p_state (procs k' ! i) = SLEEPING \<Longrightarrow> p_chan (procs k' ! i) = ProcChan q \<Longrightarrow>
      p_state (procs k ! i) = SLEEPING \<and> p_chan (procs k ! i) = ProcChan q"
    and zo: "\<And>c p. c < NPROC \<Longrightarrow> p_state (procs k' ! c) = ZOMBIE \<Longrightarrow> parent (procs k' ! c) = Some p \<Longrightarrow>
      p_state (procs k ! c) = ZOMBIE \<and> parent (procs k ! c) = Some p"
  shows "wait_inv k'"
  unfolding wait_inv_def
proof (intro allI impI)
  fix i q assume i: "i < NPROC" "p_state (procs k' ! i) = SLEEPING" "p_chan (procs k' ! i) = ProcChan q"
  have "q = i \<and> (\<forall>c < NPROC. parent (procs k ! c) = Some i \<longrightarrow> p_state (procs k ! c) \<noteq> ZOMBIE)"
    using w sl [OF i] i(1) unfolding wait_inv_def by blast
  then show "q = i \<and> (\<forall>c < NPROC. parent (procs k' ! c) = Some i \<longrightarrow> p_state (procs k' ! c) \<noteq> ZOMBIE)"
    using zo by blast
qed

lemma exit_table_wakes_parent:
  assumes "j < length (procs k)" "i < length (procs k)" "p_state (exit_table h i k ! j) = SLEEPING" "myproc h k \<noteq> Some j"
  shows "p_state (procs k ! j) = SLEEPING"
    "p_chan (procs k ! j) \<noteq> proc_chan (parent (exit_table h i k ! i))"
    "c < length (procs k) \<Longrightarrow> parent (procs k ! c) = Some i \<Longrightarrow> p_chan (procs k ! j) \<noteq> proc_chan (initproc k)"
proof -
  have par: "parent (procs (reparent h i k) ! i) = parent (exit_table h i k ! i)"
    using assms(2) by (simp add: reparent_nth parent_reparented parent_exit_table)
  show "p_state (procs k ! j) = SLEEPING"
    using assms exit_table_frame(6) [of j k h i] by auto
  show "p_chan (procs k ! j) \<noteq> proc_chan (parent (exit_table h i k ! i))"
    using assms par by (auto simp: exit_table_nth [OF assms(1)] Let_def split: if_splits)
  show "p_chan (procs k ! j) \<noteq> proc_chan (initproc k)"
    if "c < length (procs k)" "parent (procs k ! c) = Some i"
  proof
    assume "p_chan (procs k ! j) = proc_chan (initproc k)"
    then have "p_state (reparented h i k (length (procs k)) j) \<noteq> SLEEPING"
      using that assms(4) by (auto simp: reparented_def Let_def)
    then show False using assms(1,3) by (auto simp: exit_table_nth Let_def split: if_splits)
  qed
qed

lemma wait_inv_exit:
  assumes w: "wait_inv k" and base: "base_inv k" and r: "runs h i k" "h < NCPU"
    and k': "procs k' = (exit_table h i k)[i := (exit_table h i k ! i)\<lparr>xstate := st,
                p_state := ZOMBIE, k_intena := b\<rparr>]"
  shows "wait_inv k'"
  unfolding wait_inv_def
proof (intro allI impI)
  have len: "length (procs k) = NPROC" using base by (simp add: base_inv_def quiet_def)
  note al = runs_alive [OF base r(1,2)]
  fix j q assume j: "j < NPROC" "p_state (procs k' ! j) = SLEEPING" "p_chan (procs k' ! j) = ProcChan q"
  have ji: "j \<noteq> i" using j al(3) len by (auto simp: k' nth_upd)
  have ne: "myproc h k \<noteq> Some j" using r ji by (simp add: runs_def)
  have et: "p_state (exit_table h i k ! j) = SLEEPING" "p_chan (procs k ! j) = ProcChan q"
    using j ji len exit_table_frame(4) [of j k h i] by (simp_all add: k' nth_upd)
  note wk = exit_table_wakes_parent [OF _ _ et(1) ne, unfolded len, OF j(1) al(3)]
  have old: "q = j" "\<And>c. c < NPROC \<Longrightarrow> parent (procs k ! c) = Some j \<Longrightarrow> p_state (procs k ! c) \<noteq> ZOMBIE"
    using w j(1) wk(1) et(2) unfolding wait_inv_def by blast+
  show "q = j \<and> (\<forall>c < NPROC. parent (procs k' ! c) = Some j \<longrightarrow> p_state (procs k' ! c) \<noteq> ZOMBIE)"
  proof (intro conjI allI impI notI)
    show "q = j" by (rule old(1))
    fix c assume c: "c < NPROC" "parent (procs k' ! c) = Some j" "p_state (procs k' ! c) = ZOMBIE"
    have pc: "parent (exit_table h i k ! c) = Some j" using c al(3) len by (auto simp: k' nth_upd split: if_splits)
    show False
    proof (cases "c = i")
      case True
      then show False using wk(2) et(2) old(1) pc by (simp add: proc_chan_def)
    next
      case False
      then have z: "p_state (procs k ! c) = ZOMBIE"
        using c len exit_table_frame(6) [of c k h i] by (auto simp: k' nth_upd)
      show False
      proof (cases "parent (procs k ! c) = Some i")
        case True
        then have "initproc k = Some j" using pc c(1) len by (simp add: parent_exit_table)
        then show False using wk(3) [OF c(1) True] et(2) old(1) by (simp add: proc_chan_def)
      next
        case False
        then have "parent (procs k ! c) = Some j" using pc c(1) len by (simp add: parent_exit_table)
        then show False using old(2) [OF c(1)] z by simp
      qed
    qed
  qed
qed

lemma wait_inv_sleep:
  assumes w: "wait_inv k" and base: "base_inv k" and r: "runs h i k" "h < NCPU"
    and ch: "(\<forall>p. ch \<noteq> ProcChan p) \<or> ch = ProcChan i \<and> zombie_child i (procs k) = None"
    and k': "procs k' = (procs k)[i := (procs k ! i)\<lparr>p_chan := ch, p_state := SLEEPING,
                k_point := InSleep, k_intena := b\<rparr>]"
  shows "wait_inv k'"
  unfolding wait_inv_def
proof (intro allI impI)
  have len: "length (procs k) = NPROC" using base by (simp add: base_inv_def quiet_def)
  note al = runs_alive [OF base r(1,2)]
  fix j q assume j: "j < NPROC" "p_state (procs k' ! j) = SLEEPING" "p_chan (procs k' ! j) = ProcChan q"
  have zo: "p_state (procs k' ! c) = ZOMBIE \<Longrightarrow> p_state (procs k ! c) = ZOMBIE"
    "parent (procs k' ! c) = parent (procs k ! c)" for c
    by (auto simp: k' nth_upd split: if_splits)
  have "q = j \<and> (\<forall>c < NPROC. parent (procs k ! c) = Some j \<longrightarrow> p_state (procs k ! c) \<noteq> ZOMBIE)"
  proof (cases "j = i")
    case True
    then have "ch = ProcChan q" using j al(3) len by (simp add: k')
    then show ?thesis using ch True len by (auto simp: zombie_child_def first_idx_None)
  next
    case False
    then have "p_state (procs k ! j) = SLEEPING" "p_chan (procs k ! j) = ProcChan q"
      using j by (simp_all add: k')
    then show ?thesis using w j(1) unfolding wait_inv_def by blast
  qed
  then show "q = j \<and> (\<forall>c < NPROC. parent (procs k' ! c) = Some j \<longrightarrow> p_state (procs k' ! c) \<noteq> ZOMBIE)"
    using zo by auto
qed

lemma wait_inv_step:
  assumes step: "sched_step k k'" and base: "base_inv k" and w: "wait_inv k"
  shows "wait_inv k'"
proof -
  have len: "length (procs k) = NPROC" using base by (simp add: base_inv_def quiet_def)
  from step base show ?thesis
  proof (cases rule: sched_step_forms)
    case (wake h ch cs t)
    show ?thesis
      by (rule wait_inv_same [OF w]) (use wake len in \<open>auto simp: wakeup_nth split: if_splits\<close>)
  next
    case (sleeps h i ch b)
    show ?thesis by (rule wait_inv_sleep [OF w base sleeps(1-3)]) (use sleeps in simp)
  next
    case (exits h i st b)
    show ?thesis by (rule wait_inv_exit [OF w base exits(1,2)]) (use exits in simp)
  qed (rule wait_inv_same [OF w]; auto simp: nth_upd resumed_def free_slot_def setkilled_def
        fork_parent_def fork_runnable_def split: if_splits)+
qed

lemma wait_inv_boot: "wait_inv (boot_sched fa)"
  by (simp add: wait_inv_def boot_sched_nth boot_slot_def zero_proc_def)

lemma reachable_wait: "sched_reachable k \<Longrightarrow> wait_inv k"
  by (induction rule: sched_reachable.induct)
     (auto intro: wait_inv_boot wait_inv_step reachable_base)

section \<open>Properties of the scheduler\<close>

text \<open>Process \<open>i\<close> comes before process \<open>j\<close>: lower level, or the same level and an earlier slot.\<close>

definition schedulable :: "proc list \<Rightarrow> nat \<Rightarrow> bool" where
  "schedulable ps i \<longleftrightarrow> i < length ps \<and> p_state (ps ! i) = RUNNABLE \<and> priority (ps ! i) \<in> {0, 1, 2}"

definition before :: "proc list \<Rightarrow> nat \<Rightarrow> nat \<Rightarrow> bool" where
  "before ps i j \<longleftrightarrow> priority (ps ! i) < priority (ps ! j) \<or>
     priority (ps ! i) = priority (ps ! j) \<and> i \<le> j"

lemma scheduler_pick_None: "scheduler_pick ps = None \<longleftrightarrow> (\<forall>i. \<not> schedulable ps i)"
  by (auto simp: scheduler_pick_def schedulable_def first_idx_None split: option.splits)
     (auto simp: first_idx_Some)

lemma scheduler_pick_sound:
  assumes "scheduler_pick ps = Some i"
  shows "schedulable ps i" "schedulable ps j \<Longrightarrow> before ps i j"
proof -
  let ?f = "\<lambda>a. first_idx (\<lambda>p. p_state p = RUNNABLE \<and> priority p = a) ps"
  consider "?f 0 = Some i" | "?f 0 = None" "?f 1 = Some i"
    | "?f 0 = None" "?f 1 = None" "?f 2 = Some i"
    using assms by (auto simp: scheduler_pick_def split: option.splits)
  then show "schedulable ps i" by cases (auto simp: schedulable_def first_idx_Some)
  assume j: "schedulable ps j"
  have lt: "(0 :: i32) < 1" "(0 :: i32) < 2" "(1 :: i32) < 2" by simp_all
  consider "?f 0 = Some i" | "?f 0 = None" "?f 1 = Some i"
    | "?f 0 = None" "?f 1 = None" "?f 2 = Some i"
    using assms by (auto simp: scheduler_pick_def split: option.splits)
  then show "before ps i j"
    by cases (use j lt in \<open>auto simp: schedulable_def before_def first_idx_Some first_idx_None
      not_le intro: leI\<close>)
qed

lemma scheduler_pick_Some:
  "scheduler_pick ps = Some i \<longleftrightarrow> schedulable ps i \<and> (\<forall>j. schedulable ps j \<longrightarrow> before ps i j)"
proof
  assume "scheduler_pick ps = Some i"
  then show "schedulable ps i \<and> (\<forall>j. schedulable ps j \<longrightarrow> before ps i j)"
    using scheduler_pick_sound by blast
next
  assume i: "schedulable ps i \<and> (\<forall>j. schedulable ps j \<longrightarrow> before ps i j)"
  then obtain i' where i': "scheduler_pick ps = Some i'"
    using scheduler_pick_None [of ps] by (cases "scheduler_pick ps") auto
  have "before ps i i'" "before ps i' i" using i scheduler_pick_sound [OF i'] by blast+
  then have "i = i'" by (auto simp: before_def)
  with i' show "scheduler_pick ps = Some i" by simp
qed

lemma mlfq_ok_priority: "mlfq_ok p \<Longrightarrow> priority p \<in> {0, 1, 2}"
  by (auto simp: mlfq_ok_def)

lemma reachable_unlocked: "sched_reachable k \<Longrightarrow> all_unlocked k"
  using reachable_base [of k] by (simp add: base_inv_def quiet_def all_unlocked_def)

text \<open>
  The search of one CPU among the steps of the others. \<open>scanning h n tr\<close>: CPU \<open>h\<close>, with interrupts off, has
  passed over the first \<open>n\<close> entries, level by level and within a level in table order; \<open>tr\<close> are the states
  since it began, latest first. The steps of the others leave its \<^verbatim>\<open>struct cpu\<close> alone.
\<close>

inductive scanning :: "nat \<Rightarrow> nat \<Rightarrow> ksched list \<Rightarrow> bool" for h where
  sc_start: "sched_reachable k \<Longrightarrow> h < NCPU \<Longrightarrow> myproc h k = None \<Longrightarrow> \<not> sie (cpus k ! h) \<Longrightarrow> scanning h 0 [k]"
| sc_other: "scanning h n (k # tr) \<Longrightarrow> sched_step k k' \<Longrightarrow> cpus k' ! h = cpus k ! h \<Longrightarrow> scanning h n (k' # k # tr)"
| sc_pass: "scanning h n (k # tr) \<Longrightarrow> n < 3 * NPROC \<Longrightarrow>
    scan_entry h (of_nat (n div NPROC)) (n mod NPROC) k = Inr (False, k') \<Longrightarrow> scanning h (Suc n) (k' # k # tr)"

lemma scan_entry_cases:
  assumes "sched_reachable k" "h < NCPU" "\<not> sie (cpus k ! h)" "i < NPROC"
  shows "scan_entry h pr i k =
    Inr (if p_state (procs k ! i) = RUNNABLE \<and> priority (procs k ! i) = pr then (True, entered h i k) else (False, passed h k))"
proof -
  note qs = quietD [of k]
  have q: "quiet k" using reachable_base [OF assms(1)] by (simp add: base_inv_def)
  have "scans h k" using qs [OF q] assms by (simp add: scans_def)
  then show ?thesis using scan_entry_hit [of h k i pr] scan_entry_pass [of h k i pr] qs [OF q] assms(4) by simp
qed

lemma scanning_cpu:
  assumes "scanning h n (k # tr)"
  shows "sched_reachable k" "h < NCPU" "myproc h k = None" "\<not> sie (cpus k ! h)"
  using assms
proof (induction n "k # tr" arbitrary: k tr rule: scanning.induct)
  case (sc_other n k tr k')
  case 1 show ?case by (rule sr_step [OF sc_other(2,6)])
  case 2 show ?case using sc_other by simp
  case 3 show ?case using sc_other by (simp add: myproc_def)
  case 4 show ?case using sc_other by simp
next
  case (sc_pass n k tr k')
  note r = scan_entry_cases [OF sc_pass(2,3,5), of "n mod NPROC" "of_nat (n div NPROC)"]
  have k': "k' = passed h k" using r sc_pass(7) by (simp split: if_splits)
  have len: "h < length (cpus k)" using sc_pass(3) reachable_base [OF sc_pass(2)] by (simp add: base_inv_def quiet_def)
  case 1 show ?case by (rule sr_step [OF sc_pass(2) st_scan [OF sc_pass(3,4,5) _ sc_pass(7)]]) simp
  case 2 show ?case using sc_pass by simp
  case 3 show ?case using sc_pass(4) len by (simp add: k' myproc_def)
  case 4 show ?case using sc_pass(5) len by (simp add: k')
qed simp_all

text \<open>A process that is RUNNABLE before and after a step keeps its priority.\<close>

lemma runnable_keeps_priority:
  assumes step: "sched_step k k'" and base: "base_inv k" and i: "i < NPROC"
    and r: "p_state (procs k ! i) = RUNNABLE" "p_state (procs k' ! i) = RUNNABLE"
  shows "priority (procs k' ! i) = priority (procs k ! i)"
proof -
  have len: "length (procs k) = NPROC" using base by (simp add: base_inv_def quiet_def)
  from step base show ?thesis
  proof (cases rule: sched_step_forms)
    case (wake h ch cs t)
    then show ?thesis using i len by (simp add: wakeup_nth)
  next
    case (preempt h j f b)
    then have "p_state (procs k ! j) = RUNNING"
      using base running_on_cpu [of k h j] by (simp add: base_inv_def runs_def)
    then show ?thesis using preempt(4) i r(1) len by (auto simp: nth_upd)
  next
    case (exits h j st b)
    then show ?thesis using r(2) i len exit_table_frame(2) [of i k h j] by (auto simp: nth_upd)
  qed (use i r len in \<open>auto simp: nth_upd resumed_def free_slot_def setkilled_def fork_parent_def fork_runnable_def\<close>)
qed

lemma scanning_tested:
  assumes "scanning h n tr" "m < n"
  shows "\<exists>s \<in> set tr. \<not> (p_state (procs s ! (m mod NPROC)) = RUNNABLE \<and> priority (procs s ! (m mod NPROC)) = of_nat (m div NPROC))"
  using assms
proof (induction rule: scanning.induct)
  case (sc_pass n k tr k')
  show ?case
  proof (cases "m = n")
    case True
    have "\<not> (p_state (procs k ! (n mod NPROC)) = RUNNABLE \<and> priority (procs k ! (n mod NPROC)) = of_nat (n div NPROC))"
      using scan_entry_cases [OF scanning_cpu(1,2,4) [OF sc_pass(1)], of "n mod NPROC" "of_nat (n div NPROC)"] sc_pass(3)
      by (auto split: if_splits)
    then show ?thesis using True by auto
  next
    case False
    then show ?thesis using sc_pass by auto
  qed
qed auto

lemma scanning_steps:
  assumes "scanning h n (k' # k # tr)"
  shows "sched_step k k' \<and> sched_reachable k \<and> (\<exists>m. scanning h m (k # tr))"
  using assms
proof (cases rule: scanning.cases)
  case (sc_pass m)
  have "sched_step k k'"
    by (rule st_scan [OF scanning_cpu(2,3,4) [OF sc_pass(2)] _ sc_pass(4)]) simp
  then show ?thesis using sc_pass(2) scanning_cpu(1) [OF sc_pass(2)] by blast
qed (use scanning_cpu(1) in blast)

lemma scanning_priority:
  assumes "scanning h n (k # tr)" "j < NPROC" "\<forall>s \<in> set (k # tr). p_state (procs s ! j) = RUNNABLE"
  shows "\<forall>s \<in> set (k # tr). priority (procs s ! j) = priority (procs k ! j)"
  using assms
proof (induction tr arbitrary: n k)
  case (Cons k0 tr)
  obtain m where s: "sched_step k0 k" "sched_reachable k0" "scanning h m (k0 # tr)" using scanning_steps [OF Cons.prems(1)] by blast
  have "priority (procs k ! j) = priority (procs k0 ! j)"
    by (rule runnable_keeps_priority [OF s(1) reachable_base [OF s(2)] Cons.prems(2)]) (use Cons.prems(3) in simp_all)
  moreover have "\<forall>s \<in> set (k0 # tr). priority (procs s ! j) = priority (procs k0 ! j)"
    by (rule Cons.IH [OF s(3) Cons.prems(2)]) (use Cons.prems(3) in simp)
  ultimately show ?case by (metis set_ConsD)
qed simp

lemma scanning_ready:
  assumes sc: "scanning h n (k # tr)" and j: "j < NPROC" "\<forall>s \<in> set (k # tr). p_state (procs s ! j) = RUNNABLE"
  shows "n \<le> nat (uint (priority (procs k ! j))) * NPROC + j \<and> uint (priority (procs k ! j)) < 3"
proof -
  let ?q = "nat (uint (priority (procs k ! j)))"
  have "priority (procs k ! j) \<in> {0, 1, 2}"
    using reachable_levels [OF scanning_cpu(1) [OF sc]] j(1) mlfq_ok_priority by (auto simp: levels_ok_def)
  then have q: "uint (priority (procs k ! j)) < 3" "(of_nat ?q :: i32) = priority (procs k ! j)" by auto
  have d: "(?q * NPROC + j) mod NPROC = j" "(?q * NPROC + j) div NPROC = ?q" using j(1) by simp_all
  have "\<not> ?q * NPROC + j < n"
    using scanning_tested [OF sc, of "?q * NPROC + j"] scanning_priority [OF sc j] j(2) unfolding d q(2) by blast
  then show ?thesis using q(1) by simp
qed

text \<open>
  Claim C1. The search of the scheduler, entry by entry, with the other CPUs at work in between. When CPU
  \<open>h\<close> has passed over \<open>n\<close> entries and tests the next one, the test does not panic, and if it dispatches
  the process of that entry, then that process was RUNNABLE at the level searched for, it is RUNNING on \<open>h\<close>
  now, and every process that has been RUNNABLE ever since the search began comes later in the order of
  priority and, within a priority, of the table. A search that reaches the end without dispatching has
  missed no such process: every slot was not RUNNABLE at some moment of the search.
\<close>

theorem scan_passes_over_no_ready_process:
  assumes "scanning h n (k # tr)"
  shows "(n < 3 * NPROC \<longrightarrow>
     (\<exists>found k'. scan_entry h (of_nat (n div NPROC)) (n mod NPROC) k = Inr (found, k') \<and>
       (found \<longrightarrow> myproc h k' = Some (n mod NPROC) \<and> p_state (procs k ! (n mod NPROC)) = RUNNABLE \<and>
          uint (priority (procs k ! (n mod NPROC))) = int (n div NPROC) \<and> p_state (procs k' ! (n mod NPROC)) = RUNNING \<and>
          (\<forall>j < NPROC. (\<forall>s \<in> set (k # tr). p_state (procs s ! j) = RUNNABLE) \<longrightarrow>
             uint (priority (procs k ! (n mod NPROC))) < uint (priority (procs k ! j)) \<or>
             priority (procs k ! (n mod NPROC)) = priority (procs k ! j) \<and> n mod NPROC \<le> j)))) \<and>
    (n = 3 * NPROC \<longrightarrow> (\<forall>j < NPROC. \<exists>s \<in> set (k # tr). p_state (procs s ! j) \<noteq> RUNNABLE))"
proof (intro conjI impI)
  assume n: "n < 3 * NPROC"
  let ?i = "n mod NPROC" and ?pr = "of_nat (n div NPROC) :: i32"
  have i: "?i < NPROC" by simp
  have pr: "uint ?pr = int (n div NPROC)"
  proof -
    have "n div NPROC \<le> 2" using n by simp
    then have "n div NPROC \<in> {0, 1, 2}" by auto
    then show ?thesis by auto
  qed
  note e = scan_entry_cases [OF scanning_cpu(1,2,4) [OF assms] i, of ?pr]
  have len: "h < length (cpus k)" "?i < length (procs k)"
    using scanning_cpu(2) [OF assms] reachable_base [OF scanning_cpu(1) [OF assms]] by (simp_all add: base_inv_def quiet_def)
  have best: "uint ?pr < uint (priority (procs k ! j)) \<or> ?pr = priority (procs k ! j) \<and> ?i \<le> j"
    if j: "j < NPROC" "\<forall>s \<in> set (k # tr). p_state (procs s ! j) = RUNNABLE" for j
  proof -
    let ?q = "nat (uint (priority (procs k ! j)))"
    have le: "n \<le> ?q * NPROC + j" using scanning_ready [OF assms j] by simp
    then have "n div NPROC \<le> ?q" using j(1) div_le_mono [OF le, of NPROC] by simp
    then consider "n div NPROC < ?q" | "n div NPROC = ?q" by linarith
    then show ?thesis
    proof cases
      case 1
      then show ?thesis using pr by linarith
    next
      case 2
      have "?i \<le> j" using le 2 div_mult_mod_eq [of n NPROC] by linarith
      moreover have "?pr = priority (procs k ! j)" using 2 by simp
      ultimately show ?thesis by simp
    qed
  qed
  show "\<exists>found k'. scan_entry h ?pr ?i k = Inr (found, k') \<and>
       (found \<longrightarrow> myproc h k' = Some ?i \<and> p_state (procs k ! ?i) = RUNNABLE \<and>
          uint (priority (procs k ! ?i)) = int (n div NPROC) \<and> p_state (procs k' ! ?i) = RUNNING \<and>
          (\<forall>j < NPROC. (\<forall>s \<in> set (k # tr). p_state (procs s ! j) = RUNNABLE) \<longrightarrow>
             uint (priority (procs k ! ?i)) < uint (priority (procs k ! j)) \<or>
             priority (procs k ! ?i) = priority (procs k ! j) \<and> ?i \<le> j))"
  proof (cases "p_state (procs k ! ?i) = RUNNABLE \<and> priority (procs k ! ?i) = ?pr")
    case True
    then show ?thesis using e best pr len
      by (intro exI [of _ True] exI [of _ "entered h ?i k"]) (simp add: entered_def myproc_def resumed_def)
  next
    case False
    then show ?thesis using e by (intro exI [of _ False] exI [of _ "passed h k"]) auto
  qed
next
  fix j assume "n = 3 * NPROC"
  show "\<forall>j < NPROC. \<exists>s \<in> set (k # tr). p_state (procs s ! j) \<noteq> RUNNABLE"
  proof (rule ccontr)
    assume "\<not> (\<forall>j < NPROC. \<exists>s \<in> set (k # tr). p_state (procs s ! j) \<noteq> RUNNABLE)"
    then obtain j where j: "j < NPROC" "\<forall>s \<in> set (k # tr). p_state (procs s ! j) = RUNNABLE" by blast
    show False using scanning_ready [OF assms j] j(1) \<open>n = 3 * NPROC\<close> by linarith
  qed
qed

text \<open>The first CPU passes over no entry at boot: the first one is the first process.\<close>

lemma boot_scanning: "scanning 0 0 [boot_sched 0]"
  by (rule sc_start [OF sr_boot]) (simp_all add: myproc_def boot_sched_eq boot_cpu_def)

theorem scan_passes_over_no_ready_process_witness:
  "scanning 0 0 [boot_sched 0] \<and>
   (\<exists>k'. scan_entry 0 0 0 (boot_sched 0) = Inr (True, k') \<and> myproc 0 k' = Some 0 \<and> p_state (procs k' ! 0) = RUNNING)"
proof -
  have "\<not> (\<exists>k'. scan_entry 0 0 0 (boot_sched 0) = Inr (False, k'))"
    using scan_entry_cases [OF scanning_cpu(1,2,4) [OF boot_scanning], of 0 0]
    by (simp add: boot_sched_nth boot_slot_def zero_proc_def)
  then show ?thesis using scan_passes_over_no_ready_process [OF boot_scanning] boot_scanning by auto
qed

text \<open>
  Claim C2. One round of the scheduler that no other CPU disturbs, run entry by entry through both loops, does
  what a search of the whole table would: in a reachable state with any RUNNABLE process it dispatches one,
  without a panic, such that no RUNNABLE process has a lower priority number, and among those of the
  same priority none is in an earlier slot. Nothing else in the table changes.
\<close>

theorem undisturbed_round_picks_best:
  assumes "sched_reachable k" "h < NCPU" "myproc h k = None"
    "r < NPROC" "p_state (procs k ! r) = RUNNABLE"
  shows "\<exists>i k'. dispatch h k = Inr k' \<and> myproc h k' = Some i \<and>
     p_state (procs k ! i) = RUNNABLE \<and> p_state (procs k' ! i) = RUNNING \<and>
     (\<forall>j < NPROC. p_state (procs k ! j) = RUNNABLE \<longrightarrow>
        uint (priority (procs k ! i)) < uint (priority (procs k ! j)) \<or>
        priority (procs k ! i) = priority (procs k ! j) \<and> i \<le> j) \<and>
     (\<forall>j < NPROC. j \<noteq> i \<longrightarrow> procs k' ! j = procs k ! j)"
proof -
  have qu: "quiet k" and lev: "levels_ok k"
    using reachable_base [OF assms(1)] reachable_levels [OF assms(1)] by (simp_all add: base_inv_def)
  note qs = quietD [OF qu]
  have sch: "schedulable (procs k) j \<longleftrightarrow> j < NPROC \<and> p_state (procs k ! j) = RUNNABLE" for j
    using lev qs mlfq_ok_priority by (auto simp: schedulable_def levels_ok_def)
  then obtain i where i: "scheduler_pick (procs k) = Some i"
    using scheduler_pick_None [of "procs k"] assms(4,5) by (cases "scheduler_pick (procs k)") auto
  have si: "i < NPROC" "p_state (procs k ! i) = RUNNABLE"
    using scheduler_pick_sound(1) [OF i] sch by auto
  have "dispatch h k = Inr (entered h i k)"
    by (rule dispatch_eq) (use qs assms(2) i reachable_unlocked [OF assms(1)] in simp_all)
  then show ?thesis
    using scheduler_pick_sound(2) [OF i] si sch qs assms(2)
    by (intro exI [of _ i] exI [of _ "entered h i k"])
       (auto simp: entered_def myproc_def resumed_def before_def word_less_def)
qed

theorem undisturbed_round_picks_best_witness:
  "p_state (procs (boot_sched 0) ! 0) = RUNNABLE \<and>
   (\<exists>i k'. dispatch 0 (boot_sched 0) = Inr k' \<and> myproc 0 k' = Some i \<and>
      p_state (procs k' ! i) = RUNNING)"
proof -
  have "myproc 0 (boot_sched 0) = None" "p_state (procs (boot_sched 0) ! 0) = RUNNABLE"
    by (simp_all add: boot_sched_nth) (simp add: myproc_def boot_sched_eq boot_cpu_def)
  then show ?thesis
    using undisturbed_round_picks_best [OF sr_boot, of 0 0 0] by auto
qed

lemma ticks_nat:
  assumes "n < 2 ^ 31 - 1" "ticks_used p = of_nat n"
  shows "sint (ticks_used p + 1) = int n + 1" "ticks_used p + 1 = of_nat (Suc n)"
proof -
  have "sint (of_nat (Suc n) :: i32) = int (Suc n)"
    by (rule sint_of_nat_small) (use assms(1) in simp)
  then show "sint (ticks_used p + 1) = int n + 1" using assms(2) by (simp add: add.commute)
  show "ticks_used p + 1 = of_nat (Suc n)" using assms(2) by simp
qed

definition level_after :: "nat \<Rightarrow> i32" where
  "level_after n = (if n < 5 then 0 else if n < 15 then 1 else 2)"

definition ticks_after :: "nat \<Rightarrow> nat" where
  "ticks_after n = (if n < 5 then n else if n < 15 then n - 5 else n - 15)"

lemma mlfq_tick_after:
  assumes "n < 2 ^ 31" "priority p = level_after n" "ticks_used p = of_nat (ticks_after n)"
  shows "mlfq_tick p =
    p\<lparr>priority := level_after (Suc n), ticks_used := of_nat (ticks_after (Suc n))\<rparr>"
proof -
  have b: "ticks_after n < 2 ^ 31 - 1"
    using assms(1) by (auto simp: ticks_after_def)
  note t = ticks_nat [OF b assms(3)]
  consider "n < 4" | "n = 4" | "5 \<le> n" "n < 14" | "n = 14" | "15 \<le> n" by linarith
  then show ?thesis
    by cases (use t assms(2,3) in \<open>auto simp: mlfq_tick_def Let_def level_after_def ticks_after_def\<close>)
qed

text \<open>
  Claim C3. The demotion schedule. A process that starts at priority 0 with a stopwatch of 0
  and takes \<open>n\<close> timer interrupts in user mode is at priority 0 while \<open>n < 5\<close>, at priority 1
  while \<open>5 \<le> n < 15\<close>, and at priority 2 from then on; the stopwatch holds the ticks since the
  last demotion. (The bound keeps the C \<^verbatim>\<open>int\<close> stopwatch from overflowing.)
\<close>

theorem demotion_schedule:
  assumes "priority p = 0" "ticks_used p = 0" "n < 2 ^ 31"
  shows "(mlfq_tick ^^ n) p =
    p\<lparr>priority := (if n < 5 then 0 else if n < 15 then 1 else 2),
      ticks_used := of_nat (if n < 5 then n else if n < 15 then n - 5 else n - 15)\<rparr>"
proof -
  have "(mlfq_tick ^^ n) p = p\<lparr>priority := level_after n, ticks_used := of_nat (ticks_after n)\<rparr>"
    using assms(3)
  proof (induction n)
    case 0
    then show ?case using assms(1,2) by (simp add: level_after_def ticks_after_def)
  next
    case (Suc n)
    then show ?case by (simp add: mlfq_tick_after [of n])
  qed
  then show ?thesis by (simp add: level_after_def ticks_after_def)
qed

theorem demotion_schedule_witness:
  "priority zero_proc = 0 \<and> ticks_used zero_proc = 0 \<and>
   (mlfq_tick ^^ 17) zero_proc = zero_proc\<lparr>priority := 2, ticks_used := 2\<rparr>"
  using demotion_schedule [of zero_proc 17] by (simp add: zero_proc_def)

text \<open>
  Claim C4. Priorities only ever get worse, one level at a time. In every reachable state
  each slot has a priority of 0, 1 or 2 and a stopwatch below the limit of its level, and no
  step lowers the priority number of a process, or raises it by more than one: there is no
  priority boost. (A slot that is UNUSED before the step is the only exception, because
  \<^verbatim>\<open>allocproc()\<close> gives it to a new process.)
\<close>

theorem priority_only_grows:
  assumes "sched_reachable k" "sched_step k k'" "i < NPROC" "p_state (procs k ! i) \<noteq> UNUSED"
  shows "mlfq_ok (procs k ! i) \<and> mlfq_ok (procs k' ! i) \<and>
    (priority (procs k' ! i) = priority (procs k ! i) \<or>
     uint (priority (procs k' ! i)) = uint (priority (procs k ! i)) + 1)"
proof -
  have base: "base_inv k" and lev: "levels_ok k" "levels_ok k'"
    using assms(1,2) by (auto intro: reachable_base reachable_levels sr_step)
  have ok: "mlfq_ok (procs k ! i)" "mlfq_ok (procs k' ! i)" using lev assms(3) by (auto simp: levels_ok_def)
  have "priority (mlfq_tick (procs k ! i)) = priority (procs k ! i) \<or>
     uint (priority (mlfq_tick (procs k ! i))) = uint (priority (procs k ! i)) + 1"
    by (auto simp: mlfq_tick_def Let_def)
  then show ?thesis using sched_step_levels [OF assms(2) base assms(3)] assms(4) ok by auto
qed

theorem priority_only_grows_witness:
  "sched_step (boot_sched 0) (setkilled 0 (boot_sched 0)) \<and>
   p_state (procs (boot_sched 0) ! 0) \<noteq> UNUSED \<and>
   mlfq_ok (procs (setkilled 0 (boot_sched 0)) ! 0)"
proof -
  have s: "sched_step (boot_sched 0) (setkilled 0 (boot_sched 0))" by (rule st_setkilled) simp
  have u: "p_state (procs (boot_sched 0) ! 0) \<noteq> UNUSED" by (simp add: boot_sched_nth)
  show ?thesis using priority_only_grows [OF sr_boot s, of 0] s u by simp
qed

text \<open>
  Claim C5. In every reachable state a process is RUNNING exactly when some CPU runs it, and
  no two CPUs run the same process; no CPU is left with a lock or with interrupts nested.
\<close>

theorem running_on_one_cpu:
  assumes "sched_reachable k"
  shows "(\<forall>i < NPROC. p_state (procs k ! i) = RUNNING \<longleftrightarrow> (\<exists>h < NCPU. myproc h k = Some i)) \<and>
    (\<forall>h < NCPU. \<forall>h' < NCPU. myproc h k \<noteq> None \<longrightarrow> myproc h k = myproc h' k \<longrightarrow> h = h') \<and>
    (\<forall>h < NCPU. noff (cpus k ! h) = 0) \<and>
    (\<forall>i < NPROC. \<not> locked (plock (procs k ! i))) \<and> \<not> locked (wait_lock k)"
proof -
  have qu: "quiet k" and ok: "run_ok (running k) (on_cpu k)"
    using reachable_base [OF assms] by (simp_all add: base_inv_def)
  have my: "on_cpu k h = Some i \<longleftrightarrow> h < NCPU \<and> myproc h k = Some i" for h i
    by (simp add: on_cpu_def myproc_def)
  have "running k i \<longleftrightarrow> (\<exists>h. on_cpu k h = Some i)" for i using ok unfolding run_ok_def by blast
  then have a: "\<forall>i < NPROC. p_state (procs k ! i) = RUNNING \<longleftrightarrow> (\<exists>h < NCPU. myproc h k = Some i)"
    by (auto simp: running_def my)
  have b: "h = h'" if "h < NCPU" "h' < NCPU" "myproc h k = Some i" "myproc h' k = Some i" for h h' i
    using ok that my [of h i] my [of h' i] unfolding run_ok_def by blast
  have b': "\<forall>h < NCPU. \<forall>h' < NCPU. myproc h k \<noteq> None \<longrightarrow> myproc h k = myproc h' k \<longrightarrow> h = h'"
    using b by (metis not_None_eq)
  show ?thesis using a b' qu by (simp add: quiet_def lock_free_def)
qed

text \<open>
  Claim C6. The panics of \<^verbatim>\<open>sched()\<close> are unreachable. In every reachable state, a CPU that
  runs a process can take a timer interrupt in user or kernel mode, give up the CPU with
  \<^verbatim>\<open>yield()\<close>, go to sleep under any free condition lock, or exit: each returns to the scheduler
  with the lock released, the CPU has no process and the same interrupt flag as before, and
  the process is in the state the operation gave it.
\<close>

theorem sched_never_panics:
  assumes "sched_reachable k" "h < NCPU" "myproc h k = Some i" "lock_free lk"
  shows "(\<exists>k'. user_timer h k = Inr k' \<and> myproc h k' = None \<and>
            sie (cpus k' ! h) = sie (cpus k ! h) \<and> p_state (procs k' ! i) = RUNNABLE) \<and>
    (\<exists>k'. kernel_timer h k = Inr k' \<and> myproc h k' = None \<and>
            sie (cpus k' ! h) = sie (cpus k ! h) \<and> p_state (procs k' ! i) = RUNNABLE) \<and>
    (\<exists>lk1 cs k'. acquire h lk (cpus k) = Inr (lk1, cs) \<and>
            sleep h ch lk1 (k\<lparr>cpus := cs\<rparr>) = Inr (lk, k') \<and> myproc h k' = None \<and>
            sie (cpus k' ! h) = sie (cpus k ! h) \<and> p_state (procs k' ! i) = SLEEPING \<and>
            p_chan (procs k' ! i) = ch) \<and>
    (\<exists>k'. kexit_sched h status k = Inr k' \<and> myproc h k' = None \<and>
            sie (cpus k' ! h) = sie (cpus k ! h) \<and> p_state (procs k' ! i) = ZOMBIE \<and>
            xstate (procs k' ! i) = status)"
proof -
  have qu: "quiet k" and ok: "run_ok (running k) (on_cpu k)"
    using reachable_base [OF assms(1)] by (simp_all add: base_inv_def)
  note qs = quietD [OF qu]
  have r: "runs h i k" by (rule runsI [OF qu ok assms(2,3)])
  have st: "i < NPROC" "p_state (procs k ! i) = RUNNING" using running_on_cpu [OF ok assms(2,3)] .
  have h: "h < length (cpus k)" using assms(2) qs by simp
  show ?thesis
    using user_timer_eq [OF r st(2)] kernel_timer_eq [OF r] yield_eq [OF r]
      sleep_eq [OF r assms(4) refl, of ch] kexit_sched_eq [OF r qs(3), of status]
      acquire_free [OF assms(4), of h "cpus k"] h st qs
    by (auto simp: myproc_def left_cpu_def)
qed

text \<open>A CPU that has dispatched the first process.\<close>

definition first_run :: ksched where
  "first_run = entered 0 0 (boot_sched 0)"

lemma first_run_reachable: "sched_reachable first_run" "myproc 0 first_run = Some 0"
  "procs first_run = (procs (boot_sched 0))[0 := resumed (procs (boot_sched 0) ! 0)]"
proof -
  have "scan_entry 0 0 0 (boot_sched 0) = Inr (True, first_run)"
    using scan_entry_cases [OF scanning_cpu(1,2,4) [OF boot_scanning], of 0 0]
    by (simp add: first_run_def boot_sched_nth boot_slot_def zero_proc_def)
  then have "sched_step (boot_sched 0) first_run"
    by (intro st_scan [OF scanning_cpu(2,3,4) [OF boot_scanning], of 0 0]) simp_all
  then show "sched_reachable first_run" by (rule sr_step [OF sr_boot])
  show "myproc 0 first_run = Some 0" "procs first_run = (procs (boot_sched 0))[0 := resumed (procs (boot_sched 0) ! 0)]"
    by (simp_all add: first_run_def entered_def myproc_def boot_sched_eq)
qed

theorem running_on_one_cpu_witness:
  "sched_reachable first_run \<and> myproc 0 first_run = Some 0 \<and> p_state (procs first_run ! 0) = RUNNING \<and>
   myproc 1 first_run \<noteq> Some 0"
proof -
  note t = running_on_one_cpu [OF first_run_reachable(1)]
  have my: "myproc 0 first_run = Some 0" by (rule first_run_reachable(2))
  have "p_state (procs first_run ! 0) = RUNNING \<longleftrightarrow> (\<exists>h < NCPU. myproc h first_run = Some 0)"
    using t [THEN conjunct1] by simp
  then have "p_state (procs first_run ! 0) = RUNNING" using my by (auto intro!: exI [of _ 0])
  moreover have "myproc 0 first_run \<noteq> None \<longrightarrow> myproc 0 first_run = myproc 1 first_run \<longrightarrow> (0 :: nat) = 1"
    using t [THEN conjunct2, THEN conjunct1, THEN spec, THEN mp, THEN spec, THEN mp, of 0 1] by simp
  then have "myproc 1 first_run \<noteq> Some 0" using my by auto
  ultimately show ?thesis using first_run_reachable(1) my by simp
qed

theorem sched_never_panics_witness:
  "sched_reachable first_run \<and> myproc 0 first_run = Some 0 \<and>
   (\<exists>k'. kexit_sched 0 7 first_run = Inr k' \<and> xstate (procs k' ! 0) = 7)"
  using sched_never_panics [OF first_run_reachable(1) _ first_run_reachable(2) lock_free_initlock,
      of "''x''" "TicksChan" 7] first_run_reachable by auto

text \<open>
  Claim C7. No wakeup is lost between exit and wait. In every reachable state, a process that
  sleeps in \<^verbatim>\<open>kwait()\<close> has no exited child that it has not reaped, whether the child was its
  own or was handed to it by \<^verbatim>\<open>reparent()\<close>.
\<close>

theorem wait_sleeper_has_no_zombie:
  assumes "sched_reachable k" "i < NPROC" "p_state (procs k ! i) = SLEEPING"
    "p_chan (procs k ! i) = ProcChan q"
  shows "q = i \<and> zombie_child i (procs k) = None"
proof -
  have "length (procs k) = NPROC" using reachable_base [OF assms(1)] by (simp add: base_inv_def quiet_def)
  then show ?thesis
    using reachable_wait [OF assms(1)] assms(2-4)
    by (auto simp: wait_inv_def zombie_child_def first_idx_None)
qed

text \<open>
  Claim C8. Nobody is orphaned. In every reachable state init exists and has not exited, every
  process that is not init, runnable or exited, has a parent, and every parent exists and has
  not exited itself: each exited process will be found by some \<^verbatim>\<open>kwait()\<close>.
\<close>

theorem every_parent_is_alive:
  assumes "sched_reachable k"
  shows "(\<exists>r. initproc k = Some r \<and> alive k r) \<and>
    (\<forall>i < NPROC. \<forall>p. parent (procs k ! i) = Some p \<longrightarrow> alive k p) \<and>
    (\<forall>i < NPROC. alive k i \<or> p_state (procs k ! i) = ZOMBIE \<longrightarrow> initproc k = Some i \<or>
       (\<exists>p. parent (procs k ! i) = Some p))"
  using reachable_family [OF assms] by (auto simp: family_inv_def)

theorem every_parent_is_alive_witness:
  "sched_reachable first_run \<and> (\<exists>r. initproc first_run = Some r \<and> alive first_run r)"
  using every_parent_is_alive [OF first_run_reachable(1)] first_run_reachable(1) by blast

text \<open>The first process has forked a child and waits for it.\<close>

definition first_waits :: ksched where
  "first_waits =
     (case alloc_slot first_run of
        None \<Rightarrow> first_run
      | Some (i, k1) \<Rightarrow>
          let k2 = fork_runnable i (fork_parent i 0 (alloc_context 0 i k1))
          in case acquire 0 (wait_lock k2) (cpus k2) of
               Inl _ \<Rightarrow> k2
             | Inr (lk, cs) \<Rightarrow>
                 (case sleep 0 (ProcChan 0) lk (k2\<lparr>cpus := cs\<rparr>) of
                    Inl _ \<Rightarrow> k2 | Inr (lk', k') \<Rightarrow> k'))"

lemma first_waits_reachable:
  "sched_reachable first_waits" "p_state (procs first_waits ! 0) = SLEEPING"
  "p_chan (procs first_waits ! 0) = ProcChan 0" "parent (procs first_waits ! 1) = Some 0"
proof -
  let ?k = first_run
  note fr = first_run_reachable
  have len: "length (procs ?k) = NPROC" "length (procs (boot_sched 0)) = NPROC"
    using reachable_base [OF fr(1)] base_inv_boot [of 0] by (simp_all add: base_inv_def quiet_def)
  have nth: "p_state (procs ?k ! 0) = RUNNING" "p_state (procs ?k ! 1) = UNUSED" "p_killed (procs ?k ! 0) = 0"
    using len by (simp_all add: fr(3) resumed_def boot_sched_nth boot_slot_def zero_proc_def)
  have no_z: "p_state (procs ?k ! j) \<noteq> ZOMBIE" if "j < NPROC" for j
    using that len by (simp add: fr(3) nth_upd resumed_def boot_sched_nth boot_slot_def zero_proc_def)
  have "first_idx (\<lambda>p. p_state p = UNUSED) (procs ?k) = Some 1"
    using nth len by (simp add: first_idx_Some)
  then obtain k1 where a: "alloc_slot ?k = Some (1, k1)"
    by (simp add: alloc_slot_def allocpid_def Let_def)
  note al = alloc_slotD [OF a]
  let ?k2 = "alloc_context 0 1 k1" let ?k3 = "fork_parent 1 0 ?k2" let ?k4 = "fork_runnable 1 ?k3"
  have my: "myproc 0 ?k2 = Some 0" "myproc 0 ?k4 = Some 0"
    using fr(2) by (simp_all add: al(3) myproc_def alloc_context_def fork_parent_def fork_runnable_def)
  have st: "p_state (procs ?k2 ! 1) = USED" "p_state (procs ?k3 ! 1) = USED" "parent (procs ?k3 ! 1) = Some 0"
    "parent (procs ?k4 ! 1) = Some 0" "p_killed (procs ?k4 ! 0) = 0" "p_state (procs ?k4 ! 1) = RUNNABLE"
    "length (procs ?k4) = NPROC" "\<And>j. j < NPROC \<Longrightarrow> p_state (procs ?k4 ! j) \<noteq> ZOMBIE"
    using len nth no_z by (simp_all add: al(3) alloc_context_def fork_parent_def fork_runnable_def nth_upd)
  have r4: "sched_reachable ?k4"
  proof (rule sr_step [OF sr_step [OF sr_step [OF fr(1)]]])
    show "sched_step ?k ?k2" by (rule st_allocproc [OF _ fr(2) a]) simp
    show "sched_step ?k2 ?k3" by (rule st_fork_parent [OF _ my(1)]) (use st in simp_all)
    show "sched_step ?k3 ?k4" by (rule st_fork_runnable) (use st in simp_all)
  qed
  have qu: "quiet ?k4" and ok: "run_ok (running ?k4) (on_cpu ?k4)"
    using reachable_base [OF r4] by (simp_all add: base_inv_def)
  note sl = sleep_eq [OF runsI [OF qu ok _ my(2)] quietD(3) [OF qu] refl, of "ProcChan 0"]
  note ac = acquire_free [OF quietD(3) [OF qu], of 0 "cpus ?k4"]
  have w: "\<exists>lk lk' cs. acquire 0 (wait_lock ?k4) (cpus ?k4) = Inr (lk, cs) \<and>
      sleep 0 (ProcChan 0) lk (?k4\<lparr>cpus := cs\<rparr>) = Inr (lk', first_waits)"
    using sl ac by (simp add: first_waits_def a Let_def)
  have fw: "procs first_waits = (procs ?k4)[0 := (procs ?k4 ! 0)\<lparr>p_chan := ProcChan 0,
      p_state := SLEEPING, k_point := InSleep, k_intena := sie (cpus ?k4 ! 0)\<rparr>]"
    using sl ac by (simp add: first_waits_def a Let_def)
  have kid: "zombie_child 0 (procs ?k4) = None" "havekids 0 (procs ?k4)" "killed 0 ?k4 = 0"
    using st by (auto simp: zombie_child_def first_idx_None killed_def havekids_def
        intro!: bexI [of _ "procs ?k4 ! 1"])
  from w have "sched_step ?k4 first_waits"
    using st_kwait_sleep [OF _ my(2) kid] by auto
  with r4 show "sched_reachable first_waits" by (rule sr_step)
  show "p_state (procs first_waits ! 0) = SLEEPING" "p_chan (procs first_waits ! 0) = ProcChan 0"
    "parent (procs first_waits ! 1) = Some 0"
    unfolding fw using st by auto
qed

theorem wait_sleeper_has_no_zombie_witness:
  "sched_reachable first_waits \<and> p_state (procs first_waits ! 0) = SLEEPING \<and>
   p_chan (procs first_waits ! 0) = ProcChan 0 \<and> parent (procs first_waits ! 1) = Some 0 \<and>
   zombie_child 0 (procs first_waits) = None"
  using wait_sleeper_has_no_zombie [OF first_waits_reachable(1) _ first_waits_reachable(2,3)]
    first_waits_reachable by simp

text \<open>One time slice of a CPU-bound process: it is dispatched and runs until the next tick.\<close>

primrec slices :: "nat \<Rightarrow> nat \<Rightarrow> ksched \<Rightarrow> ksched res" where
  "slices h 0 k = Inr k"
| "slices h (Suc n) k = bindR (dispatch h k) (\<lambda>k1. bindR (user_timer h k1) (slices h n))"

lemma slice_eq:
  assumes q: "all_unlocked k" "h < length (cpus k)" "noff (cpus k ! h) = 0"
    and i: "scheduler_pick (procs k) = Some i"
  shows "\<exists>k1 k2. dispatch h k = Inr k1 \<and> myproc h k1 = Some i \<and> user_timer h k1 = Inr k2 \<and>
    procs k2 = (procs k)[i := procs k2 ! i] \<and> length (cpus k2) = length (cpus k) \<and>
    noff (cpus k2 ! h) = 0 \<and> plock (procs k2 ! i) = plock (procs k ! i) \<and>
    p_state (procs k2 ! i) = RUNNABLE \<and>
    priority (procs k2 ! i) = priority (mlfq_tick (procs k ! i))"
proof -
  have il: "i < length (procs k)" "lock_free (plock (procs k ! i))"
    using scheduler_pick_sound(1) [OF i] q(1) by (simp_all add: schedulable_def all_unlocked_def)
  have d: "dispatch h k = Inr (entered h i k)" by (rule dispatch_eq [OF q(2,3) i q(1)])
  have r: "runs h i (entered h i k)" using q il by (simp add: entered_def runs_def myproc_def resumed_def)
  have "priority (mlfq_tick (resumed p)) = priority (mlfq_tick p)" for p
    by (simp add: mlfq_tick_def resumed_def Let_def)
  then show ?thesis
    using d user_timer_eq [OF r] il q by (auto simp: entered_def resumed_def left_cpu_def myproc_def)
qed

lemma slices_pick:
  assumes "all_unlocked k" "h < length (cpus k)" "noff (cpus k ! h) = 0"
    "scheduler_pick (procs k) = Some i" "priority (procs k ! i) = 2"
  shows "\<exists>k'. slices h n k = Inr k' \<and> scheduler_pick (procs k') = Some i \<and> all_unlocked k' \<and>
    length (cpus k') = length (cpus k) \<and> noff (cpus k' ! h) = 0 \<and>
    (\<forall>j < NPROC. j \<noteq> i \<longrightarrow> procs k' ! j = procs k ! j)"
  using assms
proof (induction n arbitrary: k)
  case 0
  then show ?case by simp
next
  case (Suc n)
  obtain k1 k2 where s: "dispatch h k = Inr k1" "user_timer h k1 = Inr k2"
    and k2: "procs k2 = (procs k)[i := procs k2 ! i]" "length (cpus k2) = length (cpus k)"
      "noff (cpus k2 ! h) = 0" "plock (procs k2 ! i) = plock (procs k ! i)"
      "p_state (procs k2 ! i) = RUNNABLE"
      "priority (procs k2 ! i) = priority (mlfq_tick (procs k ! i))"
    using slice_eq [OF Suc.prems(1-4)] by blast
  have pr: "priority (procs k2 ! i) = 2"
    using k2(6) Suc.prems(5) by (simp add: mlfq_tick_def Let_def)
  have len: "length (procs k) = NPROC" "length (procs k2) = NPROC"
    by (use Suc.prems(1) in \<open>simp add: all_unlocked_def\<close>) (subst k2(1), use Suc.prems(1) in \<open>simp add: all_unlocked_def\<close>)
  have oth: "procs k2 ! j = procs k ! j" if "j \<noteq> i" for j
    using that by (subst k2(1)) (simp add: nth_upd)
  have unl: "all_unlocked k2"
    unfolding all_unlocked_def
  proof (intro conjI allI impI len(2))
    fix j assume "j < NPROC"
    then show "lock_free (plock (procs k2 ! j))" using Suc.prems(1) oth [of j] k2(4) by (cases "j = i") (simp_all add: all_unlocked_def)
  qed
  have si: "schedulable (procs k) i" "\<And>j. schedulable (procs k) j \<Longrightarrow> before (procs k) i j"
    using scheduler_pick_sound [OF Suc.prems(4)] by auto
  have sch: "schedulable (procs k2) j \<longleftrightarrow> schedulable (procs k) j" for j
    using oth [of j] si(1) k2(5) pr len by (cases "j = i") (auto simp: schedulable_def)
  have bef: "before (procs k2) i j" if "schedulable (procs k2) j" for j
    using si(2) [of j] that sch oth [of j] pr Suc.prems(5) by (cases "j = i") (auto simp: before_def)
  have pick: "scheduler_pick (procs k2) = Some i"
    using si(1) sch bef by (auto simp: scheduler_pick_Some)
  have "\<exists>k'. slices h n k2 = Inr k' \<and> scheduler_pick (procs k') = Some i \<and> all_unlocked k' \<and>
      length (cpus k') = length (cpus k2) \<and> noff (cpus k' ! h) = 0 \<and>
      (\<forall>j < NPROC. j \<noteq> i \<longrightarrow> procs k' ! j = procs k2 ! j)"
    by (rule Suc.IH) (use unl k2 pick pr Suc.prems in simp_all)
  then show ?case using s oth k2(2) by auto
qed

text \<open>
  Claim C9. At the lowest level the table order decides, every time. Let no lock be held, let process \<open>i\<close> be
  RUNNABLE at priority 2, and let every other RUNNABLE process be at priority 2 in a later slot. Then however
  many time slices CPU \<open>h\<close> gives out, as long as the processes it runs use up their slices and nothing
  else changes the table, it gives every one of them to \<open>i\<close>: the other processes are exactly where they
  were, and the next round dispatches \<open>i\<close> again.
\<close>

theorem lowest_level_starves_later_slots:
  assumes "quiet k" "h < NCPU" "i < NPROC" "p_state (procs k ! i) = RUNNABLE" "priority (procs k ! i) = 2"
    "\<forall>j < NPROC. p_state (procs k ! j) = RUNNABLE \<longrightarrow> priority (procs k ! j) = 2 \<and> i \<le> j"
  shows "\<exists>k' k''. slices h n k = Inr k' \<and> (\<forall>j < NPROC. j \<noteq> i \<longrightarrow> procs k' ! j = procs k ! j) \<and>
    dispatch h k' = Inr k'' \<and> myproc h k'' = Some i"
proof -
  note qs = quietD [OF assms(1)]
  have unl: "all_unlocked k" using qs by (simp add: all_unlocked_def)
  have pick: "scheduler_pick (procs k) = Some i"
    using assms(3-6) qs by (auto simp: scheduler_pick_Some schedulable_def before_def)
  obtain k' where k': "slices h n k = Inr k'" "scheduler_pick (procs k') = Some i" "all_unlocked k'"
      "length (cpus k') = length (cpus k)" "noff (cpus k' ! h) = 0" "\<forall>j < NPROC. j \<noteq> i \<longrightarrow> procs k' ! j = procs k ! j"
    using slices_pick [OF unl _ _ pick assms(5), of h n] qs assms(2) by auto
  then show ?thesis using slice_eq [OF k'(3) _ k'(5,2)] qs assms(2) by auto
qed

text \<open>Two CPU-bound processes at the lowest level.\<close>

definition two_hogs :: ksched where
  "two_hogs = upd_proc 1 (\<lambda>p. p\<lparr>p_state := RUNNABLE, priority := 2\<rparr>)
     (upd_proc 0 (\<lambda>p. p\<lparr>priority := 2\<rparr>) (boot_sched 0))"

theorem lowest_level_starves_later_slots_witness:
  "p_state (procs two_hogs ! 1) = RUNNABLE \<and> priority (procs two_hogs ! 1) = 2 \<and>
   (\<exists>k' k''. slices 0 1000000 two_hogs = Inr k' \<and> procs k' ! 1 = procs two_hogs ! 1 \<and>
      dispatch 0 k' = Inr k'' \<and> myproc 0 k'' = Some 0)"
proof -
  have b: "quiet (boot_sched 0)" "length (procs (boot_sched 0)) = NPROC"
    using base_inv_boot [of 0] by (simp_all add: base_inv_def quiet_def)
  have nth: "p_state (procs two_hogs ! 0) = RUNNABLE" "priority (procs two_hogs ! 0) = 2"
    "p_state (procs two_hogs ! 1) = RUNNABLE" "priority (procs two_hogs ! 1) = 2"
    "\<And>j. 1 < j \<Longrightarrow> j < NPROC \<Longrightarrow> p_state (procs two_hogs ! j) = UNUSED"
    "\<And>j. j < NPROC \<Longrightarrow> plock (procs two_hogs ! j) = plock (procs (boot_sched 0) ! j)"
    using b(2) by (simp_all add: two_hogs_def boot_sched_nth nth_upd boot_slot_def zero_proc_def)
  have "cpus two_hogs = cpus (boot_sched 0)" "length (procs two_hogs) = NPROC" "wait_lock two_hogs = wait_lock (boot_sched 0)"
    "tickslock two_hogs = tickslock (boot_sched 0)" using b by (simp_all add: two_hogs_def)
  then have q: "quiet two_hogs" using b(1) nth(6) by (simp add: quiet_def)
  have "\<forall>j < NPROC. p_state (procs two_hogs ! j) = RUNNABLE \<longrightarrow> priority (procs two_hogs ! j) = 2 \<and> 0 \<le> j"
  proof (intro allI impI)
    fix j assume "j < NPROC" "p_state (procs two_hogs ! j) = RUNNABLE"
    then have "j = 0 \<or> j = 1" using nth(5) [of j] by (cases "1 < j") auto
    then show "priority (procs two_hogs ! j) = 2 \<and> 0 \<le> j" using nth(2,4) by auto
  qed
  then have "\<exists>k' k''. slices 0 1000000 two_hogs = Inr k' \<and> (\<forall>j < NPROC. j \<noteq> 0 \<longrightarrow> procs k' ! j = procs two_hogs ! j) \<and>
      dispatch 0 k' = Inr k'' \<and> myproc 0 k'' = Some 0"
    by (intro lowest_level_starves_later_slots [OF q]) (use nth in simp_all)
  then show ?thesis using nth(3,4) by auto
qed

text \<open>Pids in use are positive, below the next pid, and distinct; a free slot has pid 0.\<close>

definition pid_inv :: "ksched \<Rightarrow> bool" where
  "pid_inv k \<longleftrightarrow>
     0 < sint (nextpid k) \<and>
     (\<forall>i < NPROC. p_state (procs k ! i) = UNUSED \<longrightarrow> p_pid (procs k ! i) = 0) \<and>
     (\<forall>i < NPROC. p_state (procs k ! i) \<noteq> UNUSED \<longrightarrow>
        0 < sint (p_pid (procs k ! i)) \<and> sint (p_pid (procs k ! i)) < sint (nextpid k)) \<and>
     (\<forall>i < NPROC. \<forall>j < NPROC. p_state (procs k ! i) \<noteq> UNUSED \<longrightarrow>
        p_pid (procs k ! i) = p_pid (procs k ! j) \<longrightarrow> i = j)"

lemma pid_inv_same:
  assumes "pid_inv k" "nextpid k' = nextpid k"
    "\<And>i. i < NPROC \<Longrightarrow> p_pid (procs k' ! i) = p_pid (procs k ! i)"
    "\<And>i. i < NPROC \<Longrightarrow> (p_state (procs k' ! i) = UNUSED) = (p_state (procs k ! i) = UNUSED)"
  shows "pid_inv k'"
  using assms unfolding pid_inv_def by simp

lemma pid_inv_alloc:
  assumes inv: "pid_inv k" and small: "sint (nextpid k) < 2 ^ 31 - 1" and i: "i < NPROC"
    and len: "length (procs k) = NPROC"
    and k': "nextpid k' = nextpid k + 1" "procs k' = (procs k)[i := procs k' ! i]"
      "p_pid (procs k' ! i) = nextpid k" "p_state (procs k' ! i) = USED"
  shows "pid_inv k'"
proof -
  have np: "sint (nextpid k') = sint (nextpid k) + 1" using sint_add_one [OF small] k'(1) by simp
  have oth: "procs k' ! j = procs k ! j" if "j \<noteq> i" for j
    using that by (subst k'(2)) (simp add: nth_upd)
  have lt: "sint (p_pid (procs k ! j)) < sint (nextpid k)" if "j < NPROC" for j
    using inv that by (cases "p_state (procs k ! j) = UNUSED") (auto simp: pid_inv_def)
  then have ne: "p_pid (procs k ! j) \<noteq> nextpid k" if "j < NPROC" for j
    using that by fastforce
  show ?thesis
    unfolding pid_inv_def
  proof (intro conjI allI impI)
    show "0 < sint (nextpid k')" using np inv by (simp add: pid_inv_def)
  next
    fix j assume "j < NPROC" "p_state (procs k' ! j) = UNUSED"
    then show "p_pid (procs k' ! j) = 0" using inv oth [of j] k'(4) by (cases "j = i") (auto simp: pid_inv_def)
  next
    fix j assume j: "j < NPROC" "p_state (procs k' ! j) \<noteq> UNUSED"
    then show "0 < sint (p_pid (procs k' ! j))"
      using inv oth [of j] k'(3) by (cases "j = i") (auto simp: pid_inv_def)
    show "sint (p_pid (procs k' ! j)) < sint (nextpid k')"
      using j lt [of j] oth [of j] k'(3) np by (cases "j = i") auto
  next
    fix j l assume jl: "j < NPROC" "l < NPROC" "p_state (procs k' ! j) \<noteq> UNUSED"
      "p_pid (procs k' ! j) = p_pid (procs k' ! l)"
    show "j = l"
    proof (cases "j = i \<or> l = i")
      case True
      then show ?thesis using jl ne [of j] ne [of l] oth [of j] oth [of l] k'(3) by metis
    next
      case False
      then show ?thesis using jl inv oth [of j] oth [of l] unfolding pid_inv_def by metis
    qed
  qed
qed

lemma pid_inv_free:
  assumes inv: "pid_inv k" and c: "c < NPROC" and len: "length (procs k) = NPROC"
  shows "pid_inv (free_slot c k)"
proof -
  have nth: "procs (free_slot c k) ! j = (if j = c then procs (free_slot c k) ! c else procs k ! j)"
    "p_pid (procs (free_slot c k) ! c) = 0" "p_state (procs (free_slot c k) ! c) = UNUSED" for j
    using c len by (simp_all add: free_slot_def nth_upd)
  have un: "p_pid (procs k ! j) \<noteq> 0" if "j < NPROC" "p_state (procs k ! j) \<noteq> UNUSED" for j
    using inv that by (auto simp: pid_inv_def)
  have np: "nextpid (free_slot c k) = nextpid k" by (simp add: free_slot_def)
  show ?thesis
    unfolding pid_inv_def np
  proof (intro conjI allI impI)
    fix j l assume jl: "j < NPROC" "l < NPROC" "p_state (procs (free_slot c k) ! j) \<noteq> UNUSED"
      "p_pid (procs (free_slot c k) ! j) = p_pid (procs (free_slot c k) ! l)"
    then have jc: "j \<noteq> c" using nth(3) by auto
    have "p_state (procs k ! j) \<noteq> UNUSED" using jl(3) jc nth(1) [of j] by simp
    then have "p_pid (procs k ! j) \<noteq> 0" by (rule un [OF jl(1)])
    then have "l \<noteq> c" using jl jc nth(1) [of j] nth(2) by auto
    then have "p_pid (procs k ! j) = p_pid (procs k ! l)" "p_state (procs k ! j) \<noteq> UNUSED"
      using jl jc nth(1) [of j] nth(1) [of l] by simp_all
    then show "j = l" using inv jl(1,2) unfolding pid_inv_def by blast
  next
    show "0 < sint (nextpid k)" using inv by (simp add: pid_inv_def)
  next
    fix j assume "j < NPROC" "p_state (procs (free_slot c k) ! j) = UNUSED"
    then show "p_pid (procs (free_slot c k) ! j) = 0"
      using inv nth(2) nth(1) [of j] by (cases "j = c") (simp_all add: pid_inv_def)
  next
    fix j assume j: "j < NPROC" "p_state (procs (free_slot c k) ! j) \<noteq> UNUSED"
    then have "procs (free_slot c k) ! j = procs k ! j" using nth(1) [of j] nth(3) by (cases "j = c") auto
    then show "0 < sint (p_pid (procs (free_slot c k) ! j))"
      "sint (p_pid (procs (free_slot c k) ! j)) < sint (nextpid k)"
      using inv j by (simp_all add: pid_inv_def)
  qed
qed

lemma pid_inv_step:
  assumes step: "sched_step k k'" and base: "base_inv k" and inv: "pid_inv k"
    and small: "sint (nextpid k) < 2 ^ 31 - 1"
  shows "pid_inv k'"
proof -
  have len: "length (procs k) = NPROC" using base by (simp add: base_inv_def quiet_def)
  from step base show ?thesis
  proof (cases rule: sched_step_forms)
    case (wake h ch cs t)
    show ?thesis by (rule pid_inv_same [OF inv]) (use wake len in \<open>auto simp: wakeup_nth\<close>)
  next
    case (preempt h i f b)
    show ?thesis
      by (rule pid_inv_same [OF inv])
         (use preempt len runs_alive [OF base preempt(1,2)] in \<open>auto simp: nth_upd\<close>)
  next
    case (sleeps h i ch b)
    show ?thesis
      by (rule pid_inv_same [OF inv])
         (use sleeps len runs_alive [OF base sleeps(1,2)] in \<open>auto simp: nth_upd\<close>)
  next
    case (frees c)
    then show ?thesis using pid_inv_free [OF inv frees(1) len] by simp
  next
    case (exits h i st b)
    note al = runs_alive [OF base exits(1,2)]
    have un: "(p_state (exit_table h i k ! j) = UNUSED) = (p_state (procs k ! j) = UNUSED)"
      if "j < NPROC" for j
      using exit_table_frame(6) [of j k h i] that len by auto
    show ?thesis
      by (rule pid_inv_same [OF inv])
         (use exits(4) al un exit_table_frame(5) [of _ k h i] len in \<open>auto simp: nth_upd\<close>)
  next
    case (allocs i ctx)
    show ?thesis by (rule pid_inv_alloc [OF inv small allocs(1) len]) (use allocs len in simp_all)
  qed (rule pid_inv_same [OF inv];
       use len in \<open>auto simp: nth_upd resumed_def setkilled_def fork_parent_def fork_runnable_def\<close>)+
qed

lemma pid_invD:
  "pid_inv k \<Longrightarrow> i < NPROC \<Longrightarrow> p_state (procs k ! i) = UNUSED \<Longrightarrow> p_pid (procs k ! i) = 0"
  "pid_inv k \<Longrightarrow> i < NPROC \<Longrightarrow> p_state (procs k ! i) \<noteq> UNUSED \<Longrightarrow> j < NPROC \<Longrightarrow>
     p_pid (procs k ! i) = p_pid (procs k ! j) \<Longrightarrow> i = j"
  unfolding pid_inv_def by blast+

text \<open>The states reachable with \<open>n\<close> calls of \<^verbatim>\<open>allocpid()\<close>.\<close>

inductive sched_run :: "nat \<Rightarrow> ksched \<Rightarrow> bool" where
  run_boot: "sched_run 0 (boot_sched fa)"
| run_step: "sched_run n k \<Longrightarrow> sched_step k k' \<Longrightarrow> nextpid k' = nextpid k \<Longrightarrow> sched_run n k'"
| run_alloc: "sched_run n k \<Longrightarrow> sched_step k k' \<Longrightarrow> nextpid k' \<noteq> nextpid k \<Longrightarrow> sched_run (Suc n) k'"

lemma sched_run_reachable: "sched_run n k \<Longrightarrow> sched_reachable k"
  by (induction rule: sched_run.induct) (auto intro: sr_boot sr_step)

lemma nextpid_step:
  "sched_step k k' \<Longrightarrow> base_inv k \<Longrightarrow> nextpid k' = nextpid k \<or> nextpid k' = nextpid k + 1"
  by (erule sched_step_forms) (auto simp: free_slot_def setkilled_def fork_parent_def fork_runnable_def)

lemma pid_inv_boot: "pid_inv (boot_sched fa)"
  by (simp add: pid_inv_def boot_sched_nth boot_slot_def zero_proc_def) (simp add: boot_sched_eq)

lemma pid_inv_run:
  "sched_run n k \<Longrightarrow> n < 2 ^ 31 - 3 \<Longrightarrow> pid_inv k \<and> sint (nextpid k) \<le> int n + 2"
proof (induction rule: sched_run.induct)
  case (run_boot fa)
  then show ?case using pid_inv_boot by (simp add: boot_sched_eq)
next
  case (run_step n k k')
  then have IH: "pid_inv k" "sint (nextpid k) \<le> int n + 2" by simp_all
  have base: "base_inv k" by (rule reachable_base [OF sched_run_reachable [OF run_step(1)]])
  have small: "sint (nextpid k) < 2 ^ 31 - 1" using IH run_step(5) by simp
  show ?case using pid_inv_step [OF run_step(2) base IH(1) small] IH(2) run_step(3) by simp
next
  case (run_alloc n k k')
  then have IH: "pid_inv k" "sint (nextpid k) \<le> int n + 2" "n < 2 ^ 31 - 4" by simp_all
  have base: "base_inv k" by (rule reachable_base [OF sched_run_reachable [OF run_alloc(1)]])
  have small: "sint (nextpid k) < 2 ^ 31 - 1" using IH by simp
  have "sint (nextpid k') \<le> int (Suc n) + 2"
    using nextpid_step [OF run_alloc(2) base] sint_add_one [OF small] IH(2) by auto
  then show ?case using pid_inv_step [OF run_alloc(2) base IH(1) small] by simp
qed

text \<open>
  Claim C10. Pids are unique. In every state the kernel reaches while it has made
  fewer than \<^verbatim>\<open>2^31 - 3\<close> processes, a process in use has a positive pid, no other slot has the same
  pid, and a free slot has pid 0. (The bound keeps the C \<^verbatim>\<open>int\<close> \<^verbatim>\<open>nextpid\<close> from overflowing.)
\<close>

theorem pids_are_unique:
  assumes "sched_run n k" "n < 2 ^ 31 - 3" "i < NPROC" "p_state (procs k ! i) \<noteq> UNUSED"
  shows "0 < sint (p_pid (procs k ! i)) \<and>
    (\<forall>j < NPROC. p_pid (procs k ! j) = p_pid (procs k ! i) \<longrightarrow> j = i) \<and>
    (\<forall>j < NPROC. p_state (procs k ! j) = UNUSED \<longrightarrow> p_pid (procs k ! j) = 0)"
proof -
  have inv: "pid_inv k" using pid_inv_run [OF assms(1,2)] by simp
  have "j = i" if "j < NPROC" "p_pid (procs k ! j) = p_pid (procs k ! i)" for j
    using inv assms(3,4) that unfolding pid_inv_def by metis
  then show ?thesis using inv assms(3,4) by (auto simp: pid_inv_def)
qed

theorem pids_are_unique_witness:
  "sched_run 0 (boot_sched 0) \<and> p_state (procs (boot_sched 0) ! 0) \<noteq> UNUSED \<and>
   0 < sint (p_pid (procs (boot_sched 0) ! 0))"
proof -
  have u: "p_state (procs (boot_sched 0) ! 0) \<noteq> UNUSED" by (simp add: boot_sched_nth)
  show ?thesis using pids_are_unique [OF run_boot [of 0], of 0] run_boot [of 0] u by simp
qed

text \<open>
  Claim C11. \<^verbatim>\<open>kkill(pid)\<close> for the pid of a process in use, with the bound of C9, returns 0,
  marks exactly that process killed, makes it RUNNABLE when it sleeps and otherwise leaves its
  state; a positive pid that no process has gives -1 and changes nothing.
\<close>

theorem kkill_hits_its_target:
  assumes "sched_run n k" "n < 2 ^ 31 - 3"
  shows "(\<forall>i < NPROC. p_state (procs k ! i) \<noteq> UNUSED \<longrightarrow>
       kkill (p_pid (procs k ! i)) k =
         (0, k\<lparr>procs := (procs k)[i := (procs k ! i)\<lparr>p_killed := 1, p_state :=
            (if p_state (procs k ! i) = SLEEPING then RUNNABLE else p_state (procs k ! i))\<rparr>]\<rparr>)) \<and>
    (\<forall>pid. 0 < sint pid \<longrightarrow> (\<forall>i < NPROC. p_state (procs k ! i) = UNUSED \<or> p_pid (procs k ! i) \<noteq> pid)
       \<longrightarrow> kkill pid k = (- 1, k))"
proof -
  have inv: "pid_inv k" using pid_inv_run [OF assms] by simp
  have len: "length (procs k) = NPROC"
    using reachable_base [OF sched_run_reachable [OF assms(1)]] by (simp add: base_inv_def quiet_def)
  have "first_idx (\<lambda>p. p_pid p = p_pid (procs k ! i)) (procs k) = Some i"
    if i: "i < NPROC" "p_state (procs k ! i) \<noteq> UNUSED" for i
  proof -
    have "p_pid (procs k ! i) \<noteq> p_pid (procs k ! j)" if "j < i" for j
      using pid_invD(2) [OF inv i, of j] i that by auto
    then have "p_pid (procs k ! j) \<noteq> p_pid (procs k ! i)" if "j < i" for j
      using that by metis
    then show ?thesis using i len by (simp add: first_idx_Some)
  qed
  moreover have "first_idx (\<lambda>p. p_pid p = pid) (procs k) = None"
    if pid: "0 < sint pid"
      "\<forall>i < NPROC. p_state (procs k ! i) = UNUSED \<or> p_pid (procs k ! i) \<noteq> pid" for pid
  proof -
    have "p_pid (procs k ! i) \<noteq> pid" if "i < NPROC" for i
      using pid pid_invD(1) [OF inv that] that by auto
    then show ?thesis using len by (simp add: first_idx_None)
  qed
  ultimately show ?thesis by (simp add: kkill_alt upd_proc_def)
qed

theorem kkill_hits_its_target_witness:
  "sched_run 0 (boot_sched 0) \<and> fst (kkill 1 (boot_sched 0)) = 0 \<and> kkill 9 (boot_sched 0) = (- 1, boot_sched 0)"
proof -
  have p: "p_state (procs (boot_sched 0) ! 0) \<noteq> UNUSED" "p_pid (procs (boot_sched 0) ! 0) = 1"
    by (simp_all add: boot_sched_nth)
  have no9: "\<forall>i < NPROC. p_state (procs (boot_sched 0) ! i) = UNUSED \<or> p_pid (procs (boot_sched 0) ! i) \<noteq> 9"
    by (simp add: boot_sched_nth boot_slot_def zero_proc_def)
  note t = kkill_hits_its_target [OF run_boot [of 0]]
  have "kkill (p_pid (procs (boot_sched 0) ! 0)) (boot_sched 0) = (0, snd (kkill (p_pid (procs (boot_sched 0) ! 0)) (boot_sched 0)))"
    using t [THEN conjunct1] p(1) by simp
  then have "fst (kkill 1 (boot_sched 0)) = 0" using p(2) by (metis fst_conv)
  moreover have "kkill 9 (boot_sched 0) = (- 1, boot_sched 0)"
    using t [THEN conjunct2, THEN spec, of 9] no9 by simp
  ultimately show ?thesis using run_boot [of 0] by simp
qed

text \<open>
  Claim C12. \<^verbatim>\<open>kkill(0)\<close> with a free slot in the table. In every state the kernel reaches, with the bound of C9,
  in which \<^verbatim>\<open>allocproc()\<close> would take slot \<open>i\<close>, \<^verbatim>\<open>kkill(0)\<close> finds that slot, because free slots have pid 0: it
  reports success and marks the free slot killed, and \<^verbatim>\<open>allocproc()\<close> hands the slot out without clearing the
  mark, so the next process is born killed.
\<close>

theorem kkill_zero_poisons_free_slot:
  assumes "sched_run n k" "n < 2 ^ 31 - 3" "alloc_slot k = Some (i, k0)"
  shows "\<exists>k1 k2. kkill 0 k = (0, k1) \<and> p_state (procs k1 ! i) = UNUSED \<and>
     alloc_slot k1 = Some (i, k2) \<and> p_state (procs k2 ! i) = USED \<and> killed i k2 = 1"
proof -
  have inv: "pid_inv k" using pid_inv_run [OF assms(1,2)] by simp
  have len: "length (procs k) = NPROC"
    using reachable_base [OF sched_run_reachable [OF assms(1)]] by (simp add: base_inv_def quiet_def)
  have f: "first_idx (\<lambda>p. p_state p = UNUSED) (procs k) = Some i"
    using assms(3) by (simp add: alloc_slot_def allocpid_def split: option.splits)
  then have i: "i < NPROC" "p_state (procs k ! i) = UNUSED" "\<And>j. j < i \<Longrightarrow> p_state (procs k ! j) \<noteq> UNUSED"
    using len by (auto simp: first_idx_Some)
  have "p_pid (procs k ! j) \<noteq> 0" if "j < i" for j
    using inv i(1) i(3) [OF that] that unfolding pid_inv_def by (metis less_irrefl order_less_trans sint_0)
  then have z: "first_idx (\<lambda>p. p_pid p = 0) (procs k) = Some i"
    using i(1) len pid_invD(1) [OF inv i(1,2)] by (simp add: first_idx_Some)
  let ?k1 = "upd_proc i (\<lambda>p. p\<lparr>p_killed := 1, p_state := (if p_state p = SLEEPING then RUNNABLE else p_state p)\<rparr>) k"
  have kk: "kkill 0 k = (0, ?k1)" using z by (simp add: kkill_alt)
  have "first_idx (\<lambda>p. p_state p = UNUSED) (procs ?k1) = Some i"
    using i len by (simp add: first_idx_Some)
  then have "alloc_slot ?k1 = Some (i, snd (the (alloc_slot ?k1)))"
    by (simp add: alloc_slot_def allocpid_def)
  moreover have "p_state (procs (snd (the (alloc_slot ?k1))) ! i) = USED" "killed i (snd (the (alloc_slot ?k1))) = 1"
    using \<open>first_idx _ (procs ?k1) = Some i\<close> i len by (simp_all add: alloc_slot_def allocpid_def killed_def)
  ultimately show ?thesis using kk i len by auto
qed

theorem kkill_zero_poisons_free_slot_witness:
  "sched_run 0 (boot_sched 0) \<and>
   (\<exists>k1 k2. kkill 0 (boot_sched 0) = (0, k1) \<and> alloc_slot k1 = Some (1, k2) \<and> killed 1 k2 = 1)"
proof -
  let ?k = "boot_sched 0"
  have "length (procs ?k) = NPROC" using base_inv_boot [of 0] by (simp add: base_inv_def quiet_def)
  moreover have "p_state (procs ?k ! 0) = RUNNABLE" "p_state (procs ?k ! 1) = UNUSED"
    by (simp_all add: boot_sched_nth boot_slot_def zero_proc_def)
  ultimately have "first_idx (\<lambda>p. p_state p = UNUSED) (procs ?k) = Some 1" by (simp add: first_idx_Some)
  then obtain k0 where "alloc_slot ?k = Some (1, k0)" by (simp add: alloc_slot_def allocpid_def)
  from kkill_zero_poisons_free_slot [OF run_boot _ this] run_boot [of 0] show ?thesis by auto
qed

end
