(* ===== verification/Kalloc.thy ===== *)
theory Kalloc
  imports KString
begin

text \<open>
  The physical page allocator (\<^verbatim>\<open>kernel/kalloc.c\<close>). The free list is a linked list through
  the free pages themselves: the first eight bytes of a free page hold the address of the
  next one, little endian. The kernel maps physical memory at its own addresses, so a
  pointer to a page is the physical address of the page.

  The linker symbol \<^verbatim>\<open>end\<close> is the field \<open>kend\<close>, which no operation writes. The lock
  \<^verbatim>\<open>kmem.lock\<close> makes the list operation of each call one step.
\<close>

section \<open>Words in memory\<close>

primrec load_bytes :: "nat \<Rightarrow> memory \<Rightarrow> u64 \<Rightarrow> u64" where
  "load_bytes 0 m a = 0"
| "load_bytes (Suc k) m a = ucast (m a) OR push_bit 8 (load_bytes k m (a + 1))"

primrec store_bytes :: "nat \<Rightarrow> memory \<Rightarrow> u64 \<Rightarrow> u64 \<Rightarrow> memory" where
  "store_bytes 0 m a v = m"
| "store_bytes (Suc k) m a v = store_bytes k (m(a := ucast v)) (a + 1) (drop_bit 8 v)"

definition load64 :: "memory \<Rightarrow> u64 \<Rightarrow> u64" where
  "load64 m a = load_bytes 8 m a"

definition store64 :: "memory \<Rightarrow> u64 \<Rightarrow> u64 \<Rightarrow> memory" where
  "store64 m a v = store_bytes 8 m a v"

section \<open>Operations\<close>

record pmem =
  mem :: memory
  freelist :: u64
  kend :: u64

definition kfree :: "u64 \<Rightarrow> pmem \<Rightarrow> pmem res" where
  "kfree pa s =
     (if pa mod PGSIZE \<noteq> 0 \<or> pa < kend s \<or> PHYSTOP \<le> pa then Inl (Panic ''kfree'')
      else let m1 = memset (mem s) pa 1 (ucast PGSIZE);
               m2 = store64 m1 pa (freelist s)
           in Inr (s\<lparr>mem := m2, freelist := pa\<rparr>))"

definition kalloc :: "pmem \<Rightarrow> u64 \<times> pmem" where
  "kalloc s =
     (let r = freelist s
      in if r \<noteq> 0
         then let s1 = s\<lparr>freelist := load64 (mem s) r\<rparr>
              in (r, s1\<lparr>mem := memset (mem s1) r 5 (ucast PGSIZE)\<rparr>)
         else (r, s))"

text \<open>
  The loop of \<^verbatim>\<open>freerange()\<close> ends because \<^verbatim>\<open>kfree\<close> panics at \<^verbatim>\<open>PHYSTOP\<close>, long before the
  pointer could wrap around.
\<close>

lemma kfree_InrD:
  assumes "kfree pa s = Inr s'"
  shows "page_aligned pa" "kend s \<le> pa" "pa < PHYSTOP"
    "s' = s\<lparr>mem := store64 (memset (mem s) pa 1 4096) pa (freelist s), freelist := pa\<rparr>"
  using assms by (auto simp: kfree_def Let_def split: if_splits)

function freerange_loop :: "u64 \<Rightarrow> u64 \<Rightarrow> pmem \<Rightarrow> pmem res" where
  "freerange_loop p pa_end s =
     (if p + PGSIZE \<le> pa_end
      then bindR (kfree p s) (\<lambda>s1. freerange_loop (p + PGSIZE) pa_end s1)
      else Inr s)"
  by pat_completeness auto

termination
proof (relation "measure (\<lambda>(p, e, s). 2 ^ 64 - unat p)")
  fix p pa_end :: u64 and s x :: pmem
  assume "kfree p s = Inr x"
  then have "p < PHYSTOP" by (rule kfree_InrD)
  then have "unat (p + PGSIZE) = unat p + 4096" "unat p < 2 ^ 32"
    by (simp_all add: unat_word_ariths word_less_nat_alt)
  then show "((p + PGSIZE, pa_end, x), p, pa_end, s) \<in> measure (\<lambda>(p, e, s). 2 ^ 64 - unat p)"
    by simp
qed simp

declare freerange_loop.simps [simp del]

definition freerange :: "u64 \<Rightarrow> u64 \<Rightarrow> pmem \<Rightarrow> pmem res" where
  "freerange pa_start pa_end s = freerange_loop (PGROUNDUP pa_start) pa_end s"

definition kinit :: "pmem \<Rightarrow> pmem res" where
  "kinit s = freerange (kend s) PHYSTOP s"

section \<open>Words read back what was written\<close>

lemma bit_load_bytes:
  "bit (load_bytes k m a) n \<longleftrightarrow> n < 8 * k \<and> n < 64 \<and> bit (m (a + of_nat (n div 8))) (n mod 8)"
proof (induction k arbitrary: a n)
  case 0
  show ?case by simp
next
  case (Suc k)
  show ?case
  proof (cases "n < 8")
    case True
    then show ?thesis by (auto simp: bit_or_iff bit_push_bit_iff bit_ucast_iff)
  next
    case False
    then obtain d where n: "n = d + 8" by (metis add.commute le_Suc_ex not_less)
    have "\<not> bit (m a) n" using False by (auto dest: bit_imp_le_length)
    then have "bit (load_bytes (Suc k) m a) n \<longleftrightarrow> n < 64 \<and> bit (load_bytes k m (a + 1)) d"
      by (auto simp: bit_or_iff bit_push_bit_iff bit_ucast_iff n)
    moreover have "(d + 8) div 8 = Suc (d div 8)" "(d + 8) mod 8 = d mod 8" by simp_all
    ultimately show ?thesis by (simp add: Suc n) (auto simp: algebra_simps)
  qed
qed

lemma store_bytes_eq:
  "k \<le> 8 \<Longrightarrow> store_bytes k m a v =
     (\<lambda>x. if unat (x - a) < k then ucast (drop_bit (8 * unat (x - a)) v) else m x)"
proof (induction k arbitrary: m a v)
  case 0
  show ?case by simp
next
  case (Suc k)
  have IH: "store_bytes k (m(a := ucast v)) (a + 1) (drop_bit 8 v) =
     (\<lambda>x. if unat (x - (a + 1)) < k then ucast (drop_bit (8 * unat (x - (a + 1))) (drop_bit 8 v))
          else (m(a := ucast v)) x)"
    by (rule Suc.IH) (use Suc.prems in simp)
  show ?case
  proof
    fix x
    show "store_bytes (Suc k) m a v x =
      (if unat (x - a) < Suc k then ucast (drop_bit (8 * unat (x - a)) v) else m x)"
    proof (cases "x = a")
      case True
      then show ?thesis using Suc.prems offset_step [of a a] by (simp add: IH)
    next
      case False
      note off = offset_step [of x a] offset_pos [OF False]
      then have lt: "unat (x - (a + 1)) < k \<longleftrightarrow> unat (x - a) < Suc k" using False by auto
      have dr: "8 * unat (x - (a + 1)) + 8 = 8 * unat (x - a)" using off False by simp
      have "drop_bit (8 * unat (x - (a + 1))) (drop_bit 8 v) = drop_bit (8 * unat (x - a)) v"
        by (simp only: drop_bit_drop_bit dr)
      then show ?thesis using False lt by (simp add: IH)
    qed
  qed
qed

lemma store64_eq:
  "store64 m a v = (\<lambda>x. if unat (x - a) < 8 then ucast (drop_bit (8 * unat (x - a)) v) else m x)"
  by (simp add: store64_def store_bytes_eq)

lemma unat_of_nat_small: "i < 2 ^ 32 \<Longrightarrow> unat (of_nat i :: u64) = i"
  by (simp add: unat_of_nat take_bit_nat_eq_self_iff)

lemma bit_load64:
  "bit (load64 m a) n \<longleftrightarrow> n < 64 \<and> bit (m (a + of_nat (n div 8))) (n mod 8)"
  by (auto simp: load64_def bit_load_bytes)

lemma load64_store64_same [simp]: "load64 (store64 m a v) a = v"
proof (rule bit_word_eqI)
  fix n assume n: "n < LENGTH(64)"
  then have d: "n div 8 < 8" and u: "unat (of_nat (n div 8) :: u64) = n div 8"
    by (auto intro!: unat_of_nat_small)
  have "8 * (n div 8) + n mod 8 = n" by simp
  then have "bit (ucast (drop_bit (8 * (n div 8)) v) :: u8) (n mod 8) = bit v n"
    by (simp add: bit_ucast_iff bit_drop_bit_eq)
  then show "bit (load64 (store64 m a v) a) n = bit v n"
    using n d u by (simp add: bit_load64 store64_eq)
qed

lemma load64_cong:
  assumes "\<And>i. i < 8 \<Longrightarrow> m' (a + of_nat i) = m (a + of_nat i)"
  shows "load64 m' a = load64 m a"
proof (rule bit_word_eqI)
  fix n assume "n < LENGTH(64)"
  then have "n div 8 < 8" by auto
  then show "bit (load64 m' a) n = bit (load64 m a) n" using assms by (simp add: bit_load64)
qed

section \<open>Pages\<close>

definition page_same :: "memory \<Rightarrow> memory \<Rightarrow> u64 \<Rightarrow> bool" where
  "page_same m m' p \<longleftrightarrow> (\<forall>a. PGROUNDDOWN a = p \<longrightarrow> m' a = m a)"

lemma page_same_refl [simp]: "page_same m m p"
  by (simp add: page_same_def)

lemma page_same_trans: "page_same m m' p \<Longrightarrow> page_same m' m'' p \<Longrightarrow> page_same m m'' p"
  by (simp add: page_same_def)

lemma page_sameD: "page_same m m' (PGROUNDDOWN a) \<Longrightarrow> m' a = m a"
  by (simp add: page_same_def)

lemma memset_page:
  assumes "page_aligned p"
  shows "memset m p c 4096 = (\<lambda>a. if PGROUNDDOWN a = p then ucast c else m a)"
  using in_page_iff [OF assms] by (simp add: memset_eq)

lemma page_same_memset: "page_aligned p \<Longrightarrow> q \<noteq> p \<Longrightarrow> page_same m (memset m p c 4096) q"
  by (auto simp: page_same_def memset_page)

text \<open>An eight-byte word inside a page.\<close>

definition word_in_page :: "u64 \<Rightarrow> u64 \<Rightarrow> bool" where
  "word_in_page p d \<longleftrightarrow> page_aligned p \<and> unat d + 8 \<le> 4096"

lemma word_in_page_byte:
  assumes "word_in_page p d" "i < 8"
  shows "PGROUNDDOWN (p + d + of_nat i) = p"
proof -
  have "unat (d + of_nat i) = unat d + i"
    using assms by (simp add: word_in_page_def unat_word_ariths unat_of_nat_small)
  then have "d + of_nat i < 4096" using assms by (simp add: word_in_page_def word_less_nat_alt)
  then show ?thesis
    using PGROUNDDOWN_add [of p "d + of_nat i"] assms by (simp add: word_in_page_def algebra_simps)
qed

lemma load64_page_same:
  "word_in_page p d \<Longrightarrow> page_same m m' p \<Longrightarrow> load64 m' (p + d) = load64 m (p + d)"
  by (rule load64_cong) (simp add: page_same_def word_in_page_byte)

lemma store64_outside:
  assumes "word_in_page p d" "PGROUNDDOWN x \<noteq> p"
  shows "store64 m (p + d) v x = m x"
proof -
  have "\<not> unat (x - (p + d)) < 8"
  proof
    assume *: "unat (x - (p + d)) < 8"
    have "p + d + of_nat (unat (x - (p + d))) = x" by simp
    then show False using word_in_page_byte [OF assms(1) *] assms(2) by metis
  qed
  then show ?thesis by (simp add: store64_eq)
qed

lemma page_same_store64: "word_in_page p d \<Longrightarrow> q \<noteq> p \<Longrightarrow> page_same m (store64 m (p + d) v) q"
  by (auto simp: page_same_def store64_outside)

lemma page_same_fill_store:
  assumes "page_aligned p" "q \<noteq> p"
  shows "page_same m (store64 (memset m p c 4096) p v) q"
proof -
  have "page_same (memset m p c 4096) (store64 (memset m p c 4096) p v) q"
    using page_same_store64 [of p 0 q] assms by (simp add: word_in_page_def)
  with page_same_memset [OF assms] show ?thesis by (rule page_same_trans)
qed

text \<open>Two aligned words are the same or apart.\<close>

lemma unat_aligned_add:
  fixes w :: u64
  assumes "unat w mod 8 = 0" "i < 8"
  shows "unat (w + of_nat i) = unat w + i"
proof -
  have "unat w = 8 * (unat w div 8)" using assms(1) by (simp add: mod_eq_0_iff_dvd)
  then have "unat w + 7 < 2 ^ 64" using unat_bound [of w] by (simp, presburger)
  then show ?thesis using assms(2) by (simp add: unat_word_ariths unat_of_nat_small)
qed

lemma load64_store64_other:
  assumes "unat a mod 8 = 0" "unat b mod 8 = 0" "a \<noteq> b"
  shows "load64 (store64 m a v) b = load64 m b"
proof (rule load64_cong)
  fix i :: nat assume i: "i < 8"
  have "\<not> unat (b + of_nat i - a) < 8"
  proof
    assume *: "unat (b + of_nat i - a) < 8"
    define j where "j = unat (b + of_nat i - a)"
    have "b + of_nat i = a + of_nat j" by (simp add: j_def)
    then have "unat b + i = unat a + j"
      using unat_aligned_add [OF assms(1)] unat_aligned_add [OF assms(2) i] * j_def by metis
    moreover have "(unat b + i) mod 8 = i" "(unat a + j) mod 8 = j"
      using assms(1,2) i * j_def by (simp_all add: mod_add_left_eq [symmetric])
    ultimately have "unat a = unat b" by simp
    then show False using assms(3) by (simp add: word_unat_eq_iff)
  qed
  then show "store64 m a v (b + of_nat i) = m (b + of_nat i)" by (simp add: store64_eq)
qed

section \<open>The free list\<close>

primrec flist :: "memory \<Rightarrow> u64 \<Rightarrow> u64 list \<Rightarrow> bool" where
  "flist m p [] \<longleftrightarrow> p = 0"
| "flist m p (x # xs) \<longleftrightarrow> p = x \<and> x \<noteq> 0 \<and> flist m (load64 m x) xs"

definition ram_page :: "pmem \<Rightarrow> u64 \<Rightarrow> bool" where
  "ram_page s p \<longleftrightarrow> page_aligned p \<and> kend s \<le> p \<and> p < PHYSTOP"

text \<open>
  The invariant: the list holds the pages \<open>xs\<close>, no page twice, each a page of the memory that
  \<^verbatim>\<open>kinit()\<close> hands out.
\<close>

definition kinv :: "pmem \<Rightarrow> u64 list \<Rightarrow> bool" where
  "kinv s xs \<longleftrightarrow> KERNBASE \<le> kend s \<and> flist (mem s) (freelist s) xs \<and> distinct xs \<and>
     (\<forall>p \<in> set xs. ram_page s p)"

lemma flist_cong:
  assumes "\<And>p. p \<in> set xs \<Longrightarrow> page_aligned p" "\<And>p. p \<in> set xs \<Longrightarrow> page_same m m' p" "flist m p xs"
  shows "flist m' p xs"
  using assms
proof (induction xs arbitrary: p)
  case Nil
  then show ?case by simp
next
  case (Cons x xs)
  have "word_in_page x 0" using Cons.prems(1) by (simp add: word_in_page_def)
  then have "load64 m' x = load64 m x"
    using load64_page_same [of x 0 m m'] Cons.prems(2) by simp
  then show ?case using Cons by simp
qed

text \<open>Writes outside the free pages keep the invariant.\<close>

lemma kinv_frame:
  assumes "kinv s xs" "freelist s' = freelist s" "kend s' = kend s"
    "\<And>p. p \<in> set xs \<Longrightarrow> page_same (mem s) (mem s') p"
  shows "kinv s' xs"
proof -
  have "flist (mem s') (freelist s) xs"
    by (rule flist_cong [of _ "mem s"]) (use assms in \<open>auto simp: kinv_def ram_page_def\<close>)
  then show ?thesis using assms by (auto simp: kinv_def ram_page_def)
qed

lemma ram_page_nonzero: "KERNBASE \<le> kend s \<Longrightarrow> ram_page s p \<Longrightarrow> p \<noteq> 0"
  by (auto simp: ram_page_def word_le_nat_alt)

lemma kalloc_Nil: "kinv s [] \<Longrightarrow> kalloc s = (0, s)"
  by (simp add: kinv_def kalloc_def)

lemma kalloc_Cons:
  assumes "kinv s (p # xs)"
  shows "kalloc s = (p, s\<lparr>mem := memset (mem s) p 5 4096, freelist := load64 (mem s) p\<rparr>)"
    "kinv (snd (kalloc s)) xs"
proof -
  have p: "freelist s = p" "p \<noteq> 0" "page_aligned p" "flist (mem s) (load64 (mem s) p) xs" "p \<notin> set xs"
    using assms by (auto simp: kinv_def ram_page_def)
  show k: "kalloc s = (p, s\<lparr>mem := memset (mem s) p 5 4096, freelist := load64 (mem s) p\<rparr>)"
    using p by (simp add: kalloc_def Let_def)
  have "flist (memset (mem s) p 5 4096) (load64 (mem s) p) xs"
    by (rule flist_cong [of _ "mem s"])
       (use assms p in \<open>auto simp: kinv_def ram_page_def intro: page_same_memset\<close>)
  then show "kinv (snd (kalloc s)) xs" using assms by (auto simp: k kinv_def ram_page_def)
qed

lemma kfree_ok:
  assumes "kinv s xs" "ram_page s p" "p \<notin> set xs"
  shows "kfree p s = Inr (s\<lparr>mem := store64 (memset (mem s) p 1 4096) p (freelist s), freelist := p\<rparr>)"
    "kinv (s\<lparr>mem := store64 (memset (mem s) p 1 4096) p (freelist s), freelist := p\<rparr>) (p # xs)"
proof -
  have p: "page_aligned p" "kend s \<le> p" "p < PHYSTOP" using assms(2) by (auto simp: ram_page_def)
  show "kfree p s = Inr (s\<lparr>mem := store64 (memset (mem s) p 1 4096) p (freelist s), freelist := p\<rparr>)"
    using p by (auto simp: kfree_def Let_def)
  have "flist (store64 (memset (mem s) p 1 4096) p (freelist s)) (freelist s) xs"
    by (rule flist_cong [of _ "mem s"])
       (use assms p in \<open>auto simp: kinv_def ram_page_def intro!: page_same_fill_store\<close>)
  moreover have "p \<noteq> 0" using assms ram_page_nonzero by (auto simp: kinv_def)
  ultimately show "kinv (s\<lparr>mem := store64 (memset (mem s) p 1 4096) p (freelist s), freelist := p\<rparr>) (p # xs)"
    using assms by (simp add: kinv_def ram_page_def)
qed

lemma kfree_frame: "kfree p s = Inr s' \<Longrightarrow> q \<noteq> p \<Longrightarrow> page_same (mem s) (mem s') q"
  using kfree_InrD [of p s s'] by (auto intro!: page_same_fill_store)

section \<open>The allocator as an interface\<close>

text \<open>
  What the clients of the allocator rely on: an invariant that names the free pages, an
  allocation that takes one of them or fails when there is none, a deallocation that puts a
  page back, and neither touching a byte outside the page it handles.
\<close>

locale page_allocator =
  fixes alloc :: "'s \<Rightarrow> u64 \<times> 's"
    and dealloc :: "u64 \<Rightarrow> 's \<Rightarrow> 's res"
    and inv :: "'s \<Rightarrow> u64 list \<Rightarrow> bool"
    and ok :: "'s \<Rightarrow> u64 \<Rightarrow> bool"
    and bytes :: "'s \<Rightarrow> memory"
  assumes alloc_none: "inv s [] \<Longrightarrow> alloc s = (0, s)"
    and alloc_some: "inv s (p # xs) \<Longrightarrow> \<exists>s'. alloc s = (p, s') \<and> inv s' xs \<and>
      (\<forall>q. ok s' q = ok s q) \<and> (\<forall>q. q \<noteq> p \<longrightarrow> page_same (bytes s) (bytes s') q)"
    and dealloc_ok: "inv s xs \<Longrightarrow> ok s p \<Longrightarrow> p \<notin> set xs \<Longrightarrow> \<exists>s'. dealloc p s = Inr s' \<and>
      inv s' (p # xs) \<and> (\<forall>q. ok s' q = ok s q) \<and>
      (\<forall>q. q \<noteq> p \<longrightarrow> page_same (bytes s) (bytes s') q)"
    and inv_pages: "inv s xs \<Longrightarrow> distinct xs \<and> (\<forall>p \<in> set xs. ok s p \<and> p \<noteq> 0)"
begin

text \<open>An allocation followed by the deallocation of its page restores the free pages.\<close>

lemma alloc_dealloc:
  assumes "inv s (p # xs)"
  shows "\<exists>s' s''. alloc s = (p, s') \<and> dealloc p s' = Inr s'' \<and> inv s'' (p # xs) \<and>
    (\<forall>q. q \<noteq> p \<longrightarrow> page_same (bytes s) (bytes s'') q)"
proof -
  obtain s' where s': "alloc s = (p, s')" "inv s' xs" "\<forall>q. ok s' q = ok s q"
    "\<forall>q. q \<noteq> p \<longrightarrow> page_same (bytes s) (bytes s') q"
    using alloc_some [OF assms] by blast
  have "ok s' p" "p \<notin> set xs" using inv_pages [OF assms] s'(3) by auto
  then obtain s'' where "dealloc p s' = Inr s''" "inv s'' (p # xs)"
    "\<forall>q. q \<noteq> p \<longrightarrow> page_same (bytes s') (bytes s'') q"
    using dealloc_ok [OF s'(2)] by blast
  with s' show ?thesis by (blast intro: page_same_trans)
qed

text \<open>As many allocations as there are free pages give exactly these pages, then 0.\<close>

lemma alloc_all:
  assumes "inv s xs"
  shows "\<exists>t. fold (\<lambda>_ (ps, s). let (p, s') = alloc s in (ps @ [p], s')) xs (ps, s) = (ps @ xs, t) \<and>
    inv t [] \<and> (\<forall>q. q \<notin> set xs \<longrightarrow> page_same (bytes s) (bytes t) q)"
  using assms
proof (induction xs arbitrary: s ps)
  case Nil
  then show ?case by (auto simp: page_same_def)
next
  case (Cons p xs)
  obtain s' where s': "alloc s = (p, s')" "inv s' xs"
    "\<forall>q. q \<noteq> p \<longrightarrow> page_same (bytes s) (bytes s') q"
    using alloc_some [OF Cons.prems] by blast
  obtain t where "fold (\<lambda>_ (ps, s). let (p, s') = alloc s in (ps @ [p], s')) xs (ps @ [p], s') =
      ((ps @ [p]) @ xs, t)" "inv t []" "\<forall>q. q \<notin> set xs \<longrightarrow> page_same (bytes s') (bytes t) q"
    using Cons.IH [OF s'(2)] by blast
  with s' show ?case by (auto intro: page_same_trans)
qed

end

interpretation kmem: page_allocator kalloc kfree kinv ram_page mem
proof
  fix s :: pmem
  show "kalloc s = (0, s)" if "kinv s []" using that by (rule kalloc_Nil)
next
  fix s :: pmem and p xs
  assume inv: "kinv s (p # xs)"
  then have al: "page_aligned p" by (simp add: kinv_def ram_page_def)
  show "\<exists>s'. kalloc s = (p, s') \<and> kinv s' xs \<and> (\<forall>q. ram_page s' q = ram_page s q) \<and>
      (\<forall>q. q \<noteq> p \<longrightarrow> page_same (mem s) (mem s') q)"
    using kalloc_Cons [OF inv] page_same_memset [OF al] by (simp add: ram_page_def)
next
  fix s :: pmem and p xs
  assume a: "kinv s xs" "ram_page s p" "p \<notin> set xs"
  show "\<exists>s'. kfree p s = Inr s' \<and> kinv s' (p # xs) \<and> (\<forall>q. ram_page s' q = ram_page s q) \<and>
      (\<forall>q. q \<noteq> p \<longrightarrow> page_same (mem s) (mem s') q)"
    using kfree_ok [OF a] kfree_frame [OF kfree_ok(1) [OF a]] by (auto simp: ram_page_def)
next
  fix s :: pmem and xs
  assume "kinv s xs"
  then show "distinct xs \<and> (\<forall>p \<in> set xs. ram_page s p \<and> p \<noteq> 0)"
    using ram_page_nonzero by (auto simp: kinv_def)
qed

section \<open>Start of the allocator\<close>

lemma page_aligned_unat: "page_aligned p \<longleftrightarrow> unat p mod 4096 = 0"
proof -
  have "unat (p mod 4096) = unat p mod 4096" by (simp only: unat_mod unat_numeral)
      (simp add: unat_mod)
  then show ?thesis by (metis page_aligned_def unat_eq_0)
qed

lemma page_aligned_step:
  assumes "page_aligned p" "page_aligned q" "unat p + 4096 < 2 ^ 64"
  shows "q < p + 4096 \<longleftrightarrow> q < p \<or> q = p" "page_aligned (p + 4096)"
proof -
  have p: "unat (p + 4096) = unat p + 4096" using assms(3) by (simp add: unat_word_ariths)
  obtain a b where ab: "unat p = 4096 * a" "unat q = 4096 * b"
    using assms(1,2) unfolding page_aligned_unat mod_eq_0_iff_dvd by (auto elim!: dvdE)
  have "4096 * b < 4096 * Suc a \<longleftrightarrow> 4096 * b < 4096 * a \<or> 4096 * b = 4096 * a"
    by (simp only: mult_less_cancel1 mult_cancel1) auto
  then have "4096 * b < 4096 * a + 4096 \<longleftrightarrow> 4096 * b < 4096 * a \<or> 4096 * b = 4096 * a"
    by (simp add: add.commute)
  then show "q < p + 4096 \<longleftrightarrow> q < p \<or> q = p"
    by (simp add: word_less_nat_alt p ab word_unat_eq_iff)
  show "page_aligned (p + 4096)" using p ab by (simp add: page_aligned_unat)
qed

lemma roundup_least:
  fixes q :: nat
  assumes "q mod 4096 = 0" "k \<le> q"
  shows "(k + 4095) div 4096 * 4096 \<le> q"
proof -
  obtain c where c: "q = 4096 * c" using assms(1) unfolding mod_eq_0_iff_dvd by (auto elim!: dvdE)
  have "(k + 4095) div 4096 < c + 1"
    using assms(2) c by (intro less_mult_imp_div_less) simp
  then show ?thesis using c by simp
qed

lemma freerange_loop_ok:
  assumes "kinv s xs" "page_aligned p" "kend s \<le> p" "p \<le> PHYSTOP"
    "set xs = {q. ram_page s q \<and> q < p}"
  shows "\<exists>s' xs'. freerange_loop p PHYSTOP s = Inr s' \<and> kinv s' xs' \<and> kend s' = kend s \<and>
    set xs' = {q. ram_page s q}"
  using assms
proof (induction "unat (PHYSTOP - p)" arbitrary: p s xs rule: less_induct)
  case less
  have pu: "unat p \<le> 2281701376" using less.prems(4) by (simp add: word_le_nat_alt)
  then have p1: "unat (p + 4096) = unat p + 4096" by (simp add: unat_word_ariths)
  note st = page_aligned_step [OF less.prems(2)]
  show ?case
  proof (cases "p = PHYSTOP")
    case True
    then have "freerange_loop p PHYSTOP s = Inr s" by (simp add: freerange_loop.simps)
    moreover have "set xs = {q. ram_page s q}" using less.prems(5) True by (auto simp: ram_page_def)
    ultimately show ?thesis using less.prems by blast
  next
    case False
    then have lt: "p < PHYSTOP" using less.prems(4) by simp
    have "\<not> PHYSTOP < p + 4096"
      using st(1) [of PHYSTOP] lt pu by (auto simp: page_aligned_def)
    then have le: "p + 4096 \<le> PHYSTOP" by simp
    have rp: "ram_page s p" using less.prems lt by (simp add: ram_page_def)
    obtain s1 where s1: "kfree p s = Inr s1" "kinv s1 (p # xs)" "\<forall>q. ram_page s1 q = ram_page s q"
      using kmem.dealloc_ok [OF less.prems(1) rp] less.prems(5) by auto
    have ke: "kend s1 = kend s" using kfree_InrD [OF s1(1)] by simp
    have al: "page_aligned (p + 4096)" using st(2) less.prems(2) pu by simp
    have set1: "set (p # xs) = {q. ram_page s1 q \<and> q < p + 4096}"
      using less.prems(5) s1(3) rp st(1) pu by (auto simp: ram_page_def)
    have dec: "unat (PHYSTOP - (p + 4096)) < unat (PHYSTOP - p)"
    proof -
      have "unat (PHYSTOP - (p + 4096)) = 2281701376 - (unat p + 4096)"
        using unat_sub [OF le] p1 by simp
      moreover have "unat (PHYSTOP - p) = 2281701376 - unat p" using less.prems(4) by (simp add: unat_sub)
      ultimately show ?thesis using le p1 by (simp add: word_le_nat_alt)
    qed
    have "kend s1 \<le> p + 4096" using less.prems(3) p1 by (simp add: ke word_le_nat_alt)
    from less.hyps [OF dec s1(2) al this le set1] obtain s' xs' where
      "freerange_loop (p + 4096) PHYSTOP s1 = Inr s'" "kinv s' xs'" "kend s' = kend s1"
      "set xs' = {q. ram_page s1 q}" by blast
    moreover have "freerange_loop p PHYSTOP s = freerange_loop (p + 4096) PHYSTOP s1"
      by (subst freerange_loop.simps) (simp add: le s1(1))
    ultimately show ?thesis using s1(3) ke by auto
  qed
qed

text \<open>
  Claim C13. \<^verbatim>\<open>kinit()\<close>, from an empty list and with the end of the kernel inside RAM, returns,
  and afterwards the free list holds every whole page between the end of the kernel and
  \<^verbatim>\<open>PHYSTOP\<close>, each exactly once.
\<close>

theorem kinit_frees_all_pages:
  assumes "freelist s = 0" "KERNBASE \<le> kend s" "kend s \<le> PHYSTOP"
  shows "\<exists>s' xs. kinit s = Inr s' \<and> kinv s' xs \<and> distinct xs \<and>
    set xs = {p. p mod PGSIZE = 0 \<and> kend s \<le> p \<and> p < PHYSTOP}"
proof -
  have ku: "unat (kend s) \<le> 2281701376" using assms(3) by (simp add: word_le_nat_alt)
  let ?p = "PGROUNDUP (kend s)"
  have up: "unat ?p = (unat (kend s) + 4095) div 4096 * 4096" using ku by (intro unat_PGROUNDUP) simp
  have "unat (kend s) \<le> (unat (kend s) + 4095) div 4096 * 4096"
    using div_mult_mod_eq [of "unat (kend s) + 4095" 4096] mod_less_divisor [of 4096 "unat (kend s) + 4095"]
    by linarith
  then have ge: "kend s \<le> ?p" by (simp only: word_le_nat_alt up)
  have le: "?p \<le> PHYSTOP" using ku by (simp add: word_le_nat_alt up)
  have none: "{q. ram_page s q \<and> q < ?p} = {}"
  proof -
    have "?p \<le> q" if "ram_page s q" for q
      using that roundup_least [of "unat q" "unat (kend s)"] up
      by (simp add: ram_page_def page_aligned_unat word_le_nat_alt)
    then show ?thesis by (auto simp: not_less [symmetric])
  qed
  have "kinv s []" using assms by (simp add: kinv_def)
  from freerange_loop_ok [OF this PGROUNDUP_aligned ge le] none
  obtain s' xs where "kinit s = Inr s'" "kinv s' xs" "set xs = {q. ram_page s q}"
    by (auto simp: kinit_def freerange_def)
  then show ?thesis using kmem.inv_pages [of s' xs] by (auto simp: ram_page_def)
qed

text \<open>Two pages of memory above the kernel.\<close>

definition two_pages :: pmem where
  "two_pages = \<lparr>mem = (\<lambda>_. 0), freelist = 0, kend = 0x87ffe000\<rparr>"

theorem kinit_frees_all_pages_witness:
  "\<exists>s' xs. kinit two_pages = Inr s' \<and> kinv s' xs \<and> 0x87fff000 \<in> set xs \<and> 0x87ffe000 \<in> set xs"
proof -
  obtain s' xs where *: "kinit two_pages = Inr s'" "kinv s' xs"
    and xs: "set xs = {p. p mod PGSIZE = 0 \<and> kend two_pages \<le> p \<and> p < PHYSTOP}"
    using kinit_frees_all_pages [of two_pages] by (auto simp: two_pages_def)
  have "0x87fff000 \<in> set xs" "0x87ffe000 \<in> set xs"
    unfolding xs by (simp_all add: two_pages_def page_aligned_unat)
  with * show ?thesis by blast
qed

text \<open>
  Claim C14. Starting from a free list with the pages \<open>xs\<close>, successive calls of \<^verbatim>\<open>kalloc()\<close> return
  exactly these pages, in this order, all different and none null; the next call returns 0;
  and no byte outside these pages changes. So a page is never handed out twice without being
  freed in between.
\<close>

theorem kalloc_hands_out_each_page_once:
  assumes "kinv s xs"
  shows "\<exists>t. fold (\<lambda>_ (ps, s). let (p, s') = kalloc s in (ps @ [p], s')) xs ([], s) = (xs, t) \<and>
    distinct xs \<and> 0 \<notin> set xs \<and> kalloc t = (0, t) \<and>
    (\<forall>a. PGROUNDDOWN a \<notin> set xs \<longrightarrow> mem t a = mem s a)"
proof -
  obtain t where t: "fold (\<lambda>_ (ps, s). let (p, s') = kalloc s in (ps @ [p], s')) xs ([], s) = ([] @ xs, t)"
    "kinv t []" "\<forall>q. q \<notin> set xs \<longrightarrow> page_same (mem s) (mem t) q"
    using kmem.alloc_all [OF assms] by blast
  have "distinct xs" "0 \<notin> set xs" using kmem.inv_pages [OF assms] by auto
  moreover have "\<forall>a. PGROUNDDOWN a \<notin> set xs \<longrightarrow> mem t a = mem s a"
    using t(3) by (auto intro: page_sameD)
  ultimately show ?thesis using t(1) kmem.alloc_none [OF t(2)] by auto
qed

lemma two_free_pages:
  "kinv \<lparr>mem = store64 (\<lambda>_. 0) 0x87fff000 0x87ffe000, freelist = 0x87fff000, kend = 0x87ffe000\<rparr>
     [0x87fff000, 0x87ffe000]"
proof -
  let ?m = "store64 (\<lambda>_. 0) 0x87fff000 0x87ffe000"
  have "page_same (\<lambda>_. 0) ?m 0x87ffe000"
    using page_same_store64 [of "0x87fff000" 0] by (simp add: word_in_page_def page_aligned_unat)
  then have "load64 ?m 0x87ffe000 = load64 (\<lambda>_. 0) 0x87ffe000"
    using load64_page_same [of "0x87ffe000" 0] by (simp add: word_in_page_def page_aligned_unat)
  also have "\<dots> = 0" by (rule bit_word_eqI) (simp add: bit_load64)
  finally show ?thesis by (simp add: kinv_def ram_page_def page_aligned_unat)
qed

theorem kalloc_hands_out_each_page_once_witness:
  "\<exists>t. fold (\<lambda>_ (ps, s). let (p, s') = kalloc s in (ps @ [p], s')) [0x87fff000, 0x87ffe000 :: u64]
     ([], \<lparr>mem = store64 (\<lambda>_. 0) 0x87fff000 0x87ffe000, freelist = 0x87fff000, kend = 0x87ffe000\<rparr>) =
     ([0x87fff000, 0x87ffe000], t) \<and> kalloc t = (0, t)"
  using kalloc_hands_out_each_page_once [OF two_free_pages] by blast

end
