(* ===== verification/Vm.thy ===== *)
theory Vm
  imports Kalloc
begin

text \<open>
  Virtual memory (\<^verbatim>\<open>kernel/vm.c\<close>) and the page-table functions of \<^verbatim>\<open>kernel/proc.c\<close>, over the
  byte memory and the page allocator of theory Kalloc. A page table is the address of its
  root page; a pointer to an entry is the address of its eight bytes, 0 the null pointer.

  The kernel side of a copy to or from user space (\<^verbatim>\<open>copyout\<close>, \<^verbatim>\<open>copyin\<close>, \<^verbatim>\<open>copyinstr\<close>) is a list
  of bytes, the contents of a kernel object, rather than an address. What \<^verbatim>\<open>vmfault\<close> reads
  through \<^verbatim>\<open>myproc()\<close> is an argument: the size \<open>psz\<close> and the page table \<open>ppt\<close> of the current
  process. The linker symbols \<^verbatim>\<open>etext\<close> and \<^verbatim>\<open>trampoline\<close> are arguments too.
\<close>

section \<open>Walking a page table\<close>

definition pte_valid :: "u64 \<Rightarrow> bool" where
  "pte_valid e \<longleftrightarrow> e AND PTE_V \<noteq> 0"

text \<open>The loop of \<^verbatim>\<open>walk()\<close> from \<open>level\<close> down to 1, then the entry at level 0.\<close>

primrec walk_from :: "nat \<Rightarrow> u64 \<Rightarrow> u64 \<Rightarrow> bool \<Rightarrow> pmem \<Rightarrow> u64 \<times> pmem" where
  "walk_from 0 pt va alloc s = (pt + 8 * PX 0 va, s)"
| "walk_from (Suc l) pt va alloc s =
     (let pte = pt + 8 * PX (Suc l) va; e = load64 (mem s) pte
      in if pte_valid e then walk_from l (PTE2PA e) va alloc s
         else if \<not> alloc then (0, s)
         else let (pg, s1) = kalloc s
              in if pg = 0 then (0, s1)
                 else let m1 = memset (mem s1) pg 0 (ucast PGSIZE);
                          m2 = store64 m1 pte (PA2PTE pg OR PTE_V)
                      in walk_from l pg va alloc (s1\<lparr>mem := m2\<rparr>))"

definition walk :: "u64 \<Rightarrow> u64 \<Rightarrow> bool \<Rightarrow> pmem \<Rightarrow> (u64 \<times> pmem) res" where
  "walk pt va alloc s =
     (if MAXVA \<le> va then Inl (Panic ''walk'') else Inr (walk_from 2 pt va alloc s))"

definition walkaddr :: "u64 \<Rightarrow> u64 \<Rightarrow> pmem \<Rightarrow> u64 res" where
  "walkaddr pt va s =
     (if MAXVA \<le> va then Inr 0
      else bindR (walk pt va False s) (\<lambda>(pte, s1).
        if pte = 0 then Inr 0
        else let e = load64 (mem s1) pte
             in if e AND PTE_V = 0 then Inr 0
                else if e AND PTE_U = 0 then Inr 0
                else Inr (PTE2PA e)))"

definition ismapped :: "u64 \<Rightarrow> u64 \<Rightarrow> pmem \<Rightarrow> bool res" where
  "ismapped pt va s =
     bindR (walk pt va False s) (\<lambda>(pte, s1).
       if pte = 0 then Inr False else Inr (load64 (mem s1) pte AND PTE_V \<noteq> 0))"

section \<open>Adding mappings\<close>

lemma walk_InrD: "walk pt va alloc s = Inr r \<Longrightarrow> va < MAXVA"
  by (auto simp: walk_def split: if_splits)

lemma page_step_decreases:
  assumes "a < MAXVA"
  shows "18446744073709551616 - unat (a + 4096) < 18446744073709551616 - unat (a :: u64)"
proof -
  have "unat (a + 4096) = unat a + 4096" "unat a < 2 ^ 38"
    using assms by (simp_all add: unat_word_ariths word_less_nat_alt)
  then show ?thesis by simp
qed

function mappages_loop :: "u64 \<Rightarrow> u64 \<Rightarrow> u64 \<Rightarrow> u64 \<Rightarrow> u64 \<Rightarrow> pmem \<Rightarrow> (i32 \<times> pmem) res" where
  "mappages_loop pt a lastva pa perm s =
     bindR (walk pt a True s) (\<lambda>r.
       let pte = fst r; s1 = snd r
       in if pte = 0 then Inr (- 1, s1)
          else if load64 (mem s1) pte AND PTE_V \<noteq> 0 then Inl (Panic ''mappages: remap'')
          else let s2 = s1\<lparr>mem := store64 (mem s1) pte (PA2PTE pa OR perm OR PTE_V)\<rparr>
               in if a = lastva then Inr (0, s2)
                  else mappages_loop pt (a + PGSIZE) lastva (pa + PGSIZE) perm s2)"
  by pat_completeness auto

termination
  by (relation "measure (\<lambda>(pt, a, lastva, pa, perm, s). 2 ^ 64 - unat a)")
     (auto dest!: walk_InrD intro!: page_step_decreases)

declare mappages_loop.simps [simp del]

definition mappages :: "u64 \<Rightarrow> u64 \<Rightarrow> u64 \<Rightarrow> u64 \<Rightarrow> u64 \<Rightarrow> pmem \<Rightarrow> (i32 \<times> pmem) res" where
  "mappages pt va len pa perm s =
     (if va mod PGSIZE \<noteq> 0 then Inl (Panic ''mappages: va not aligned'')
      else if len mod PGSIZE \<noteq> 0 then Inl (Panic ''mappages: size not aligned'')
      else if len = 0 then Inl (Panic ''mappages: size'')
      else mappages_loop pt va (va + len - PGSIZE) pa perm s)"

definition uvmcreate :: "pmem \<Rightarrow> u64 \<times> pmem" where
  "uvmcreate s =
     (let (pt, s1) = kalloc s
      in if pt = 0 then (0, s1)
         else (pt, s1\<lparr>mem := memset (mem s1) pt 0 (ucast PGSIZE)\<rparr>))"

definition kvmmap :: "u64 \<Rightarrow> u64 \<Rightarrow> u64 \<Rightarrow> u64 \<Rightarrow> u64 \<Rightarrow> pmem \<Rightarrow> pmem res" where
  "kvmmap kpgtbl va pa len perm s =
     bindR (mappages kpgtbl va len pa perm s)
       (\<lambda>(r, s1). if r \<noteq> 0 then Inl (Panic ''kvmmap'') else Inr s1)"

text \<open>\<^verbatim>\<open>proc_mapstacks()\<close> of \<^verbatim>\<open>proc.c\<close>, from process \<open>i\<close> on, \<open>k\<close> processes.\<close>

primrec mapstacks_loop :: "nat \<Rightarrow> nat \<Rightarrow> u64 \<Rightarrow> pmem \<Rightarrow> pmem res" where
  "mapstacks_loop i 0 kpgtbl s = Inr s"
| "mapstacks_loop i (Suc k) kpgtbl s =
     (let (pa, s1) = kalloc s
      in if pa = 0 then Inl (Panic ''kalloc'')
         else bindR (kvmmap kpgtbl (KSTACK i) pa PGSIZE (PTE_R OR PTE_W) s1)
                (\<lambda>s2. mapstacks_loop (Suc i) k kpgtbl s2))"

definition proc_mapstacks :: "u64 \<Rightarrow> pmem \<Rightarrow> pmem res" where
  "proc_mapstacks kpgtbl s = mapstacks_loop 0 NPROC kpgtbl s"

definition kvmmake :: "u64 \<Rightarrow> u64 \<Rightarrow> pmem \<Rightarrow> (u64 \<times> pmem) res" where
  "kvmmake etext trampoline s =
     (let (kpgtbl, s0) = kalloc s;
          s1 = s0\<lparr>mem := memset (mem s0) kpgtbl 0 (ucast PGSIZE)\<rparr>
      in bindR (kvmmap kpgtbl UART0 UART0 PGSIZE (PTE_R OR PTE_W) s1) (\<lambda>s2.
         bindR (kvmmap kpgtbl VIRTIO0 VIRTIO0 PGSIZE (PTE_R OR PTE_W) s2) (\<lambda>s3.
         bindR (kvmmap kpgtbl PLIC PLIC 0x4000000 (PTE_R OR PTE_W) s3) (\<lambda>s4.
         bindR (kvmmap kpgtbl KERNBASE KERNBASE (etext - KERNBASE) (PTE_R OR PTE_X) s4) (\<lambda>s5.
         bindR (kvmmap kpgtbl etext etext (PHYSTOP - etext) (PTE_R OR PTE_W) s5) (\<lambda>s6.
         bindR (kvmmap kpgtbl TRAMPOLINE trampoline PGSIZE (PTE_R OR PTE_X) s6) (\<lambda>s7.
         bindR (proc_mapstacks kpgtbl s7) (\<lambda>s8. Inr (kpgtbl, s8)))))))))"

section \<open>Removing mappings\<close>

function uvmunmap_loop :: "u64 \<Rightarrow> u64 \<Rightarrow> u64 \<Rightarrow> bool \<Rightarrow> pmem \<Rightarrow> pmem res" where
  "uvmunmap_loop pt a lastva do_free s =
     (if a < lastva then
        bindR (walk pt a False s) (\<lambda>r.
          let pte = fst r; s1 = snd r
          in if pte = 0 then uvmunmap_loop pt (a + PGSIZE) lastva do_free s1
             else let e = load64 (mem s1) pte
                  in if e AND PTE_V = 0 then uvmunmap_loop pt (a + PGSIZE) lastva do_free s1
                     else bindR (if do_free then kfree (PTE2PA e) s1 else Inr s1) (\<lambda>s2.
                       uvmunmap_loop pt (a + PGSIZE) lastva do_free
                         (s2\<lparr>mem := store64 (mem s2) pte 0\<rparr>)))
      else Inr s)"
  by pat_completeness auto

termination
  by (relation "measure (\<lambda>(pt, a, lastva, f, s). 2 ^ 64 - unat a)")
     (auto dest!: walk_InrD intro!: page_step_decreases)

declare uvmunmap_loop.simps [simp del]

definition uvmunmap :: "u64 \<Rightarrow> u64 \<Rightarrow> u64 \<Rightarrow> bool \<Rightarrow> pmem \<Rightarrow> pmem res" where
  "uvmunmap pt va npages do_free s =
     (if va mod PGSIZE \<noteq> 0 then Inl (Panic ''uvmunmap: not aligned'')
      else uvmunmap_loop pt va (va + npages * PGSIZE) do_free s)"

text \<open>\<^verbatim>\<open>npages\<close> is an \<^verbatim>\<open>int\<close> in \<^verbatim>\<open>uvmdealloc()\<close> and a \<^verbatim>\<open>uint64\<close> in \<^verbatim>\<open>uvmunmap()\<close>.\<close>

definition uvmdealloc :: "u64 \<Rightarrow> u64 \<Rightarrow> u64 \<Rightarrow> pmem \<Rightarrow> (u64 \<times> pmem) res" where
  "uvmdealloc pt oldsz newsz s =
     (if oldsz \<le> newsz then Inr (oldsz, s)
      else if PGROUNDUP newsz < PGROUNDUP oldsz
      then let npages = (ucast ((PGROUNDUP oldsz - PGROUNDUP newsz) div PGSIZE) :: i32)
           in bindR (uvmunmap pt (PGROUNDUP newsz) (scast npages) True s) (\<lambda>s1. Inr (newsz, s1))
      else Inr (newsz, s))"

text \<open>
  \<^verbatim>\<open>freewalk()\<close>. The loop over the entries calls \<open>rec\<close> for the level below; \<open>freewalk n\<close> follows
  at most \<open>n\<close> levels of tables. A table that is deeper would overflow the kernel stack into
  its guard page, which is a trap in the kernel.
\<close>

primrec freewalk_entries ::
  "(u64 \<Rightarrow> pmem \<Rightarrow> pmem res) \<Rightarrow> u64 \<Rightarrow> nat \<Rightarrow> pmem \<Rightarrow> pmem res" where
  "freewalk_entries rec pt 0 s = Inr s"
| "freewalk_entries rec pt (Suc k) s =
     (let a = pt + 8 * of_nat (511 - k); pte = load64 (mem s) a
      in if pte AND PTE_V \<noteq> 0 \<and> pte AND (PTE_R OR PTE_W OR PTE_X) = 0
         then bindR (rec (PTE2PA pte) s) (\<lambda>s1.
                freewalk_entries rec pt k (s1\<lparr>mem := store64 (mem s1) a 0\<rparr>))
         else if pte AND PTE_V \<noteq> 0 then Inl (Panic ''freewalk: leaf'')
         else freewalk_entries rec pt k s)"

primrec freewalk :: "nat \<Rightarrow> u64 \<Rightarrow> pmem \<Rightarrow> pmem res" where
  "freewalk 0 pt s = Inl (Panic ''kerneltrap'')"
| "freewalk (Suc n) pt s =
     bindR (freewalk_entries (freewalk n) pt 512 s) (\<lambda>s1. kfree pt s1)"

definition uvmfree :: "u64 \<Rightarrow> u64 \<Rightarrow> pmem \<Rightarrow> pmem res" where
  "uvmfree pt len s =
     bindR (if 0 < len then uvmunmap pt 0 (PGROUNDUP len div PGSIZE) True s else Inr s)
       (\<lambda>s1. freewalk 3 pt s1)"

section \<open>Growing and copying an address space\<close>

lemma mappages_InrD: "mappages pt va len pa perm s = Inr r \<Longrightarrow> va < MAXVA"
  by (auto simp: mappages_def mappages_loop.simps [of pt va] dest: walk_InrD split: if_splits)

function uvmalloc_loop :: "u64 \<Rightarrow> u64 \<Rightarrow> u64 \<Rightarrow> u64 \<Rightarrow> u64 \<Rightarrow> pmem \<Rightarrow> (u64 \<times> pmem) res" where
  "uvmalloc_loop pt oldsz newsz xperm a s =
     (if a < newsz then
        let mm = fst (kalloc s); s1 = snd (kalloc s)
        in if mm = 0 then bindR (uvmdealloc pt a oldsz s1) (\<lambda>(_, s2). Inr (0, s2))
           else let s2 = s1\<lparr>mem := memset (mem s1) mm 0 (ucast PGSIZE)\<rparr>
                in bindR (mappages pt a PGSIZE mm (PTE_R OR PTE_U OR xperm) s2) (\<lambda>r.
                   if fst r \<noteq> 0
                   then bindR (kfree mm (snd r)) (\<lambda>s3.
                          bindR (uvmdealloc pt a oldsz s3) (\<lambda>(_, s4). Inr (0, s4)))
                   else uvmalloc_loop pt oldsz newsz xperm (a + PGSIZE) (snd r))
      else Inr (newsz, s))"
  by pat_completeness auto

termination
  by (relation "measure (\<lambda>(pt, osz, nsz, x, a, s). 2 ^ 64 - unat a)")
     (auto dest!: mappages_InrD intro!: page_step_decreases)

declare uvmalloc_loop.simps [simp del]

definition uvmalloc :: "u64 \<Rightarrow> u64 \<Rightarrow> u64 \<Rightarrow> u64 \<Rightarrow> pmem \<Rightarrow> (u64 \<times> pmem) res" where
  "uvmalloc pt oldsz newsz xperm s =
     (if newsz < oldsz then Inr (oldsz, s)
      else let oldsz' = PGROUNDUP oldsz in uvmalloc_loop pt oldsz' newsz xperm oldsz' s)"

function uvmcopy_loop :: "u64 \<Rightarrow> u64 \<Rightarrow> u64 \<Rightarrow> u64 \<Rightarrow> pmem \<Rightarrow> (i32 \<times> pmem) res" where
  "uvmcopy_loop old new len i s =
     (if i < len then
        bindR (walk old i False s) (\<lambda>r.
          let pte = fst r; s0 = snd r
          in if pte = 0 then uvmcopy_loop old new len (i + PGSIZE) s0
             else let e = load64 (mem s0) pte
                  in if e AND PTE_V = 0 then uvmcopy_loop old new len (i + PGSIZE) s0
                     else let mm = fst (kalloc s0); s1 = snd (kalloc s0)
                          in if mm = 0
                             then bindR (uvmunmap new 0 (i div PGSIZE) True s1) (\<lambda>s2. Inr (- 1, s2))
                             else let s2 = s1\<lparr>mem := memmove (mem s1) mm (PTE2PA e) (ucast PGSIZE)\<rparr>
                                  in bindR (mappages new i PGSIZE mm (PTE_FLAGS e) s2) (\<lambda>r2.
                                     if fst r2 \<noteq> 0
                                     then bindR (kfree mm (snd r2)) (\<lambda>s3.
                                            bindR (uvmunmap new 0 (i div PGSIZE) True s3)
                                              (\<lambda>s4. Inr (- 1, s4)))
                                     else uvmcopy_loop old new len (i + PGSIZE) (snd r2)))
      else Inr (0, s))"
  by pat_completeness auto

termination
  by (relation "measure (\<lambda>(old, new, len, i, s). 2 ^ 64 - unat i)")
     (auto dest!: walk_InrD intro!: page_step_decreases)

declare uvmcopy_loop.simps [simp del]

definition uvmcopy :: "u64 \<Rightarrow> u64 \<Rightarrow> u64 \<Rightarrow> pmem \<Rightarrow> (i32 \<times> pmem) res" where
  "uvmcopy old new len s = uvmcopy_loop old new len 0 s"

definition uvmclear :: "u64 \<Rightarrow> u64 \<Rightarrow> pmem \<Rightarrow> pmem res" where
  "uvmclear pt va s =
     bindR (walk pt va False s) (\<lambda>(pte, s1).
       if pte = 0 then Inl (Panic ''uvmclear'')
       else Inr (s1\<lparr>mem := store64 (mem s1) pte (load64 (mem s1) pte AND NOT PTE_U)\<rparr>))"

section \<open>Page faults and copies\<close>

definition vmfault :: "u64 \<Rightarrow> u64 \<Rightarrow> u64 \<Rightarrow> u64 \<Rightarrow> pmem \<Rightarrow> (u64 \<times> pmem) res" where
  "vmfault psz ppt pt va s =
     (if psz \<le> va then Inr (0, s)
      else let va = PGROUNDDOWN va
           in bindR (ismapped pt va s) (\<lambda>b.
              if b then Inr (0, s)
              else let (mm, s1) = kalloc s
                   in if mm = 0 then Inr (0, s1)
                      else let s2 = s1\<lparr>mem := memset (mem s1) mm 0 (ucast PGSIZE)\<rparr>
                           in bindR (mappages ppt va PGSIZE mm (PTE_W OR PTE_U OR PTE_R) s2)
                                (\<lambda>(r, s3). if r \<noteq> 0
                                  then bindR (kfree mm s3) (\<lambda>s4. Inr (0, s4))
                                  else Inr (mm, s3))))"

primrec write_bytes :: "memory \<Rightarrow> u64 \<Rightarrow> u8 list \<Rightarrow> memory" where
  "write_bytes m a [] = m"
| "write_bytes m a (b # bs) = write_bytes (m(a := b)) (a + 1) bs"

definition read_bytes :: "memory \<Rightarrow> u64 \<Rightarrow> nat \<Rightarrow> u8 list" where
  "read_bytes m a n = map (\<lambda>i. m (a + of_nat i)) [0..<n]"

text \<open>The page a user copy works on: \<^verbatim>\<open>walkaddr()\<close>, then \<^verbatim>\<open>vmfault()\<close> if there is none.\<close>

definition user_page :: "u64 \<Rightarrow> u64 \<Rightarrow> u64 \<Rightarrow> u64 \<Rightarrow> pmem \<Rightarrow> (u64 \<times> pmem) res" where
  "user_page psz ppt pt va0 s =
     bindR (walkaddr pt va0 s) (\<lambda>pa0.
       if pa0 = 0 then vmfault psz ppt pt va0 s else Inr (pa0, s))"

text \<open>How many of \<open>len\<close> bytes at \<open>va\<close> lie in its page; at least one, if there are any.\<close>

definition in_page :: "u64 \<Rightarrow> nat \<Rightarrow> nat" where
  "in_page va len = min (unat (PGSIZE - (va - PGROUNDDOWN va))) len"

lemma in_page_pos: "0 < len \<Longrightarrow> 0 < in_page va len"
proof -
  have off: "va - PGROUNDDOWN va = va mod 4096" using PGROUNDDOWN_minus [of va] by simp
  have "unat (va mod 4096) < 4096" by (simp add: unat_mod)
  then have "va mod 4096 < 4096" by (simp add: word_less_nat_alt)
  then have "unat (4096 - va mod 4096) = 4096 - unat (va mod 4096)" by (simp add: unat_sub)
  then show "0 < len \<Longrightarrow> 0 < in_page va len"
    using \<open>unat (va mod 4096) < 4096\<close> by (simp add: in_page_def off)
qed

function copyout :: "u64 \<Rightarrow> u64 \<Rightarrow> u64 \<Rightarrow> u64 \<Rightarrow> u8 list \<Rightarrow> pmem \<Rightarrow> (i32 \<times> pmem) res" where
  "copyout psz ppt pt dstva bs s =
     (if bs \<noteq> [] then
        let va0 = PGROUNDDOWN dstva
        in if MAXVA \<le> va0 then Inr (- 1, s)
           else bindR (user_page psz ppt pt va0 s) (\<lambda>r.
             let pa0 = fst r; s1 = snd r
             in if pa0 = 0 then Inr (- 1, s1)
                else bindR (walk pt va0 False s1) (\<lambda>(pte, s2).
                  if pte = 0 then Inl (Panic ''kerneltrap'')
                  else if load64 (mem s2) pte AND PTE_W = 0 then Inr (- 1, s2)
                  else let n = in_page dstva (length bs)
                       in copyout psz ppt pt (va0 + PGSIZE) (drop n bs)
                            (s2\<lparr>mem := write_bytes (mem s2) (pa0 + (dstva - va0)) (take n bs)\<rparr>)))
      else Inr (0, s))"
  by pat_completeness auto

termination
  by (relation "measure (\<lambda>(psz, ppt, pt, va, bs, s). length bs)") (auto simp: in_page_pos)

declare copyout.simps [simp del]

text \<open>\<^verbatim>\<open>copyin\<close>: the result, the bytes that reached the destination, and the new state.\<close>

function copyin :: "u64 \<Rightarrow> u64 \<Rightarrow> u64 \<Rightarrow> u64 \<Rightarrow> nat \<Rightarrow> pmem \<Rightarrow> (i32 \<times> u8 list \<times> pmem) res" where
  "copyin psz ppt pt srcva len s =
     (if 0 < len then
        let va0 = PGROUNDDOWN srcva
        in bindR (user_page psz ppt pt va0 s) (\<lambda>r.
             let pa0 = fst r; s1 = snd r
             in if pa0 = 0 then Inr (- 1, [], s1)
                else let n = in_page srcva len
                     in bindR (copyin psz ppt pt (va0 + PGSIZE) (len - n) s1)
                          (\<lambda>(r, bs, s2). Inr (r, read_bytes (mem s1) (pa0 + (srcva - va0)) n @ bs, s2)))
      else Inr (0, [], s))"
  by pat_completeness auto

termination
  by (relation "measure (\<lambda>(psz, ppt, pt, va, len, s). len)") (auto simp: in_page_pos)

declare copyin.simps [simp del]

text \<open>The inner loop of \<^verbatim>\<open>copyinstr()\<close>: bytes up to a NUL, or \<open>n\<close> of them; whether it met a NUL.\<close>

primrec copy_until_nul :: "nat \<Rightarrow> memory \<Rightarrow> u64 \<Rightarrow> u8 list \<times> bool" where
  "copy_until_nul 0 m p = ([], False)"
| "copy_until_nul (Suc n) m p =
     (if m p = 0 then ([0], True)
      else let (bs, got_null) = copy_until_nul n m (p + 1) in (m p # bs, got_null))"

function copyinstr :: "u64 \<Rightarrow> u64 \<Rightarrow> nat \<Rightarrow> pmem \<Rightarrow> (i32 \<times> u8 list) res" where
  "copyinstr pt srcva maxlen s =
     (if 0 < maxlen then
        let va0 = PGROUNDDOWN srcva
        in bindR (walkaddr pt va0 s) (\<lambda>pa0.
             if pa0 = 0 then Inr (- 1, [])
             else let n = in_page srcva maxlen;
                      (bs, got_null) = copy_until_nul n (mem s) (pa0 + (srcva - va0))
                  in if got_null then Inr (0, bs)
                     else bindR (copyinstr pt (va0 + PGSIZE) (maxlen - n) s)
                            (\<lambda>(r, bs'). Inr (r, bs @ bs')))
      else Inr (- 1, []))"
  by pat_completeness auto

termination
  by (relation "measure (\<lambda>(pt, va, len, s). len)") (auto simp: in_page_pos)

declare copyinstr.simps [simp del]

section \<open>The page table of a process\<close>

text \<open>\<^verbatim>\<open>proc_pagetable()\<close> for a process whose trap frame is at \<open>tf\<close>.\<close>

definition proc_pagetable :: "u64 \<Rightarrow> u64 \<Rightarrow> pmem \<Rightarrow> (u64 \<times> pmem) res" where
  "proc_pagetable trampoline tf s =
     (let (pt, s1) = uvmcreate s
      in if pt = 0 then Inr (0, s1)
         else bindR (mappages pt TRAMPOLINE PGSIZE trampoline (PTE_R OR PTE_X) s1) (\<lambda>(r, s2).
           if sint r < 0 then bindR (uvmfree pt 0 s2) (\<lambda>s3. Inr (0, s3))
           else bindR (mappages pt TRAPFRAME PGSIZE tf (PTE_R OR PTE_W) s2) (\<lambda>(r, s3).
             if sint r < 0
             then bindR (uvmunmap pt TRAMPOLINE 1 False s3) (\<lambda>s4.
                  bindR (uvmfree pt 0 s4) (\<lambda>s5. Inr (0, s5)))
             else Inr (pt, s3))))"

definition proc_freepagetable :: "u64 \<Rightarrow> u64 \<Rightarrow> pmem \<Rightarrow> pmem res" where
  "proc_freepagetable pt len s =
     bindR (uvmunmap pt TRAMPOLINE 1 False s) (\<lambda>s1.
     bindR (uvmunmap pt TRAPFRAME 1 False s1) (\<lambda>s2. uvmfree pt len s2))"

text \<open>\<^verbatim>\<open>growproc(n)\<close> on the size \<open>psz\<close> and page table of the current process: the result, the new size.\<close>

definition growproc :: "i32 \<Rightarrow> u64 \<Rightarrow> u64 \<Rightarrow> pmem \<Rightarrow> (i32 \<times> u64 \<times> pmem) res" where
  "growproc n psz pt s =
     (if 0 < sint n then
        if TRAPFRAME < psz + scast n then Inr (- 1, psz, s)
        else bindR (uvmalloc pt psz (psz + scast n) PTE_W s) (\<lambda>(sz', s1).
               if sz' = 0 then Inr (- 1, psz, s1) else Inr (0, sz', s1))
      else if sint n < 0 then
        bindR (uvmdealloc pt psz (psz + scast n) s) (\<lambda>(sz', s1). Inr (0, sz', s1))
      else Inr (0, psz, s))"

end
