(* ===== verification/VmInv.thy ===== *)
theory VmInv
  imports Vm
begin

text \<open>
  What the functions of \<^verbatim>\<open>kernel/vm.c\<close> do to a page table and to the rest of memory. A table is
  read as a tree of pages (\<open>node_at\<close>) and as a map from virtual addresses to leaf entries
  (\<open>lpte\<close>); \<open>vmok\<close> is the invariant of a table together with the free list.
\<close>

section \<open>Page tables as trees\<close>

text \<open>The pages of a three-level table: the root, and below it one page per index path.\<close>

datatype node = Root | L1 u64 | L0 u64 u64

definition next_of :: "memory \<Rightarrow> u64 \<Rightarrow> u64 \<Rightarrow> u64 option" where
  "next_of m p i =
     (let e = load64 m (p + 8 * i) in if i < 512 \<and> pte_valid e then Some (PTE2PA e) else None)"

fun node_at :: "memory \<Rightarrow> u64 \<Rightarrow> node \<Rightarrow> u64 option" where
  "node_at m pt Root = Some pt"
| "node_at m pt (L1 i) = next_of m pt i"
| "node_at m pt (L0 i j) =
     (case next_of m pt i of None \<Rightarrow> None | Some p \<Rightarrow> next_of m p j)"

definition nodes :: "memory \<Rightarrow> u64 \<Rightarrow> u64 set" where
  "nodes m pt = {p. \<exists>n. node_at m pt n = Some p}"

lemma nodesI: "node_at m pt n = Some p \<Longrightarrow> p \<in> nodes m pt"
  unfolding nodes_def by blast

lemma nodesE: "p \<in> nodes m pt \<Longrightarrow> (\<And>n. node_at m pt n = Some p \<Longrightarrow> thesis) \<Longrightarrow> thesis"
  unfolding nodes_def by blast

text \<open>The leaf entry for a virtual address; a missing table reads as an entry of 0.\<close>

definition lpte :: "memory \<Rightarrow> u64 \<Rightarrow> u64 \<Rightarrow> u64" where
  "lpte m pt va =
     (case node_at m pt (L0 (PX 2 va) (PX 1 va)) of
        None \<Rightarrow> 0 | Some p \<Rightarrow> load64 m (p + 8 * PX 0 va))"

definition leaf_ptr :: "memory \<Rightarrow> u64 \<Rightarrow> u64 \<Rightarrow> u64" where
  "leaf_ptr m pt va =
     (case node_at m pt (L0 (PX 2 va) (PX 1 va)) of None \<Rightarrow> 0 | Some p \<Rightarrow> p + 8 * PX 0 va)"

text \<open>
  A well-formed table: its pages are pages of RAM, no page is used twice, and the entries of
  the upper two levels are not leaves.
\<close>

definition ptwf :: "pmem \<Rightarrow> u64 \<Rightarrow> bool" where
  "ptwf s pt \<longleftrightarrow>
     (\<forall>n p. node_at (mem s) pt n = Some p \<longrightarrow> ram_page s p) \<and>
     (\<forall>n n' p. node_at (mem s) pt n = Some p \<longrightarrow> node_at (mem s) pt n' = Some p \<longrightarrow> n = n') \<and>
     (\<forall>n p i. node_at (mem s) pt n = Some p \<longrightarrow> (\<forall>a b. n \<noteq> L0 a b) \<longrightarrow> i < 512 \<longrightarrow>
        pte_valid (load64 (mem s) (p + 8 * i)) \<longrightarrow>
        load64 (mem s) (p + 8 * i) AND (PTE_R OR PTE_W OR PTE_X) = 0)"

lemma pte_valid_bit: "pte_valid e \<longleftrightarrow> bit e 0"
  by (simp add: pte_valid_def bit_0 and_one_eq odd_iff_mod_2_eq_one)

lemma pte_valid_0 [simp]: "\<not> pte_valid 0"
  by (simp add: pte_valid_def)

subsection \<open>Entries of a page\<close>

lemma entry_in_page:
  assumes "page_aligned p" "i < 512"
  shows "word_in_page p (8 * i)"
proof -
  have "unat i < 512" using assms(2) by (simp add: word_less_nat_alt)
  then have "unat (8 * i) = 8 * unat i" by (simp add: unat_word_ariths)
  then show ?thesis using assms \<open>unat i < 512\<close> by (simp add: word_in_page_def)
qed

lemma load_entry_same:
  "page_aligned p \<Longrightarrow> i < 512 \<Longrightarrow> page_same m m' p \<Longrightarrow> load64 m' (p + 8 * i) = load64 m (p + 8 * i)"
  by (rule load64_page_same) (rule entry_in_page)

lemma unat_entry:
  assumes "page_aligned p" "i < 512" "unat p + 4096 \<le> 2 ^ 64"
  shows "unat (p + 8 * i) = unat p + 8 * unat i"
proof -
  have "unat i < 512" using assms(2) by (simp add: word_less_nat_alt)
  then have "unat (8 * i) = 8 * unat i" by (simp add: unat_word_ariths)
  then show ?thesis using assms(3) \<open>unat i < 512\<close> by (simp add: unat_word_ariths)
qed

lemma entry_aligned:
  assumes "page_aligned p" "i < 512" "unat p + 4096 \<le> 2 ^ 64"
  shows "unat (p + 8 * i) mod 8 = 0"
proof -
  obtain c where "unat p = 4096 * c"
    using assms(1) unfolding page_aligned_unat mod_eq_0_iff_dvd by (auto elim!: dvdE)
  then have "unat (p + 8 * i) = 8 * (512 * c + unat i)" using unat_entry [OF assms] by simp
  then show ?thesis by simp
qed

lemma entry_inj:
  assumes "page_aligned p" "i < 512" "j < 512" "unat p + 4096 \<le> 2 ^ 64" "p + 8 * i = p + 8 * j"
  shows "i = j"
  using unat_entry [of p i] unat_entry [of p j] assms by (simp add: word_unat_eq_iff)

lemma load_entry_store:
  assumes "page_aligned p" "i < 512" "j < 512" "unat p + 4096 \<le> 2 ^ 64"
  shows "load64 (store64 m (p + 8 * i) v) (p + 8 * j) = (if j = i then v else load64 m (p + 8 * j))"
proof (cases "j = i")
  case False
  then have "p + 8 * i \<noteq> p + 8 * j" using entry_inj [OF assms] by auto
  then show ?thesis using False assms by (simp add: load64_store64_other entry_aligned)
qed simp

lemma load64_zero:
  assumes "\<And>i. i < 8 \<Longrightarrow> m (a + of_nat i) = 0"
  shows "load64 m a = 0"
proof (rule bit_word_eqI)
  fix n assume "n < LENGTH(64)"
  then have "n div 8 < 8" by auto
  then show "bit (load64 m a) n = bit 0 n" using assms by (simp add: bit_load64)
qed

lemma load_entry_zero_page:
  assumes "page_aligned p" "i < 512" "\<And>a. PGROUNDDOWN a = p \<Longrightarrow> m a = 0"
  shows "load64 m (p + 8 * i) = 0"
  by (rule load64_zero) (use assms word_in_page_byte [OF entry_in_page [OF assms(1,2)]] in simp)

lemma ram_page_bound: "ram_page s p \<Longrightarrow> page_aligned p \<and> unat p + 4096 \<le> 2 ^ 64"
  by (simp add: ram_page_def word_less_nat_alt)

subsection \<open>Frames\<close>

lemma node_aligned: "page_aligned pt \<Longrightarrow> node_at m pt n = Some p \<Longrightarrow> page_aligned p"
  by (cases n) (auto simp: next_of_def Let_def split: if_splits option.splits)

lemma next_of_same:
  "page_aligned p \<Longrightarrow> page_same m m' p \<Longrightarrow> next_of m' p i = next_of m p i"
  using load_entry_same [of p i m m'] by (cases "i < 512") (auto simp: next_of_def Let_def)

lemma node_at_same:
  assumes "page_aligned pt" "\<And>p. p \<in> nodes m pt \<Longrightarrow> page_same m m' p"
  shows "node_at m' pt n = node_at m pt n"
proof -
  have root: "next_of m' pt i = next_of m pt i" for i
  proof (rule next_of_same [OF assms(1)])
    have "node_at m pt Root = Some pt" by simp
    then show "page_same m m' pt" by (intro assms(2)) (auto simp: nodes_def simp del: node_at.simps)
  qed
  have l1: "next_of m' p j = next_of m p j" if "next_of m pt i = Some p" for i j p
  proof (rule next_of_same)
    have "node_at m pt (L1 i) = Some p" using that by simp
    then show "page_aligned p" "page_same m m' p"
      using node_aligned [OF assms(1)] assms(2) unfolding nodes_def by blast+
  qed
  show ?thesis by (cases n) (auto simp: root l1 split: option.splits)
qed

lemma lpte_same:
  assumes "page_aligned pt" "\<And>p. p \<in> nodes m pt \<Longrightarrow> page_same m m' p"
  shows "lpte m' pt va = lpte m pt va"
proof -
  have "load64 m' (p + 8 * PX 0 va) = load64 m (p + 8 * PX 0 va)"
    if "node_at m pt (L0 (PX 2 va) (PX 1 va)) = Some p" for p
    by (rule load_entry_same [OF node_aligned [OF assms(1) that] PX_less assms(2) [OF nodesI [OF that]]])
  then show ?thesis
    using node_at_same [OF assms, of "L0 (PX 2 va) (PX 1 va)"]
    by (cases "node_at m pt (L0 (PX 2 va) (PX 1 va))") (simp_all add: lpte_def del: node_at.simps)
qed

lemma nodes_same:
  assumes "page_aligned pt" "\<And>p. p \<in> nodes m pt \<Longrightarrow> page_same m m' p"
  shows "nodes m' pt = nodes m pt"
  using node_at_same [OF assms] by (simp add: nodes_def)

lemma ptwf_aligned: "ptwf s pt \<Longrightarrow> page_aligned pt"
  unfolding ptwf_def by (metis node_at.simps(1) ram_page_def)

lemma ptwf_same:
  assumes wf: "ptwf s pt" and s': "kend s' = kend s"
    "\<And>p. p \<in> nodes (mem s) pt \<Longrightarrow> page_same (mem s) (mem s') p"
  shows "ptwf s' pt"
proof -
  have eq: "node_at (mem s') pt n = node_at (mem s) pt n" for n
    by (rule node_at_same [OF ptwf_aligned [OF wf] s'(2)])
  have ld: "load64 (mem s') (p + 8 * i) = load64 (mem s) (p + 8 * i)"
    if "node_at (mem s) pt n = Some p" "i < 512" for n p i
    by (rule load_entry_same [OF node_aligned [OF ptwf_aligned [OF wf] that(1)] that(2)
          s'(2) [OF nodesI [OF that(1)]]])
  show ?thesis using wf ld s'(1) unfolding ptwf_def eq by (auto simp: ram_page_def)
qed

section \<open>Walking and extending a table\<close>

definition vmok :: "pmem \<Rightarrow> u64 list \<Rightarrow> u64 \<Rightarrow> bool" where
  "vmok s xs pt \<longleftrightarrow> kinv s xs \<and> ptwf s pt \<and> nodes (mem s) pt \<inter> set xs = {}"

lemma vmokD:
  assumes "vmok s xs pt"
  shows "kinv s xs" "ptwf s pt" "page_aligned pt"
    "node_at (mem s) pt n = Some p \<Longrightarrow> ram_page s p"
    "node_at (mem s) pt n = Some p \<Longrightarrow> node_at (mem s) pt n' = Some p \<Longrightarrow> n = n'"
    "node_at (mem s) pt n = Some p \<Longrightarrow> p \<notin> set xs"
proof -
  show k: "kinv s xs" and w: "ptwf s pt" using assms by (auto simp: vmok_def)
  show "page_aligned pt" by (rule ptwf_aligned [OF w])
  show "node_at (mem s) pt n = Some p \<Longrightarrow> ram_page s p" using w unfolding ptwf_def by blast
  show "node_at (mem s) pt n = Some p \<Longrightarrow> node_at (mem s) pt n' = Some p \<Longrightarrow> n = n'"
    using w unfolding ptwf_def by blast
  show "node_at (mem s) pt n = Some p \<Longrightarrow> p \<notin> set xs"
    using assms nodesI unfolding vmok_def by fastforce
qed

text \<open>A change outside the table and the free pages.\<close>

lemma vmok_frame:
  assumes "vmok s xs pt" "kend s' = kend s" "freelist s' = freelist s"
    "\<And>p. p \<in> nodes (mem s) pt \<Longrightarrow> page_same (mem s) (mem s') p"
    "\<And>p. p \<in> set xs \<Longrightarrow> page_same (mem s) (mem s') p"
  shows "vmok s' xs pt"
proof -
  note v = vmokD [OF assms(1)]
  have "kinv s' xs" by (rule kinv_frame [OF v(1) assms(3,2,5)])
  moreover have "ptwf s' pt" by (rule ptwf_same [OF v(2) assms(2,4)])
  moreover have "nodes (mem s') pt = nodes (mem s) pt" by (rule nodes_same [OF v(3) assms(4)])
  ultimately show ?thesis using assms(1) by (simp add: vmok_def)
qed

subsection \<open>Without allocation\<close>

lemma walk_from_False:
  "walk_from 2 pt va False s = (leaf_ptr (mem s) pt va, s)"
  using PX_less [of 2 va] PX_less [of 1 va]
  by (auto simp: numeral_2_eq_2 leaf_ptr_def next_of_def Let_def split: option.splits)

lemma walk_False: "va < MAXVA \<Longrightarrow> walk pt va False s = Inr (leaf_ptr (mem s) pt va, s)"
  by (simp add: walk_def walk_from_False not_le)

lemma leaf_ptr_nonzero:
  assumes "vmok s xs pt" "leaf_ptr (mem s) pt va = 0"
  shows "node_at (mem s) pt (L0 (PX 2 va) (PX 1 va)) = None"
proof (rule ccontr)
  assume "node_at (mem s) pt (L0 (PX 2 va) (PX 1 va)) \<noteq> None"
  then obtain p where p: "node_at (mem s) pt (L0 (PX 2 va) (PX 1 va)) = Some p" by (auto simp del: node_at.simps)
  have r: "ram_page s p" by (rule vmokD(4) [OF assms(1) p])
  have "unat (p + 8 * PX 0 va) = unat p + 8 * unat (PX 0 va)"
    using ram_page_bound [OF r] PX_less by (intro unat_entry) auto
  moreover have "p \<noteq> 0" using ram_page_nonzero r vmokD(1) [OF assms(1)] by (auto simp: kinv_def)
  ultimately have "p + 8 * PX 0 va \<noteq> 0" by (metis add_is_0 unat_0 unat_eq_0)
  then show False using assms(2) p by (simp add: leaf_ptr_def del: node_at.simps)
qed

text \<open>The entry at the pointer that \<^verbatim>\<open>walk\<close> returns.\<close>

lemma load_leaf_ptr:
  "leaf_ptr m pt va \<noteq> 0 \<Longrightarrow> load64 m (leaf_ptr m pt va) = lpte m pt va"
  by (auto simp: leaf_ptr_def lpte_def simp del: node_at.simps split: option.splits)

lemma lpte_no_leaf:
  "vmok s xs pt \<Longrightarrow> leaf_ptr (mem s) pt va = 0 \<Longrightarrow> lpte (mem s) pt va = 0"
  using leaf_ptr_nonzero [of s xs pt va] by (simp add: lpte_def del: node_at.simps)

subsection \<open>Linking a new page\<close>

text \<open>The key of the table below entry \<open>i\<close> of a table.\<close>

fun child :: "node \<Rightarrow> u64 \<Rightarrow> node" where
  "child Root i = L1 i"
| "child (L1 j) i = L0 j i"
| "child (L0 j k) i = L0 j k"

lemma node_at_child:
  "node_at m pt n = Some p \<Longrightarrow> (\<And>a b. n \<noteq> L0 a b) \<Longrightarrow> node_at m pt (child n i) = next_of m p i"
  by (cases n) auto

text \<open>The memory when \<^verbatim>\<open>walk\<close> has put a zeroed page \<open>pg\<close> behind entry \<open>i\<close> of table \<open>p\<close>.\<close>

definition linked :: "memory \<Rightarrow> u64 \<Rightarrow> u64 \<Rightarrow> u64 \<Rightarrow> memory" where
  "linked m p i pg = store64 (memset m pg 0 4096) (p + 8 * i) (PA2PTE pg OR PTE_V)"

lemma linked_entries:
  assumes "page_aligned p" "unat p + 4096 \<le> 2 ^ 64" "page_aligned pg" "pg \<noteq> p" "i < 512" "k < 512"
  shows "load64 (linked m p i pg) (p + 8 * k) = (if k = i then PA2PTE pg OR PTE_V else load64 m (p + 8 * k))"
    "load64 (linked m p i pg) (pg + 8 * k) = 0"
    "page_aligned q \<Longrightarrow> q \<noteq> p \<Longrightarrow> q \<noteq> pg \<Longrightarrow> page_same m (linked m p i pg) q"
proof -
  let ?m1 = "memset m pg 0 4096"
  have s1: "page_same m ?m1 q" if "q \<noteq> pg" for q using page_same_memset [OF assms(3) that] .
  have s2: "page_same ?m1 (linked m p i pg) q" if "q \<noteq> p" for q
    unfolding linked_def by (rule page_same_store64 [OF entry_in_page [OF assms(1,5)] that])
  have "load64 (linked m p i pg) (p + 8 * k) = (if k = i then PA2PTE pg OR PTE_V else load64 ?m1 (p + 8 * k))"
    unfolding linked_def by (rule load_entry_store [OF assms(1,5,6,2)])
  then show "load64 (linked m p i pg) (p + 8 * k) = (if k = i then PA2PTE pg OR PTE_V else load64 m (p + 8 * k))"
    using load_entry_same [OF assms(1,6) s1] assms(4) by simp
  have "load64 ?m1 (pg + 8 * k) = 0"
    by (rule load_entry_zero_page [OF assms(3,6)]) (simp add: memset_page [OF assms(3)])
  then show "load64 (linked m p i pg) (pg + 8 * k) = 0"
    using load_entry_same [OF assms(3,6) s2] assms(4) by simp
  show "page_same m (linked m p i pg) q" if "page_aligned q" "q \<noteq> p" "q \<noteq> pg"
    by (rule page_same_trans [OF s1 s2]) (use that in auto)
qed

lemma new_entry:
  assumes "page_aligned pg"
  shows "pte_valid (PA2PTE pg OR PTE_V)" "PTE2PA (PA2PTE pg OR PTE_V) = pg"
    "(PA2PTE pg OR PTE_V) AND (PTE_R OR PTE_W OR PTE_X) = 0"
proof -
  show "pte_valid (PA2PTE pg OR PTE_V)" by (simp add: pte_valid_bit bit_or_iff)
  show "PTE2PA (PA2PTE pg OR PTE_V) = pg" by (rule PTE2PA_PA2PTE [OF assms]) simp
  have m: "PTE_R OR PTE_W OR PTE_X = 14" by simp
  show "(PA2PTE pg OR PTE_V) AND (PTE_R OR PTE_W OR PTE_X) = 0"
    unfolding m
  proof (rule bit_word_eqI)
    fix n
    have "n < 4 \<and> n \<noteq> 0" if "bit (14 :: u64) n"
      using that bit_less_exp [of "14 :: u64" 4 n] by (cases n) auto
    then show "bit ((PA2PTE pg OR 1) AND 14) n = bit 0 n"
      by (cases "bit (14 :: u64) n") (simp_all only: bit_and_iff bit_or_iff bit_PA2PTE bit_1_iff bit_0_eq, auto)
  qed
qed

text \<open>The hypotheses under which \<^verbatim>\<open>walk\<close> links a page: \<open>n\<close> is an upper table with no table below entry \<open>i\<close>.\<close>

lemma linked_next_of:
  assumes "page_aligned p" "unat p + 4096 \<le> 2 ^ 64" "page_aligned pg" "pg \<noteq> p" "i < 512"
  shows "next_of (linked m p i pg) p k = (if k = i then Some pg else next_of m p k)"
    "next_of (linked m p i pg) pg k = None"
    "page_aligned q \<Longrightarrow> q \<noteq> p \<Longrightarrow> q \<noteq> pg \<Longrightarrow> next_of (linked m p i pg) q k = next_of m q k"
proof -
  note le = linked_entries [OF assms]
  show "next_of (linked m p i pg) p k = (if k = i then Some pg else next_of m p k)"
    using le(1) [of k m] new_entry [OF assms(3)] assms(5) by (auto simp: next_of_def Let_def)
  show "next_of (linked m p i pg) pg k = None"
    using le(2) [of k m] by (auto simp: next_of_def Let_def)
  show "next_of (linked m p i pg) q k = next_of m q k" if "page_aligned q" "q \<noteq> p" "q \<noteq> pg"
    by (rule next_of_same [OF that(1) linked_entries(3) [OF assms assms(5)]]) (use that in auto)
qed

lemma node_at_linked:
  assumes ok: "vmok s xs pt" and pg: "page_aligned pg" "pg \<notin> nodes (mem s) pt"
    and n: "node_at (mem s) pt n = Some p" "\<And>a b. n \<noteq> L0 a b"
    and i: "i < 512" "node_at (mem s) pt (child n i) = None"
  shows "node_at (linked (mem s) p i pg) pt k = (if k = child n i then Some pg else node_at (mem s) pt k)"
proof -
  let ?m = "mem s" and ?m' = "linked (mem s) p i pg"
  have rp: "page_aligned p" "unat p + 4096 \<le> 2 ^ 64" using ram_page_bound [OF vmokD(4) [OF ok n(1)]] by auto
  have pgp: "pg \<noteq> p" using pg(2) nodesI [OF n(1)] by auto
  note nx = linked_next_of [OF rp pg(1) pgp i(1), where m = ?m]
  have root: "node_at ?m pt Root = Some pt" by simp
  have ptpg: "pg \<noteq> pt" using pg(2) nodesI [OF root] by auto
  have oth: "next_of ?m' q j = next_of ?m q j" if "node_at ?m pt k' = Some q" "k' \<noteq> n" for q j k'
  proof (rule nx(3))
    show "page_aligned q" by (rule node_aligned [OF vmokD(3) [OF ok] that(1)])
    show "q \<noteq> p" using vmokD(5) [OF ok n(1)] that by auto
    show "q \<noteq> pg" using pg(2) nodesI [OF that(1)] by auto
  qed
  show ?thesis
  proof (cases n)
    case Root
    then have p: "p = pt" and none: "next_of ?m pt i = None" using n i by auto
    have r: "next_of ?m' pt j = (if j = i then Some pg else next_of ?m pt j)" for j
      using nx(1) [of j] p by simp
    show ?thesis
    proof (cases k)
      case (L0 a b)
      show ?thesis
      proof (cases "a = i")
        case True
        then show ?thesis using L0 r Root none nx(2) by simp
      next
        case False
        then show ?thesis
          using L0 r Root oth [of "L1 a"] by (auto split: option.splits)
      qed
    qed (use r Root in auto)
  next
    case (L1 j)
    then have pj: "next_of ?m pt j = Some p" and none: "next_of ?m p i = None" using n i by auto
    have r: "next_of ?m' pt j' = next_of ?m pt j'" for j' using oth [OF root] L1 by simp
    show ?thesis
    proof (cases k)
      case (L0 a b)
      show ?thesis
      proof (cases "a = j")
        case True
        then show ?thesis using L0 r L1 pj nx(1) [of b] by simp
      next
        case False
        then show ?thesis using L0 r L1 oth [of "node.L1 a"] by (auto split: option.splits)
      qed
    qed (use r L1 in auto)
  next
    case (L0 a b)
    then show ?thesis using n(2) by simp
  qed
qed

lemma lpte_linked:
  assumes ok: "vmok s xs pt" and pg: "page_aligned pg" "pg \<notin> nodes (mem s) pt"
    and n: "node_at (mem s) pt n = Some p" "\<And>a b. n \<noteq> L0 a b"
    and i: "i < 512" "node_at (mem s) pt (child n i) = None"
  shows "lpte (linked (mem s) p i pg) pt va = lpte (mem s) pt va"
proof -
  let ?m = "mem s" and ?m' = "linked (mem s) p i pg" and ?k = "L0 (PX 2 va) (PX 1 va)"
  note na = node_at_linked [OF assms]
  have rp: "page_aligned p" "unat p + 4096 \<le> 2 ^ 64" using ram_page_bound [OF vmokD(4) [OF ok n(1)]] by auto
  have pgp: "pg \<noteq> p" using pg(2) nodesI [OF n(1)] by auto
  note le = linked_entries [OF rp pg(1) pgp i(1) PX_less]
  show ?thesis
  proof (cases "?k = child n i")
    case True
    then show ?thesis using na [of ?k] i(2) le(2) by (simp add: lpte_def del: node_at.simps)
  next
    case False
    have "load64 ?m' (q + 8 * PX 0 va) = load64 ?m (q + 8 * PX 0 va)" if q: "node_at ?m pt ?k = Some q" for q
    proof -
      have al: "page_aligned q" by (rule node_aligned [OF vmokD(3) [OF ok] q])
      have "q \<noteq> p" using vmokD(5) [OF ok n(1), of ?k] q n(2) by metis
      moreover have "q \<noteq> pg" using pg(2) nodesI [OF q] by auto
      ultimately show ?thesis using load_entry_same [OF al PX_less le(3) [OF al]] by blast
    qed
    then show ?thesis using na [of ?k] False
      by (cases "node_at ?m pt ?k") (simp_all add: lpte_def del: node_at.simps)
  qed
qed

text \<open>What \<^verbatim>\<open>walk\<close> does when it links the next free page.\<close>

lemma vmok_linked:
  assumes ok: "vmok s (pg # xs) pt"
    and n: "node_at (mem s) pt n = Some p" "\<And>a b. n \<noteq> L0 a b"
    and i: "i < 512" "node_at (mem s) pt (child n i) = None"
    and s': "s' = (snd (kalloc s))\<lparr>mem := linked (mem (snd (kalloc s))) p i pg\<rparr>"
  shows "fst (kalloc s) = pg" "pg \<noteq> 0" "vmok s' xs pt" "kend s' = kend s"
    "node_at (mem s') pt = (node_at (mem s) pt)(child n i := Some pg)"
    "nodes (mem s') pt = insert pg (nodes (mem s) pt)"
    "\<And>va. lpte (mem s') pt va = lpte (mem s) pt va"
    "\<And>q. page_aligned q \<Longrightarrow> q \<noteq> p \<Longrightarrow> q \<noteq> pg \<Longrightarrow> page_same (mem s) (mem s') q"
proof -
  have kal: "kalloc s = (pg, s\<lparr>mem := memset (mem s) pg 5 4096, freelist := load64 (mem s) pg\<rparr>)"
    and kinv1: "kinv (snd (kalloc s)) xs"
    using kalloc_Cons [OF vmokD(1) [OF ok]] by auto
  define s1 where "s1 = snd (kalloc s)"
  have pgok: "ram_page s pg" "pg \<notin> set xs" "pg \<noteq> 0" "pg \<notin> nodes (mem s) pt"
    using kmem.inv_pages [OF vmokD(1) [OF ok]] ok by (auto simp: vmok_def)
  then have al: "page_aligned pg" by (simp add: ram_page_def)
  show "fst (kalloc s) = pg" "pg \<noteq> 0" using kal pgok by simp_all
  show ke: "kend s' = kend s" using s' kal by simp
  have same1: "page_same (mem s) (mem s1) q" if "q \<noteq> pg" for q
    using page_same_memset [OF al that] kal by (simp add: s1_def)
  have sm: "\<And>q. q \<in> nodes (mem s) pt \<Longrightarrow> page_same (mem s) (mem s1) q"
    using same1 pgok(4) by metis
  have ok1: "vmok s1 xs pt"
  proof -
    have "ptwf s1 pt" by (rule ptwf_same [OF vmokD(2) [OF ok] _ sm]) (simp add: s1_def kal)
    moreover have "nodes (mem s1) pt = nodes (mem s) pt" by (rule nodes_same [OF vmokD(3) [OF ok] sm])
    ultimately show ?thesis using ok kinv1 by (auto simp: vmok_def s1_def)
  qed
  have eq0: "node_at (mem s1) pt k = node_at (mem s) pt k" for k
    by (rule node_at_same [OF vmokD(3) [OF ok] sm])
  have eq2: "lpte (mem s1) pt va = lpte (mem s) pt va" for va
    by (rule lpte_same [OF vmokD(3) [OF ok] sm])
  note eq1 = eq0 eq2
  have nd1: "nodes (mem s1) pt = nodes (mem s) pt" by (simp add: nodes_def eq1)
  have m': "mem s' = linked (mem s1) p i pg" using s' by (simp add: s1_def)
  note pre = ok1 al pgok(4) [folded nd1] n(1) [folded eq1] n(2) i(1) i(2) [folded eq1]
  have na: "node_at (mem s') pt k = (if k = child n i then Some pg else node_at (mem s) pt k)" for k
    using node_at_linked [OF pre] by (simp add: m' eq1)
  then show nu: "node_at (mem s') pt = (node_at (mem s) pt)(child n i := Some pg)" by auto
  show nd: "nodes (mem s') pt = insert pg (nodes (mem s) pt)"
    unfolding nodes_def nu using i(2)
    by (auto split: if_splits) (metis option.distinct(1))
  show "lpte (mem s') pt va = lpte (mem s) pt va" for va
    using lpte_linked [OF pre] by (simp add: m' eq1)
  have rp: "page_aligned p" "unat p + 4096 \<le> 2 ^ 64" using ram_page_bound [OF vmokD(4) [OF ok n(1)]] by auto
  have pgp: "pg \<noteq> p" using pgok(4) nodesI [OF n(1)] by auto
  note le = linked_entries [OF rp al pgp i(1)]
  show fr: "page_same (mem s) (mem s') q" if "page_aligned q" "q \<noteq> p" "q \<noteq> pg" for q
    unfolding m' by (rule page_same_trans [OF same1 [OF that(3)] le(3) [OF i(1) that]])
  have "kinv s' xs"
  proof (rule kinv_frame [OF kinv1 [folded s1_def]])
    show "freelist s' = freelist s1" "kend s' = kend s1" using s' by (simp_all add: s1_def)
    fix q assume q: "q \<in> set xs"
    then have "page_aligned q" "q \<noteq> p" "q \<noteq> pg"
      using kinv1 pgok(2) vmokD(6) [OF ok n(1)] by (auto simp: kinv_def ram_page_def)
    then show "page_same (mem s1) (mem s') q" unfolding m' by (rule le(3) [OF i(1)])
  qed
  moreover have "ptwf s' pt"
    unfolding ptwf_def
  proof (intro conjI allI impI)
    fix k q assume "node_at (mem s') pt k = Some q"
    then show "ram_page s' q"
      using na [of k] vmokD(4) [OF ok, of k q] pgok(1) ke by (auto simp: ram_page_def split: if_splits)
  next
    fix k k' q assume kk: "node_at (mem s') pt k = Some q" "node_at (mem s') pt k' = Some q"
    have old: "node_at (mem s) pt l \<noteq> Some pg" for l using pgok(4) nodesI by metis
    show "k = k'"
    proof (cases "k = child n i"; cases "k' = child n i")
      assume "k \<noteq> child n i" "k' \<noteq> child n i"
      then show ?thesis using kk na vmokD(5) [OF ok] by simp
    qed (use kk na old in simp_all)
  next
    fix k q j assume k: "node_at (mem s') pt k = Some q" "\<forall>a b. k \<noteq> L0 a b" "j < 512"
      and v: "pte_valid (load64 (mem s') (q + 8 * j))"
    have upper: "load64 (mem s1) (q + 8 * j) AND (PTE_R OR PTE_W OR PTE_X) = 0"
      if "node_at (mem s1) pt k = Some q" "pte_valid (load64 (mem s1) (q + 8 * j))"
      using vmokD(2) [OF ok1] that k(2,3) unfolding ptwf_def by blast
    show "load64 (mem s') (q + 8 * j) AND (PTE_R OR PTE_W OR PTE_X) = 0"
    proof (cases "k = child n i")
      case True
      then have "q = pg" using k(1) na by simp
      then show ?thesis using v le(2) [OF k(3), of "mem s1"] by (simp add: m')
    next
      case False
      then have kq: "node_at (mem s1) pt k = Some q" using k(1) na eq1 by simp
      show ?thesis
      proof (cases "q = p")
        case True
        then show ?thesis
          using le(1) [OF k(3), of "mem s1"] new_entry(3) [OF al] upper [OF kq] v
          by (cases "j = i") (auto simp: m')
      next
        case False
        have "q \<noteq> pg" using kq pgok(4) nd1 nodesI by metis
        then have "load64 (mem s') (q + 8 * j) = load64 (mem s1) (q + 8 * j)"
          unfolding m' using False node_aligned [OF vmokD(3) [OF ok] kq]
          by (intro load_entry_same k(3) le(3) [OF i(1)]) auto
        then show ?thesis using upper [OF kq] v by simp
      qed
    qed
  qed
  moreover have "nodes (mem s') pt \<inter> set xs = {}" unfolding nd using ok pgok(2) by (auto simp: vmok_def)
  ultimately show "vmok s' xs pt" by (simp add: vmok_def)
qed

text \<open>
  The effect of \<^verbatim>\<open>walk\<close> with allocation: some free pages have become pages of the table, the
  mapping is the same, and so are all other pages.
\<close>

definition extends :: "u64 \<Rightarrow> pmem \<Rightarrow> u64 list \<Rightarrow> pmem \<Rightarrow> u64 list \<Rightarrow> bool" where
  "extends pt s xs s' xs' \<longleftrightarrow>
     vmok s' xs' pt \<and> kend s' = kend s \<and>
     (\<forall>n p. node_at (mem s) pt n = Some p \<longrightarrow> node_at (mem s') pt n = Some p) \<and>
     (\<forall>va. lpte (mem s') pt va = lpte (mem s) pt va) \<and>
     (\<exists>ys. xs = ys @ xs' \<and> nodes (mem s') pt = nodes (mem s) pt \<union> set ys) \<and>
     (\<forall>q. page_aligned q \<longrightarrow> q \<notin> nodes (mem s') pt \<longrightarrow> page_same (mem s) (mem s') q)"

lemma extends_refl: "vmok s xs pt \<Longrightarrow> extends pt s xs s xs"
  by (simp add: extends_def)

lemma extends_trans:
  assumes "extends pt s xs s1 xs1" "extends pt s1 xs1 s2 xs2"
  shows "extends pt s xs s2 xs2"
proof -
  obtain ys where ys: "xs = ys @ xs1" "nodes (mem s1) pt = nodes (mem s) pt \<union> set ys"
    using assms(1) by (auto simp: extends_def)
  obtain zs where zs: "xs1 = zs @ xs2" "nodes (mem s2) pt = nodes (mem s1) pt \<union> set zs"
    using assms(2) by (auto simp: extends_def)
  have "xs = (ys @ zs) @ xs2" "nodes (mem s2) pt = nodes (mem s) pt \<union> set (ys @ zs)"
    using ys zs by auto
  then have "\<exists>us. xs = us @ xs2 \<and> nodes (mem s2) pt = nodes (mem s) pt \<union> set us" by blast
  moreover have "page_same (mem s) (mem s2) q" if q: "page_aligned q" "q \<notin> nodes (mem s2) pt" for q
  proof (rule page_same_trans)
    show "page_same (mem s) (mem s1) q" using assms(1) q zs(2) by (simp add: extends_def)
    show "page_same (mem s1) (mem s2) q" using assms(2) q by (simp add: extends_def)
  qed
  ultimately show ?thesis using assms by (simp add: extends_def)
qed

lemma extends_link:
  assumes ok: "vmok s (pg # xs) pt"
    and n: "node_at (mem s) pt n = Some p" "\<And>a b. n \<noteq> L0 a b"
    and i: "i < 512" "node_at (mem s) pt (child n i) = None"
    and s': "s' = (snd (kalloc s))\<lparr>mem := linked (mem (snd (kalloc s))) p i pg\<rparr>"
  shows "extends pt s (pg # xs) s' xs" "node_at (mem s') pt (child n i) = Some pg"
proof -
  note l = vmok_linked [OF assms]
  have pn: "p \<in> nodes (mem s) pt" by (rule nodesI [OF n(1)])
  have "\<exists>ys. pg # xs = ys @ xs \<and> nodes (mem s') pt = nodes (mem s) pt \<union> set ys"
    by (rule exI [of _ "[pg]"]) (simp add: l(6))
  moreover have "\<forall>k q. node_at (mem s) pt k = Some q \<longrightarrow> node_at (mem s') pt k = Some q"
    using i(2) by (auto simp: l(5))
  moreover have "page_same (mem s) (mem s') q" if "page_aligned q" "q \<notin> nodes (mem s') pt" for q
    using that pn by (intro l(8)) (auto simp: l(6))
  ultimately show "extends pt s (pg # xs) s' xs" unfolding extends_def using l(3,4,7) by blast
  show "node_at (mem s') pt (child n i) = Some pg" by (simp add: l(5))
qed

text \<open>One level of \<^verbatim>\<open>walk\<close>.\<close>

lemma walk_from_Suc:
  assumes ok: "vmok s xs pt" and n: "node_at (mem s) pt n = Some p" "\<And>a b. n \<noteq> L0 a b"
  obtains
    (fail) "xs = []" "walk_from (Suc l) p va True s = (0, s)"
  | (down) q s' xs' where "extends pt s xs s' xs'" "node_at (mem s') pt (child n (PX (Suc l) va)) = Some q"
      "walk_from (Suc l) p va True s = walk_from l q va True s'" "length xs \<le> length xs' + 1"
proof (cases "next_of (mem s) p (PX (Suc l) va)")
  case (Some q)
  show thesis
  proof (rule down [OF extends_refl [OF ok]])
    show "node_at (mem s) pt (child n (PX (Suc l) va)) = Some q"
      using node_at_child [OF n] Some by simp
    show "walk_from (Suc l) p va True s = walk_from l q va True s"
      using Some by (auto simp: next_of_def Let_def split: if_splits)
  qed simp
next
  case None
  then have none: "node_at (mem s) pt (child n (PX (Suc l) va)) = None"
    using node_at_child [OF n] by simp
  have inv: "\<not> pte_valid (load64 (mem s) (p + 8 * PX (Suc l) va))"
    using None PX_less [of "Suc l" va] by (simp add: next_of_def Let_def split: if_splits)
  show thesis
  proof (cases xs)
    case Nil
    then have "kalloc s = (0, s)" using vmokD(1) [OF ok] kmem.alloc_none by simp
    then show thesis using fail Nil inv by simp
  next
    case (Cons pg xs')
    let ?s' = "(snd (kalloc s))\<lparr>mem := linked (mem (snd (kalloc s))) p (PX (Suc l) va) pg\<rparr>"
    note e = extends_link [OF ok [unfolded Cons] n PX_less none refl]
    note v = vmok_linked [OF ok [unfolded Cons] n PX_less none refl]
    show thesis
    proof (rule down [OF _ e(2)])
      show "extends pt s xs ?s' xs'" using e(1) Cons by simp
      show "walk_from (Suc l) p va True s = walk_from l pg va True ?s'"
        using inv v(1,2) by (simp add: linked_def Let_def split_beta)
    qed (simp add: Cons)
  qed
qed

lemma walk_alloc:
  assumes ok: "vmok s xs pt" and va: "va < MAXVA"
  obtains
    (oom) s' where "walk pt va True s = Inr (0, s')" "extends pt s xs s' []" "length xs < 2"
  | (ptr) s' xs' where "walk pt va True s = Inr (leaf_ptr (mem s') pt va, s')" "leaf_ptr (mem s') pt va \<noteq> 0"
      "extends pt s xs s' xs'" "length xs \<le> length xs' + 2"
proof -
  have w: "walk pt va True s = Inr (walk_from (Suc (Suc 0)) pt va True s)"
    using va by (simp add: walk_def numeral_2_eq_2 not_le)
  have root: "node_at (mem s) pt Root = Some pt" by simp
  show thesis
  proof (rule walk_from_Suc [OF ok root, of "Suc 0" va])
    assume f: "xs = []" "walk_from (Suc (Suc 0)) pt va True s = (0, s)"
    show thesis by (rule oom [of s]) (use w f extends_refl [OF ok] in simp_all)
  next
    fix q s1 xs1
    assume e1: "extends pt s xs s1 xs1"
      and q: "node_at (mem s1) pt (child Root (PX (Suc (Suc 0)) va)) = Some q"
      and w1: "walk_from (Suc (Suc 0)) pt va True s = walk_from (Suc 0) q va True s1"
      and l1: "length xs \<le> length xs1 + 1"
    have ok1: "vmok s1 xs1 pt" using e1 by (simp add: extends_def)
    show thesis
    proof (rule walk_from_Suc [OF ok1 q, of 0 va])
      assume f: "xs1 = []" "walk_from (Suc 0) q va True s1 = (0, s1)"
      show thesis by (rule oom [of s1]) (use w w1 f e1 l1 in simp_all)
    next
      fix q2 s2 xs2
      assume e2: "extends pt s1 xs1 s2 xs2"
        and q2: "node_at (mem s2) pt (child (child Root (PX (Suc (Suc 0)) va)) (PX (Suc 0) va)) = Some q2"
        and w2: "walk_from (Suc 0) q va True s1 = walk_from 0 q2 va True s2"
        and l2: "length xs1 \<le> length xs2 + 1"
      have e: "extends pt s xs s2 xs2" by (rule extends_trans [OF e1 e2])
      have k: "node_at (mem s2) pt (L0 (PX 2 va) (PX 1 va)) = Some q2"
        using q2 by (simp add: numeral_2_eq_2)
      have lp: "leaf_ptr (mem s2) pt va = q2 + 8 * PX 0 va"
        using k by (simp add: leaf_ptr_def del: node_at.simps)
      have "leaf_ptr (mem s2) pt va \<noteq> 0"
        using leaf_ptr_nonzero [of s2 xs2 pt va] e k by (auto simp: extends_def simp del: node_at.simps)
      then show thesis using ptr [OF _ _ e] w w1 w2 lp l1 l2 by simp
    qed simp
  qed simp
qed

section \<open>Writing a leaf entry\<close>

lemma leaf_ptrD:
  assumes "leaf_ptr m pt va \<noteq> 0"
  obtains p where "node_at m pt (L0 (PX 2 va) (PX 1 va)) = Some p" "leaf_ptr m pt va = p + 8 * PX 0 va"
  using assms by (auto simp: leaf_ptr_def simp del: node_at.simps split: option.splits)

lemma store_leaf_lpte:
  assumes ok: "vmok s xs pt" and nz: "leaf_ptr (mem s) pt va \<noteq> 0" and va: "va < MAXVA" "vb < MAXVA"
  shows "lpte (store64 (mem s) (leaf_ptr (mem s) pt va) v) pt vb =
    (if PGROUNDDOWN vb = PGROUNDDOWN va then v else lpte (mem s) pt vb)"
    and "node_at (store64 (mem s) (leaf_ptr (mem s) pt va) v) pt n = node_at (mem s) pt n"
proof -
  let ?m = "mem s" and ?m' = "store64 (mem s) (leaf_ptr (mem s) pt va) v"
  obtain p where p: "node_at ?m pt (L0 (PX 2 va) (PX 1 va)) = Some p" "leaf_ptr ?m pt va = p + 8 * PX 0 va"
    using leaf_ptrD [OF nz] by blast
  have rp: "page_aligned p" "unat p + 4096 \<le> 2 ^ 64" using ram_page_bound [OF vmokD(4) [OF ok p(1)]] by auto
  have sm: "page_same ?m ?m' q" if "q \<noteq> p" for q
    unfolding p(2) by (rule page_same_store64 [OF entry_in_page [OF rp(1) PX_less] that])
  have upper: "next_of ?m' q i = next_of ?m q i"
    if "node_at ?m pt k = Some q" "\<And>a b. k \<noteq> L0 a b" for k q i
  proof (rule next_of_same)
    show "page_aligned q" by (rule node_aligned [OF vmokD(3) [OF ok] that(1)])
    show "page_same ?m ?m' q" using vmokD(5) [OF ok p(1), of k] that by (intro sm) metis
  qed
  have root: "next_of ?m' pt i = next_of ?m pt i" for i by (rule upper [of Root]) simp_all
  show na: "node_at ?m' pt n = node_at ?m pt n" for n
  proof (cases n)
    case (L0 a b)
    then show ?thesis using root upper [of "L1 a"] by (auto split: option.splits)
  qed (use root in auto)
  have same_key: "PGROUNDDOWN vb = PGROUNDDOWN va"
    if "L0 (PX 2 vb) (PX 1 vb) = L0 (PX 2 va) (PX 1 va)" "PX 0 vb = PX 0 va"
    using that va by (intro PX_inj) auto
  have page_px: "PX l vb = PX l va" if "PGROUNDDOWN vb = PGROUNDDOWN va" for l
    by (metis PX_PGROUNDDOWN that)
  show "lpte ?m' pt vb = (if PGROUNDDOWN vb = PGROUNDDOWN va then v else lpte ?m pt vb)"
  proof (cases "L0 (PX 2 vb) (PX 1 vb) = L0 (PX 2 va) (PX 1 va)")
    case True
    then have "lpte ?m' pt vb = load64 ?m' (p + 8 * PX 0 vb)" "lpte ?m pt vb = load64 ?m (p + 8 * PX 0 vb)"
      using p(1) na by (simp_all add: lpte_def del: node_at.simps)
    then show ?thesis
      using load_entry_store [OF rp(1) PX_less PX_less rp(2), of ?m 0 va v 0 vb] same_key [OF True] page_px
      by (auto simp: p(2))
  next
    case False
    then have ne: "PGROUNDDOWN vb \<noteq> PGROUNDDOWN va" using page_px by auto
    have "load64 ?m' (q + 8 * PX 0 vb) = load64 ?m (q + 8 * PX 0 vb)"
      if q: "node_at ?m pt (L0 (PX 2 vb) (PX 1 vb)) = Some q" for q
    proof (rule load_entry_same [OF node_aligned [OF vmokD(3) [OF ok] q] PX_less sm])
      show "q \<noteq> p" using vmokD(5) [OF ok p(1), of "L0 (PX 2 vb) (PX 1 vb)"] q False by metis
    qed
    then show ?thesis using ne na [of "L0 (PX 2 vb) (PX 1 vb)"]
      by (cases "node_at ?m pt (L0 (PX 2 vb) (PX 1 vb))") (simp_all add: lpte_def del: node_at.simps)
  qed
qed

lemma store_leaf_same:
  assumes ok: "vmok s xs pt" and nz: "leaf_ptr (mem s) pt va \<noteq> 0" and va: "va < MAXVA"
    and q: "\<And>a b. node_at (mem s) pt (L0 a b) \<noteq> Some q"
  shows "page_same (mem s) (store64 (mem s) (leaf_ptr (mem s) pt va) v) q"
proof -
  obtain p where p: "node_at (mem s) pt (L0 (PX 2 va) (PX 1 va)) = Some p" "leaf_ptr (mem s) pt va = p + 8 * PX 0 va"
    using leaf_ptrD [OF nz] by blast
  have "page_aligned p" using ram_page_bound [OF vmokD(4) [OF ok p(1)]] by auto
  moreover have "q \<noteq> p" using p(1) q by blast
  ultimately show ?thesis unfolding p(2) by (intro page_same_store64 entry_in_page PX_less)
qed

lemma store_leaf_vmok:
  assumes ok: "vmok s xs pt" and nz: "leaf_ptr (mem s) pt va \<noteq> 0" and va: "va < MAXVA"
    and s': "s' = s\<lparr>mem := store64 (mem s) (leaf_ptr (mem s) pt va) v\<rparr>"
  shows "vmok s' xs pt" "nodes (mem s') pt = nodes (mem s) pt"
proof -
  have na: "node_at (mem s') pt n = node_at (mem s) pt n" for n
    using store_leaf_lpte(2) [OF ok nz va va] by (simp add: s')
  show nd: "nodes (mem s') pt = nodes (mem s) pt" by (simp add: nodes_def na)
  have sm: "page_same (mem s) (mem s') q" if "\<And>a b. node_at (mem s) pt (L0 a b) \<noteq> Some q" for q
    using store_leaf_same [OF ok nz va that] by (simp add: s')
  have "kinv s' xs"
  proof (rule kinv_frame [OF vmokD(1) [OF ok]])
    fix q assume "q \<in> set xs"
    then show "page_same (mem s) (mem s') q" using vmokD(6) [OF ok] by (intro sm) blast
  qed (simp_all add: s')
  moreover have "ptwf s' pt"
    unfolding ptwf_def
  proof (intro conjI allI impI)
    fix n q assume "node_at (mem s') pt n = Some q"
    then have "ram_page s q" using vmokD(4) [OF ok, of n q] na by simp
    then show "ram_page s' q" by (simp add: ram_page_def s')
  next
    fix n n' q assume "node_at (mem s') pt n = Some q" "node_at (mem s') pt n' = Some q"
    then show "n = n'" using vmokD(5) [OF ok, of n q n'] by (simp add: na)
  next
    fix n q i assume a: "node_at (mem s') pt n = Some q" "\<forall>a b. n \<noteq> L0 a b" "i < 512"
      "pte_valid (load64 (mem s') (q + 8 * i))"
    have n: "node_at (mem s) pt n = Some q" using a(1) na by simp
    have "page_same (mem s) (mem s') q"
      using vmokD(5) [OF ok n] a(2) by (intro sm) blast
    then have "load64 (mem s') (q + 8 * i) = load64 (mem s) (q + 8 * i)"
      by (rule load_entry_same [OF node_aligned [OF vmokD(3) [OF ok] n] a(3)])
    then show "load64 (mem s') (q + 8 * i) AND (PTE_R OR PTE_W OR PTE_X) = 0"
      using vmokD(2) [OF ok] n a(2-4) unfolding ptwf_def by metis
  qed
  ultimately show "vmok s' xs pt" using ok nd by (simp add: vmok_def)
qed

section \<open>mappages\<close>

text \<open>
  \<open>remaps pt s xs s' xs' f\<close>: the table has taken over some free pages, the leaf entries are now
  those of \<open>f\<close>, and every page outside the table is as it was.
\<close>

definition remaps :: "u64 \<Rightarrow> pmem \<Rightarrow> u64 list \<Rightarrow> pmem \<Rightarrow> u64 list \<Rightarrow> (u64 \<Rightarrow> u64) \<Rightarrow> bool" where
  "remaps pt s xs s' xs' f \<longleftrightarrow>
     vmok s' xs' pt \<and> kend s' = kend s \<and>
     (\<exists>ys. xs = ys @ xs' \<and> nodes (mem s') pt = nodes (mem s) pt \<union> set ys) \<and>
     (\<forall>va < MAXVA. lpte (mem s') pt va = f va) \<and>
     (\<forall>q. page_aligned q \<longrightarrow> q \<notin> nodes (mem s') pt \<longrightarrow> page_same (mem s) (mem s') q)"

lemma remaps_trans:
  assumes "remaps pt s xs s1 xs1 f" "remaps pt s1 xs1 s2 xs2 g"
  shows "remaps pt s xs s2 xs2 g"
proof -
  obtain ys where ys: "xs = ys @ xs1" "nodes (mem s1) pt = nodes (mem s) pt \<union> set ys"
    using assms(1) by (auto simp: remaps_def)
  obtain zs where zs: "xs1 = zs @ xs2" "nodes (mem s2) pt = nodes (mem s1) pt \<union> set zs"
    using assms(2) by (auto simp: remaps_def)
  have "xs = (ys @ zs) @ xs2" "nodes (mem s2) pt = nodes (mem s) pt \<union> set (ys @ zs)"
    using ys zs by auto
  then have "\<exists>us. xs = us @ xs2 \<and> nodes (mem s2) pt = nodes (mem s) pt \<union> set us" by blast
  moreover have "page_same (mem s) (mem s2) q" if q: "page_aligned q" "q \<notin> nodes (mem s2) pt" for q
  proof (rule page_same_trans)
    show "page_same (mem s) (mem s1) q" using assms(1) q zs(2) by (simp add: remaps_def)
    show "page_same (mem s1) (mem s2) q" using assms(2) q by (simp add: remaps_def)
  qed
  ultimately show ?thesis using assms by (simp add: remaps_def)
qed

lemma extends_remaps: "extends pt s xs s' xs' \<Longrightarrow> remaps pt s xs s' xs' (lpte (mem s) pt)"
  by (simp add: extends_def remaps_def)

lemma store_leaf_remaps:
  assumes ok: "vmok s xs pt" and nz: "leaf_ptr (mem s) pt va \<noteq> 0" and va: "va < MAXVA"
  shows "remaps pt s xs (s\<lparr>mem := store64 (mem s) (leaf_ptr (mem s) pt va) v\<rparr>) xs
    (\<lambda>vb. if PGROUNDDOWN vb = PGROUNDDOWN va then v else lpte (mem s) pt vb)"
proof -
  let ?s = "s\<lparr>mem := store64 (mem s) (leaf_ptr (mem s) pt va) v\<rparr>"
  note st = store_leaf_vmok [OF ok nz va refl]
  have "page_same (mem s) (mem ?s) q" if "q \<notin> nodes (mem s) pt" for q
    using store_leaf_same [OF ok nz va] that nodesI by (metis pmem.select_convs(1) pmem.surjective pmem.update_convs(1))
  then show ?thesis
    using st store_leaf_lpte(1) [OF ok nz va] by (simp add: remaps_def)
qed

lemma PGROUNDDOWN_eq_iff:
  assumes "page_aligned a"
  shows "PGROUNDDOWN va = a \<longleftrightarrow> unat a \<le> unat va \<and> unat va < unat a + 4096"
proof -
  obtain c where c: "unat a = 4096 * c"
    using assms(1) unfolding page_aligned_unat mod_eq_0_iff_dvd by (auto elim!: dvdE)
  have d: "unat va = 4096 * (unat va div 4096) + unat va mod 4096" "unat va mod 4096 < 4096" by simp_all
  have "PGROUNDDOWN va = a \<longleftrightarrow> unat va div 4096 = c"
    by (simp add: word_unat_eq_iff unat_PGROUNDDOWN c)
  also have "\<dots> \<longleftrightarrow> 4096 * c \<le> unat va \<and> unat va < 4096 * c + 4096"
  proof
    assume "unat va div 4096 = c"
    then show "4096 * c \<le> unat va \<and> unat va < 4096 * c + 4096" using d by linarith
  next
    assume "4096 * c \<le> unat va \<and> unat va < 4096 * c + 4096"
    then show "unat va div 4096 = c" using d by linarith
  qed
  finally show ?thesis by (simp add: c)
qed

text \<open>The leaf entries when the pages from \<open>a\<close> on, \<open>j\<close> of them, are mapped to those from \<open>pa\<close> on.\<close>

definition map_run :: "u64 \<Rightarrow> nat \<Rightarrow> u64 \<Rightarrow> u64 \<Rightarrow> (u64 \<Rightarrow> u64) \<Rightarrow> u64 \<Rightarrow> u64" where
  "map_run a j pa perm f va =
     (if a \<le> va \<and> unat va < unat a + 4096 * j
      then PA2PTE (pa + (PGROUNDDOWN va - a)) OR perm OR PTE_V else f va)"

lemma map_run_0 [simp]: "map_run a 0 pa perm f = f"
  by (rule ext) (auto simp: map_run_def word_le_nat_alt not_less)

lemma map_run_Suc:
  assumes "page_aligned a" "unat a + 4096 * Suc j < 2 ^ 40"
  shows "map_run (a + 4096) j (pa + 4096) perm
      (\<lambda>vb. if PGROUNDDOWN vb = a then PA2PTE pa OR perm OR PTE_V else f vb) = map_run a (Suc j) pa perm f"
proof
  fix va
  have a1: "unat (a + 4096) = unat a + 4096" using assms(2) by (simp add: unat_word_ariths)
  note pg = PGROUNDDOWN_eq_iff [OF assms(1), of va]
  show "map_run (a + 4096) j (pa + 4096) perm
      (\<lambda>vb. if PGROUNDDOWN vb = a then PA2PTE pa OR perm OR PTE_V else f vb) va =
    map_run a (Suc j) pa perm f va"
    using pg by (auto simp: map_run_def word_le_nat_alt a1)
qed

lemma remaps_cong:
  "(\<And>va. va < MAXVA \<Longrightarrow> f va = g va) \<Longrightarrow> remaps pt s xs s' xs' f \<longleftrightarrow> remaps pt s xs s' xs' g"
  by (simp add: remaps_def)

lemma map_run_cong: "f va = g va \<Longrightarrow> map_run a j pa perm f va = map_run a j pa perm g va"
  by (simp add: map_run_def)

text \<open>One round of the loop: the page at \<open>a\<close> is mapped, or the free list is empty.\<close>

lemma mappages_step:
  assumes ok: "vmok s xs pt" and a: "a < MAXVA" "page_aligned a" and nv: "\<not> pte_valid (lpte (mem s) pt a)"
  obtains
    (oom) s' where "mappages_loop pt a lastva pa perm s = Inr (- 1, s')" "remaps pt s xs s' [] (lpte (mem s) pt)"
      "length xs < 2"
  | (ok) s' xs' where
      "mappages_loop pt a lastva pa perm s =
         (if a = lastva then Inr (0, s') else mappages_loop pt (a + 4096) lastva (pa + 4096) perm s')"
      "remaps pt s xs s' xs'
         (\<lambda>vb. if PGROUNDDOWN vb = a then PA2PTE pa OR perm OR PTE_V else lpte (mem s) pt vb)"
      "length xs \<le> length xs' + 2"
proof (rule walk_alloc [OF assms(1,2)])
  fix s' assume w: "walk pt a True s = Inr (0, s')" and e: "extends pt s xs s' []" and l: "length xs < 2"
  show thesis by (rule oom [OF _ extends_remaps [OF e] l]) (simp add: mappages_loop.simps w)
next
  fix s' xs' assume w: "walk pt a True s = Inr (leaf_ptr (mem s') pt a, s')" and nz: "leaf_ptr (mem s') pt a \<noteq> 0"
    and e: "extends pt s xs s' xs'" and le: "length xs \<le> length xs' + 2"
  let ?v = "PA2PTE pa OR perm OR PTE_V"
  let ?s = "s'\<lparr>mem := store64 (mem s') (leaf_ptr (mem s') pt a) ?v\<rparr>"
  have ok': "vmok s' xs' pt" and lp: "\<And>va. lpte (mem s') pt va = lpte (mem s) pt va"
    using e by (auto simp: extends_def)
  have pa: "PGROUNDDOWN a = a" by (simp add: PGROUNDDOWN_eq_iff [OF a(2)])
  have l: "load64 (mem s') (leaf_ptr (mem s') pt a) AND PTE_V = 0"
    using nv load_leaf_ptr [OF nz] lp by (simp add: pte_valid_def)
  have "remaps pt s' xs' ?s xs' (\<lambda>vb. if PGROUNDDOWN vb = a then ?v else lpte (mem s) pt vb)"
    using store_leaf_remaps [OF ok' nz a(1), of ?v] by (simp add: lp pa cong: if_cong)
  then have "remaps pt s xs ?s xs' (\<lambda>vb. if PGROUNDDOWN vb = a then ?v else lpte (mem s) pt vb)"
    by (rule remaps_trans [OF extends_remaps [OF e]])
  moreover have "mappages_loop pt a lastva pa perm s =
      (if a = lastva then Inr (0, ?s) else mappages_loop pt (a + 4096) lastva (pa + 4096) perm ?s)"
    by (subst mappages_loop.simps) (use w nz l in \<open>simp add: Let_def\<close>)
  ultimately show thesis using le by (intro ok) assumption+
qed

lemma mappages_loop_spec:
  assumes "vmok s xs pt" "page_aligned a" "unat a + 4096 * Suc n \<le> 2 ^ 38"
    and "\<And>va. a \<le> va \<Longrightarrow> unat va < unat a + 4096 * Suc n \<Longrightarrow> \<not> pte_valid (lpte (mem s) pt va)"
  shows "(\<exists>s' xs'. mappages_loop pt a (a + 4096 * of_nat n) pa perm s = Inr (0, s') \<and>
             remaps pt s xs s' xs' (map_run a (Suc n) pa perm (lpte (mem s) pt))) \<or>
         (\<exists>s' j. mappages_loop pt a (a + 4096 * of_nat n) pa perm s = Inr (- 1, s') \<and> j \<le> n \<and>
             length xs < 2 * Suc n \<and> remaps pt s xs s' [] (map_run a j pa perm (lpte (mem s) pt)))"
  using assms
proof (induction n arbitrary: a pa s xs)
  case 0
  have a: "a < MAXVA" using "0.prems"(3) by (simp add: word_less_nat_alt)
  have nv: "\<not> pte_valid (lpte (mem s) pt a)" by (rule "0.prems"(4)) simp_all
  have m: "map_run a (Suc 0) pa perm f =
      (\<lambda>vb. if PGROUNDDOWN vb = a then PA2PTE pa OR perm OR PTE_V else f vb)" for f
    using "0.prems"(3) by (subst map_run_Suc [OF "0.prems"(2), symmetric]) simp_all
  show ?case
  proof (rule mappages_step [OF "0.prems"(1) a "0.prems"(2) nv, of "a + 4096 * of_nat 0" pa perm])
    fix s' assume "mappages_loop pt a (a + 4096 * of_nat 0) pa perm s = Inr (- 1, s')"
      "remaps pt s xs s' [] (lpte (mem s) pt)" "length xs < 2"
    then show ?thesis by (intro disjI2 exI [of _ s'] exI [of _ 0]) simp
  next
    fix s' xs' assume "mappages_loop pt a (a + 4096 * of_nat 0) pa perm s =
       (if a = a + 4096 * of_nat 0 then Inr (0, s')
        else mappages_loop pt (a + 4096) (a + 4096 * of_nat 0) (pa + 4096) perm s')"
      "remaps pt s xs s' xs' (\<lambda>vb. if PGROUNDDOWN vb = a then PA2PTE pa OR perm OR PTE_V else lpte (mem s) pt vb)"
    then show ?thesis by (intro disjI1 exI [of _ s'] exI [of _ xs']) (simp add: m)
  qed
next
  case (Suc n)
  have a: "a < MAXVA" using Suc.prems(3) by (simp add: word_less_nat_alt)
  have a1: "unat (a + 4096) = unat a + 4096" using Suc.prems(3) by (simp add: unat_word_ariths)
  have a1': "page_aligned (a + 4096)" using Suc.prems(2) by (simp add: page_aligned_unat a1)
  have nv: "\<not> pte_valid (lpte (mem s) pt a)" by (rule Suc.prems(4)) simp_all
  have lst: "a + 4096 * of_nat (Suc n) = a + 4096 + 4096 * of_nat n" by simp
  have ne: "a \<noteq> a + 4096 * of_nat (Suc n)"
  proof -
    have "unat (of_nat (4096 * Suc n) :: u64) = 4096 * Suc n"
      using Suc.prems(3) by (simp only: unat_of_nat, intro mod_less) simp
    then have "unat (4096 * of_nat (Suc n) :: u64) = 4096 * Suc n" by (simp only: of_nat_mult of_nat_numeral)
    then show ?thesis by (metis add_cancel_left_right mult_is_0 nat.distinct(1) unat_0 zero_neq_numeral)
  qed
  let ?g = "\<lambda>vb. if PGROUNDDOWN vb = a then PA2PTE pa OR perm OR PTE_V else lpte (mem s) pt vb"
  have run: "map_run (a + 4096) j (pa + 4096) perm ?g = map_run a (Suc j) pa perm (lpte (mem s) pt)"
    if "j \<le> Suc n" for j
    by (rule map_run_Suc [OF Suc.prems(2)]) (use Suc.prems(3) that in simp)
  show ?case
  proof (rule mappages_step [OF Suc.prems(1) a Suc.prems(2) nv, of "a + 4096 * of_nat (Suc n)" pa perm])
    fix s' assume "mappages_loop pt a (a + 4096 * of_nat (Suc n)) pa perm s = Inr (- 1, s')"
      "remaps pt s xs s' [] (lpte (mem s) pt)" "length xs < 2"
    then show ?thesis by (intro disjI2 exI [of _ s'] exI [of _ 0]) simp
  next
    fix s' xs' assume l: "mappages_loop pt a (a + 4096 * of_nat (Suc n)) pa perm s =
       (if a = a + 4096 * of_nat (Suc n) then Inr (0, s')
        else mappages_loop pt (a + 4096) (a + 4096 * of_nat (Suc n)) (pa + 4096) perm s')"
      and rm: "remaps pt s xs s' xs' ?g" and le: "length xs \<le> length xs' + 2"
    have l': "mappages_loop pt a (a + 4096 * of_nat (Suc n)) pa perm s =
        mappages_loop pt (a + 4096) (a + 4096 + 4096 * of_nat n) (pa + 4096) perm s'"
      using l unfolding if_not_P [OF ne] unfolding lst .
    have ok': "vmok s' xs' pt" and lp: "\<And>va. va < MAXVA \<Longrightarrow> lpte (mem s') pt va = ?g va"
      using rm by (auto simp: remaps_def)
    have rr: "remaps pt s xs s2 xs2 (map_run a (Suc j) pa perm (lpte (mem s) pt))"
      if "remaps pt s' xs' s2 xs2 (map_run (a + 4096) j (pa + 4096) perm (lpte (mem s') pt))" "j \<le> Suc n" for s2 xs2 j
    proof -
      have "map_run (a + 4096) j (pa + 4096) perm (lpte (mem s') pt) va = map_run (a + 4096) j (pa + 4096) perm ?g va"
        if "va < MAXVA" for va using lp [OF that] by (rule map_run_cong)
      then have "remaps pt s' xs' s2 xs2 (map_run (a + 4096) j (pa + 4096) perm ?g)"
        using that(1) by (rule remaps_cong [THEN iffD1])
      then show ?thesis unfolding run [OF that(2)] by (rule remaps_trans [OF rm])
    qed
    have ih: "\<not> pte_valid (lpte (mem s') pt va)"
      if "a + 4096 \<le> va" "unat va < unat (a + 4096) + 4096 * Suc n" for va
    proof -
      have u: "unat a + 4096 \<le> unat va" "unat va < unat a + 4096 * Suc (Suc n)" using that a1 by (auto simp: word_le_nat_alt)
      then have "va < MAXVA" using Suc.prems(3) by (simp add: word_less_nat_alt)
      moreover have "PGROUNDDOWN va \<noteq> a" using u(1) PGROUNDDOWN_eq_iff [OF Suc.prems(2), of va] by linarith
      moreover have "\<not> pte_valid (lpte (mem s) pt va)" by (rule Suc.prems(4)) (use u in \<open>auto simp: word_le_nat_alt\<close>)
      ultimately show ?thesis by (simp add: lp)
    qed
    have "unat (a + 4096) + 4096 * Suc n \<le> 2 ^ 38" using a1 Suc.prems(3) by simp
    note IH = Suc.IH [OF ok' a1' this, of "pa + 4096"]
    have "(\<exists>s2 xs2. mappages_loop pt (a + 4096) (a + 4096 + 4096 * of_nat n) (pa + 4096) perm s' = Inr (0, s2) \<and>
             remaps pt s' xs' s2 xs2 (map_run (a + 4096) (Suc n) (pa + 4096) perm (lpte (mem s') pt))) \<or>
         (\<exists>s2 j. mappages_loop pt (a + 4096) (a + 4096 + 4096 * of_nat n) (pa + 4096) perm s' = Inr (- 1, s2) \<and> j \<le> n \<and>
             length xs' < 2 * Suc n \<and> remaps pt s' xs' s2 [] (map_run (a + 4096) j (pa + 4096) perm (lpte (mem s') pt)))"
      by (rule IH) (rule ih)
    then show ?thesis
    proof (elim disjE exE conjE)
      fix s2 xs2 assume "mappages_loop pt (a + 4096) (a + 4096 + 4096 * of_nat n) (pa + 4096) perm s' = Inr (0, s2)"
        "remaps pt s' xs' s2 xs2 (map_run (a + 4096) (Suc n) (pa + 4096) perm (lpte (mem s') pt))"
      then show ?thesis by (intro disjI1 exI [of _ s2] exI [of _ xs2] conjI) (simp_all only: l' rr order_refl)
    next
      fix s2 j assume "mappages_loop pt (a + 4096) (a + 4096 + 4096 * of_nat n) (pa + 4096) perm s' = Inr (- 1, s2)"
        "j \<le> n" "length xs' < 2 * Suc n" "remaps pt s' xs' s2 [] (map_run (a + 4096) j (pa + 4096) perm (lpte (mem s') pt))"
      moreover from this(3) le have "length xs < 2 * Suc (Suc n)" by simp
      ultimately show ?thesis
        by (intro disjI2 exI [of _ s2] exI [of _ "Suc j"] conjI) (simp_all only: l' rr Suc_le_mono le_SucI)
    qed
  qed
qed

lemma aligned_pages:
  assumes "len mod PGSIZE = 0" "len \<noteq> (0 :: u64)"
  obtains n where "len = 4096 * of_nat (Suc n)" "unat len = 4096 * Suc n"
proof -
  obtain c where c: "unat len = 4096 * c"
    using assms(1) unfolding page_aligned_simps page_aligned_unat mod_eq_0_iff_dvd by (auto elim!: dvdE)
  have "c \<noteq> 0" using assms(2) c by (auto simp: word_unat_eq_iff)
  then obtain n where n: "c = Suc n" by (cases c) auto
  have "len = of_nat (unat len)" by simp
  then have "len = of_nat (4096 * Suc n)" unfolding c n .
  then have "len = 4096 * of_nat (Suc n)" by (simp only: of_nat_mult of_nat_numeral)
  then show thesis using that c n by simp
qed

lemma mappages_run:
  assumes "vmok s xs pt" "va mod PGSIZE = 0" "len mod PGSIZE = 0" "len \<noteq> 0" "unat va + unat len \<le> unat MAXVA"
    and "\<And>a. va \<le> a \<Longrightarrow> unat a < unat va + unat len \<Longrightarrow> \<not> pte_valid (lpte (mem s) pt a)"
  shows "(\<exists>s' xs'. mappages pt va len pa perm s = Inr (0, s') \<and>
             remaps pt s xs s' xs' (map_run va (unat len div 4096) pa perm (lpte (mem s) pt))) \<or>
         (\<exists>s' j. mappages pt va len pa perm s = Inr (- 1, s') \<and> j < unat len div 4096 \<and>
             length xs < 2 * (unat len div 4096) \<and> remaps pt s xs s' [] (map_run va j pa perm (lpte (mem s) pt)))"
proof -
  obtain n where n: "len = 4096 * of_nat (Suc n)" "unat len = 4096 * Suc n" by (rule aligned_pages [OF assms(3,4)])
  have e: "mappages pt va len pa perm s = mappages_loop pt va (va + 4096 * of_nat n) pa perm s"
    using assms(2-4) unfolding mappages_def by (simp add: n(1))
  have d: "unat len div 4096 = Suc n" using n(2) by simp
  have "page_aligned va" using assms(2) by simp
  then show ?thesis
    unfolding e d less_Suc_eq_le
    using assms(5,6) by (intro mappages_loop_spec [OF assms(1)]) (simp_all add: n(2))
qed

lemma walkaddr_eq:
  assumes "vmok s xs pt" "va < MAXVA"
  shows "walkaddr pt va s =
    Inr (if pte_valid (lpte (mem s) pt va) \<and> lpte (mem s) pt va AND PTE_U \<noteq> 0 then PTE2PA (lpte (mem s) pt va) else 0)"
  using lpte_no_leaf [OF assms(1), of va] load_leaf_ptr [of "mem s" pt va] assms(2)
  by (auto simp: walkaddr_def walk_False not_le Let_def pte_valid_def)

lemma PA2PTE_or_flags:
  assumes "unat perm < 1024"
  shows "pte_valid (PA2PTE pa OR perm OR PTE_V)"
    "(PA2PTE pa OR perm OR PTE_V) AND PTE_U = perm AND PTE_U"
    "page_aligned pa \<Longrightarrow> PTE2PA (PA2PTE pa OR perm OR PTE_V) = pa"
proof -
  show "pte_valid (PA2PTE pa OR perm OR PTE_V)" by (simp add: pte_valid_bit bit_or_iff)
  have b16: "bit (16 :: u64) n \<longleftrightarrow> n = 4" for n
  proof -
    have "(16 :: u64) = 2 ^ 4" by simp
    then show ?thesis by (simp only: bit_exp_iff possible_bit_word) auto
  qed
  show "(PA2PTE pa OR perm OR PTE_V) AND PTE_U = perm AND PTE_U"
  proof (rule bit_word_eqI)
    fix n show "bit ((PA2PTE pa OR perm OR PTE_V) AND PTE_U) n = bit (perm AND PTE_U) n"
      by (cases "n = 4") (simp_all only: bit_and_iff bit_or_iff bit_PA2PTE b16 bit_1_iff, simp_all)
  qed
  have "unat (perm OR 1) < 1024"
  proof -
    have "int (unat perm) < 1024" using assms by linarith
    then have u: "uint perm < 2 ^ 10" by simp
    have "uint perm OR uint (1 :: u64) < 2 ^ 10" by (rule OR_upper [OF _ u]) simp_all
    then show ?thesis by (simp only: unat_eq_nat_uint uint_or) simp
  qed
  then show "page_aligned pa \<Longrightarrow> PTE2PA (PA2PTE pa OR perm OR PTE_V) = pa" by (intro PTE2PA_PA2PTE)
qed

lemma page_aligned_add [intro]: "page_aligned a \<Longrightarrow> page_aligned b \<Longrightarrow> page_aligned (a + b)"
  by (simp only: page_aligned_simps(2) [symmetric] dvd_add)

lemma page_aligned_diff [intro]: "page_aligned a \<Longrightarrow> page_aligned b \<Longrightarrow> page_aligned (a - b)"
  by (simp only: page_aligned_simps(2) [symmetric] dvd_diff)

text \<open>
  Claim C15. \<^verbatim>\<open>mappages()\<close> on an aligned, non-empty range below \<^verbatim>\<open>MAXVA\<close> none of whose pages is mapped
  never panics. If it returns 0, exactly the pages of the range are mapped, each to the frame at the same
  offset from \<open>pa\<close> and with the permissions \<open>perm\<close>; every other leaf entry of the table is as before.
  It returns -1 only if there were fewer than two free pages per page of the range; then the free list is
  empty and a proper prefix of the range is mapped. In both cases the
  pages that left the free list are the new pages of the table, the table is still well formed, and no
  page outside the table has changed.
\<close>

theorem mappages_maps_exactly_the_range:
  assumes "vmok s xs pt" "va mod PGSIZE = 0" "len mod PGSIZE = 0" "len \<noteq> 0" "unat va + unat len \<le> unat MAXVA"
    and "\<forall>a. va \<le> a \<and> unat a < unat va + unat len \<longrightarrow> \<not> pte_valid (lpte (mem s) pt a)"
  shows "(\<exists>s' xs'. mappages pt va len pa perm s = Inr (0, s') \<and>
             remaps pt s xs s' xs' (map_run va (unat len div 4096) pa perm (lpte (mem s) pt))) \<or>
         (\<exists>s' j. mappages pt va len pa perm s = Inr (- 1, s') \<and> j < unat len div 4096 \<and>
             length xs < 2 * (unat len div 4096) \<and> remaps pt s xs s' [] (map_run va j pa perm (lpte (mem s) pt)))"
  by (rule mappages_run [OF assms(1-5)]) (use assms(6) in blast)

text \<open>
  Claim C16. After a successful \<^verbatim>\<open>mappages()\<close> of user pages, \<^verbatim>\<open>walkaddr()\<close> translates every address of the
  range to its frame, and every other address as before.
\<close>

theorem walkaddr_after_mappages:
  assumes "vmok s xs pt" "va mod PGSIZE = 0" "len mod PGSIZE = 0" "len \<noteq> 0" "unat va + unat len \<le> unat MAXVA"
    and "\<forall>a. va \<le> a \<and> unat a < unat va + unat len \<longrightarrow> \<not> pte_valid (lpte (mem s) pt a)"
    and "pa mod PGSIZE = 0" "unat perm < 1024" "perm AND PTE_U \<noteq> 0"
    and "mappages pt va len pa perm s = Inr (0, s')" and "a < MAXVA"
  shows "walkaddr pt a s' =
    (if va \<le> a \<and> unat a < unat va + unat len then Inr (pa + (PGROUNDDOWN a - va)) else walkaddr pt a s)"
proof -
  have "(\<exists>xs'. remaps pt s xs s' xs' (map_run va (unat len div 4096) pa perm (lpte (mem s) pt)))"
    using mappages_run [OF assms(1-5) assms(6) [rule_format, OF conjI], of pa perm]
    unfolding assms(10) by (auto simp del: unat_div)
  then obtain xs' where r: "vmok s' xs' pt" "lpte (mem s') pt a = map_run va (unat len div 4096) pa perm (lpte (mem s) pt) a"
    using assms(11) by (auto simp: remaps_def)
  have len: "4096 * (unat len div 4096) = unat len"
    by (rule aligned_pages [OF assms(3,4)]) simp
  have "page_aligned (pa + (PGROUNDDOWN a - va))"
    using assms(2,7) by (intro page_aligned_add page_aligned_diff) simp_all
  then show ?thesis
    unfolding walkaddr_eq [OF r(1) assms(11)] walkaddr_eq [OF assms(1,11)] r(2)
    by (auto simp: map_run_def len PA2PTE_or_flags [OF assms(8)] assms(9))
qed

text \<open>A table with no mappings, and a free list of two pages.\<close>

definition empty_table :: pmem where
  "empty_table = \<lparr>mem = store64 (\<lambda>_. 0) 0x87fff000 0x87ffe000, freelist = 0x87fff000, kend = 0x87ffd000\<rparr>"

lemma empty_table_ok: "vmok empty_table [0x87fff000, 0x87ffe000] 0x87ffd000" "lpte (mem empty_table) 0x87ffd000 va = 0"
proof -
  have z: "load64 (\<lambda>_. 0) a = 0" for a by (rule load64_zero) simp
  have al: "page_aligned 0x87ffd000" "page_aligned 0x87ffe000" by (simp_all add: page_aligned_unat)
  have sm: "page_same (\<lambda>_. 0) (mem empty_table) q" if "q \<noteq> 0x87fff000" for q
    using that page_same_store64 [of "0x87fff000" 0 q] by (simp add: empty_table_def word_in_page_def page_aligned_unat)
  have e: "load64 (mem empty_table) (0x87ffd000 + 8 * i) = 0" if "i < 512" for i
    using load_entry_same [OF al(1) that sm] z by simp
  have nx: "next_of (mem empty_table) 0x87ffd000 i = None" for i
    using e [of i] by (auto simp: next_of_def Let_def)
  have na: "node_at (mem empty_table) 0x87ffd000 n = (if n = Root then Some 0x87ffd000 else None)" for n
    by (cases n) (simp_all add: nx)
  have "load64 (mem empty_table) 0x87ffe000 = 0"
    using load_entry_same [OF al(2) _ sm, of 0] z by simp
  then have "kinv empty_table [0x87fff000, 0x87ffe000]"
    by (simp add: kinv_def ram_page_def page_aligned_unat empty_table_def)
  moreover have "ptwf empty_table 0x87ffd000"
    unfolding ptwf_def na using e by (auto simp: ram_page_def al(1)) (simp_all add: empty_table_def)
  moreover have "nodes (mem empty_table) 0x87ffd000 = {0x87ffd000}" by (auto simp: nodes_def na)
  ultimately show "vmok empty_table [0x87fff000, 0x87ffe000] 0x87ffd000" by (simp add: vmok_def)
  show "lpte (mem empty_table) 0x87ffd000 va = 0" by (simp only: lpte_def na) simp
qed

theorem mappages_maps_exactly_the_range_witness:
  "(\<exists>s' xs'. mappages 0x87ffd000 0x1000 0x2000 0x80000000 0x16 empty_table = Inr (0, s') \<and>
      remaps 0x87ffd000 empty_table [0x87fff000, 0x87ffe000] s' xs'
        (map_run 0x1000 2 0x80000000 0x16 (lpte (mem empty_table) 0x87ffd000))) \<or>
   (\<exists>s' j. mappages 0x87ffd000 0x1000 0x2000 0x80000000 0x16 empty_table = Inr (- 1, s') \<and> j < 2 \<and>
      length [0x87fff000, 0x87ffe000 :: u64] < 4 \<and> remaps 0x87ffd000 empty_table [0x87fff000, 0x87ffe000] s' []
        (map_run 0x1000 j 0x80000000 0x16 (lpte (mem empty_table) 0x87ffd000)))"
  using mappages_maps_exactly_the_range [OF empty_table_ok(1), of "0x1000" "0x2000" "0x80000000" "0x16"]
  by (simp add: empty_table_ok(2) page_aligned_unat del: page_aligned_simps)

theorem walkaddr_after_mappages_witness:
  "\<exists>s'. mappages 0x87ffd000 0x1000 0x1000 0x80000000 0x16 empty_table = Inr (0, s') \<and>
     walkaddr 0x87ffd000 0x1234 s' = Inr 0x80000000"
proof -
  have "\<exists>s'. mappages 0x87ffd000 0x1000 0x1000 0x80000000 0x16 empty_table = Inr (0, s')"
    using mappages_run [OF empty_table_ok(1), of "0x1000" "0x1000" "0x80000000" "0x16"]
    by (auto simp add: empty_table_ok(2) page_aligned_unat simp del: page_aligned_simps)
  then obtain s' where s': "mappages 0x87ffd000 0x1000 0x1000 0x80000000 0x16 empty_table = Inr (0, s')" by blast
  then have "walkaddr 0x87ffd000 0x1234 s' = Inr (0x80000000 + (PGROUNDDOWN 0x1234 - 0x1000))"
    using walkaddr_after_mappages [OF empty_table_ok(1) _ _ _ _ _ _ _ _ s', of "0x1234"]
    by (simp add: empty_table_ok(2) page_aligned_unat del: page_aligned_simps)
  moreover have "PGROUNDDOWN 0x1234 = 0x1000" by (simp add: PGROUNDDOWN_def)
  ultimately show ?thesis using s' by auto
qed

end
