(* ===== verification/Ring.thy ===== *)
theory Ring
  imports Prelude
begin

text \<open>
  Circular buffers with free-running 32-bit counters, as in \<^verbatim>\<open>kernel/pipe.c\<close> and
  \<^verbatim>\<open>kernel/console.c\<close>: slot \<^verbatim>\<open>n % SIZE\<close> holds the byte with number \<open>n\<close>, and the counters wrap around
  at \<open>2 ^ 32\<close>. The locale states what the code relies on, that the size divides \<open>2 ^ 32\<close>, and shows that
  the buffer is then a queue whatever the values of the counters.
\<close>

definition ring_get :: "u8 list \<Rightarrow> u32 \<Rightarrow> u8" where
  "ring_get d n = d ! (unat n mod length d)"

definition ring_put :: "u8 list \<Rightarrow> u32 \<Rightarrow> u8 \<Rightarrow> u8 list" where
  "ring_put d n c = d[unat n mod length d := c]"

text \<open>The bytes with numbers from \<open>r\<close> up to, not including, \<open>w\<close>.\<close>

definition ring_list :: "u8 list \<Rightarrow> u32 \<Rightarrow> u32 \<Rightarrow> u8 list" where
  "ring_list d r w = map (\<lambda>k. ring_get d (r + of_nat k)) [0..<unat (w - r)]"

lemma length_ring_list [simp]: "length (ring_list d r w) = unat (w - r)"
  by (simp add: ring_list_def)

lemma length_ring_put [simp]: "length (ring_put d n c) = length d"
  by (simp add: ring_put_def)

lemma unat_diff_Suc: "unat (w - r :: u32) < 2 ^ 32 - 1 \<Longrightarrow> unat (w + 1 - r) = Suc (unat (w - r))"
proof -
  assume a: "unat (w - r) < 2 ^ 32 - 1"
  have "w + 1 - r = (w - r) + 1" by simp
  then show ?thesis using a by (simp only: unat_word_ariths) simp
qed

lemma unat_diff_pred: "w \<noteq> r \<Longrightarrow> unat (w - (r + 1) :: u32) = unat (w - r) - 1"
proof -
  assume "w \<noteq> r"
  then have "unat (w - r - 1) = unat (w - r) - 1" by (intro unat_minus_one) simp
  moreover have "w - (r + 1) = w - r - 1" by simp
  ultimately show ?thesis by (simp only:)
qed

locale ring =
  fixes N :: nat
  assumes N_pos: "0 < N" and N_dvd: "N dvd 2 ^ 32" and N_less: "N < 2 ^ 32"
begin

text \<open>Two byte numbers less than \<open>N\<close> apart use the same slot only if they are equal.\<close>

lemma slot_add: "unat (r + of_nat k :: u32) mod N = (unat r + k) mod N"
proof -
  have "unat (r + of_nat k :: u32) = (unat r + k) mod 2 ^ 32"
    by (simp add: unat_word_ariths unat_of_nat mod_add_right_eq)
  then show ?thesis using N_dvd by (simp add: mod_mod_cancel)
qed

lemma slot_inj:
  assumes "i < N" "j < N" "unat (r + of_nat i :: u32) mod N = unat (r + of_nat j) mod N"
  shows "i = j"
proof -
  have e: "(unat r + i) mod N = (unat r + j) mod N" using assms(3) by (simp add: slot_add)
  have *: "i = j" if "i \<le> j" "j < N" "(unat r + i) mod N = (unat r + j) mod N" for i j
  proof -
    have "N dvd (unat r + j) - (unat r + i)" using that by (intro mod_eq_dvd_iff_nat [THEN iffD1]) simp_all
    then have "N dvd j - i" by simp
    then have "j - i = 0" using that(2) dvd_imp_le [of N "j - i"] by linarith
    then show ?thesis using that(1) by simp
  qed
  show ?thesis using * [of i j] * [of j i] assms(1,2) e by (cases "i \<le> j") simp_all
qed

text \<open>Writing byte \<open>w\<close> appends to the queue, as long as it is not full.\<close>

lemma ring_push:
  assumes "length d = N" "unat (w - r) < N"
  shows "ring_list (ring_put d w c) r (w + 1) = ring_list d r w @ [c]"
proof (rule nth_equalityI)
  have l: "unat (w + 1 - r) = Suc (unat (w - r))" using assms(2) N_less by (intro unat_diff_Suc) linarith
  then show "length (ring_list (ring_put d w c) r (w + 1)) = length (ring_list d r w @ [c])" by simp
  fix i assume "i < length (ring_list (ring_put d w c) r (w + 1))"
  then have i: "i < Suc (unat (w - r))" using l by simp
  have w: "w = r + of_nat (unat (w - r))" by simp
  show "ring_list (ring_put d w c) r (w + 1) ! i = (ring_list d r w @ [c]) ! i"
  proof (cases "i = unat (w - r)")
    case True
    have "ring_get (ring_put d w c) w = c" using assms(1) N_pos by (simp add: ring_get_def ring_put_def)
    then show ?thesis using True l w by (simp add: ring_list_def nth_append)
  next
    case False
    then have lt: "i < unat (w - r)" using i by simp
    have "unat (r + of_nat i) mod N \<noteq> unat w mod N"
      using slot_inj [of i "unat (w - r)" r] lt assms(2) w by auto
    then have "ring_get (ring_put d w c) (r + of_nat i) = ring_get d (r + of_nat i)"
      using assms(1) by (simp add: ring_get_def ring_put_def)
    then show ?thesis using lt l by (simp add: ring_list_def nth_append)
  qed
qed

end

text \<open>Reading byte \<open>r\<close> takes the first byte of the queue.\<close>

lemma ring_pop:
  assumes "w \<noteq> r"
  shows "ring_list d r w = ring_get d r # ring_list d (r + 1) w"
proof -
  have "unat (w - r) = Suc (unat (w - (r + 1)))"
    using unat_diff_pred [OF assms] assms by (simp add: unat_gt_0)
  then have "ring_list d r w = map (\<lambda>k. ring_get d (r + of_nat k)) [0..<Suc (unat (w - (r + 1)))]"
    by (simp add: ring_list_def)
  also have "\<dots> = ring_get d r # map (\<lambda>k. ring_get d (r + of_nat (Suc k))) [0..<unat (w - (r + 1))]"
    by (simp only: upt_conv_Cons zero_less_Suc list.map map_Suc_upt [symmetric] map_map comp_def) simp
  finally show ?thesis by (simp add: ring_list_def add.assoc)
qed

lemma ring_empty_iff: "ring_list d r w = [] \<longleftrightarrow> w = r"
  by (simp add: ring_list_def upt_eq_Nil_conv unat_eq_0)

lemma ring_list_same: "ring_list d r r = []"
  by (simp add: ring_list_def)

lemma ring_split:
  assumes "unat (e - r) = unat (w - r) + unat (e - w)"
  shows "ring_list d r e = ring_list d r w @ ring_list d w e"
proof -
  let ?a = "unat (w - r)" and ?b = "unat (e - w)"
  have w: "r + of_nat ?a = w" by simp
  have "ring_list d r e = map (\<lambda>k. ring_get d (r + of_nat k)) [0..<?a] @ map (\<lambda>k. ring_get d (r + of_nat k)) [?a..<?a + ?b]"
    unfolding ring_list_def assms by (simp add: upt_add_eq_append [of 0])
  also have "map (\<lambda>k. ring_get d (r + of_nat k)) [?a..<?a + ?b] = ring_list d w e"
  proof (rule nth_equalityI)
    fix i assume "i < length (map (\<lambda>k. ring_get d (r + of_nat k)) [?a..<?a + ?b])"
    then have i: "i < ?b" by simp
    have "r + of_nat (?a + i) = w + of_nat i" by simp
    then show "map (\<lambda>k. ring_get d (r + of_nat k)) [?a..<?a + ?b] ! i = ring_list d w e ! i"
      using i by (simp add: ring_list_def)
  qed simp
  finally show ?thesis by (simp add: ring_list_def)
qed

lemma ring_last:
  assumes "w \<noteq> r"
  shows "ring_list d r w = ring_list d r (w - 1) @ [ring_get d (w - 1)]"
proof -
  have nz: "w - r \<noteq> 0" using assms by simp
  have "unat (w - r - 1) = unat (w - r) - 1" "0 < unat (w - r)" using nz by (simp_all add: unat_minus_one unat_gt_0)
  moreover have "w - 1 - r = w - r - 1" by simp
  ultimately have s: "unat (w - r) = Suc (unat (w - 1 - r))" by (simp only:)
  have "r + of_nat (unat (w - 1 - r)) = w - 1" by simp
  then show ?thesis unfolding ring_list_def s by simp
qed

end
