(* ===== verification/Bytes.thy ===== *)
theory Bytes
  imports Prelude
begin

text \<open>
  Kernel objects that the code reads and writes both as bytes and as structures: disk blocks,
  directory entries, ELF headers. An object is the list of its bytes; \<open>get_le\<close> and \<open>put_le\<close>
  access an integer of \<open>n\<close> bytes at an offset, little endian, and \<open>blit\<close> is a \<^verbatim>\<open>memmove()\<close> into
  the object.
\<close>

section \<open>Definitions\<close>

primrec get_le :: "nat \<Rightarrow> u8 list \<Rightarrow> nat \<Rightarrow> 'a::len word" where
  "get_le 0 bs off = 0"
| "get_le (Suc n) bs off = ucast (bs ! off) OR push_bit 8 (get_le n bs (Suc off))"

primrec put_le :: "nat \<Rightarrow> u8 list \<Rightarrow> nat \<Rightarrow> 'a::len word \<Rightarrow> u8 list" where
  "put_le 0 bs off v = bs"
| "put_le (Suc n) bs off v = put_le n (bs[off := ucast v]) (Suc off) (drop_bit 8 v)"

abbreviation get16 :: "u8 list \<Rightarrow> nat \<Rightarrow> u16" where "get16 bs off \<equiv> get_le 2 bs off"
abbreviation put16 :: "u8 list \<Rightarrow> nat \<Rightarrow> u16 \<Rightarrow> u8 list" where "put16 bs off v \<equiv> put_le 2 bs off v"
abbreviation get32 :: "u8 list \<Rightarrow> nat \<Rightarrow> u32" where "get32 bs off \<equiv> get_le 4 bs off"
abbreviation put32 :: "u8 list \<Rightarrow> nat \<Rightarrow> u32 \<Rightarrow> u8 list" where "put32 bs off v \<equiv> put_le 4 bs off v"
abbreviation get64 :: "u8 list \<Rightarrow> nat \<Rightarrow> u64" where "get64 bs off \<equiv> get_le 8 bs off"
abbreviation put64 :: "u8 list \<Rightarrow> nat \<Rightarrow> u64 \<Rightarrow> u8 list" where "put64 bs off v \<equiv> put_le 8 bs off v"

definition blit :: "u8 list \<Rightarrow> nat \<Rightarrow> u8 list \<Rightarrow> u8 list" where
  "blit xs off ys = take off xs @ ys @ drop (off + length ys) xs"

definition slice :: "u8 list \<Rightarrow> nat \<Rightarrow> nat \<Rightarrow> u8 list" where
  "slice xs off n = take n (drop off xs)"

section \<open>Integers read back\<close>

lemma length_put_le [simp]: "length (put_le n bs off v) = length bs"
  by (induction n arbitrary: bs off v) simp_all

lemma nth_put_le:
  "i < length bs \<Longrightarrow> put_le n bs off v ! i =
     (if off \<le> i \<and> i < off + n then ucast (drop_bit (8 * (i - off)) v) else bs ! i)"
proof (induction n arbitrary: bs off v)
  case (Suc n)
  have IH: "put_le n (bs[off := ucast v]) (Suc off) (drop_bit 8 v) ! i =
     (if Suc off \<le> i \<and> i < Suc off + n then ucast (drop_bit (8 * (i - Suc off)) (drop_bit 8 v))
      else bs[off := ucast v] ! i)"
    by (rule Suc.IH) (use Suc.prems in simp)
  consider "i = off" | "i < off" | "off < i" by linarith
  then show ?case
  proof cases
    case 3
    then have "8 * (i - Suc off) + 8 = 8 * (i - off)" by simp
    then show ?thesis using 3 by (simp add: IH drop_bit_drop_bit)
  qed (use IH Suc.prems in auto)
qed auto

lemma bit_get_le:
  "bit (get_le n bs off :: 'a::len word) k \<longleftrightarrow>
     k < 8 * n \<and> k < LENGTH('a) \<and> bit (bs ! (off + k div 8)) (k mod 8)"
proof (induction n arbitrary: off k)
  case 0
  show ?case by simp
next
  case (Suc n)
  show ?case
  proof (cases "k < 8")
    case True
    then show ?thesis by (auto simp: bit_or_iff bit_push_bit_iff bit_ucast_iff)
  next
    case False
    then obtain d where k: "k = d + 8" by (metis add.commute le_Suc_ex not_less)
    have "\<not> bit (bs ! off) k" using False by (auto dest: bit_imp_le_length)
    then have "bit (get_le (Suc n) bs off :: 'a word) k \<longleftrightarrow>
        k < LENGTH('a) \<and> bit (get_le n bs (Suc off) :: 'a word) d"
      by (auto simp: bit_or_iff bit_push_bit_iff bit_ucast_iff k)
    moreover have "(d + 8) div 8 = Suc (d div 8)" "(d + 8) mod 8 = d mod 8" by simp_all
    ultimately show ?thesis by (auto simp add: Suc k)
  qed
qed

lemma get_le_cong:
  assumes "\<And>i. i < n \<Longrightarrow> bs ! (off + i) = cs ! (off' + i)"
  shows "get_le n bs off = get_le n cs off'"
proof (rule bit_word_eqI)
  fix k
  have "k div 8 < n" if "k < 8 * n" using that by (simp add: less_mult_imp_div_less mult.commute)
  then show "bit (get_le n bs off :: 'a word) k = bit (get_le n cs off' :: 'a word) k"
    using assms by (auto simp: bit_get_le)
qed

lemma get_put_le:
  fixes v :: "'a::len word"
  assumes "off + n \<le> length bs" "LENGTH('a) \<le> 8 * n"
  shows "get_le n (put_le n bs off v) off = v"
proof (rule bit_word_eqI)
  fix k assume k: "k < LENGTH('a)"
  then have "k < 8 * n" using assms(2) by simp
  then have d: "k div 8 < n" by (simp add: less_mult_imp_div_less mult.commute)
  have "8 * (k div 8) + k mod 8 = k" by simp
  then show "bit (get_le n (put_le n bs off v) off :: 'a word) k = bit v k"
    using k d assms(1) \<open>k < 8 * n\<close>
    by (simp add: bit_get_le nth_put_le bit_ucast_iff bit_drop_bit_eq)
qed

lemma get_put_le_other:
  assumes "off' + n' \<le> off \<or> off + n \<le> off'" "off' + n' \<le> length bs"
  shows "get_le n' (put_le n bs off v) off' = get_le n' bs off'"
  by (rule get_le_cong) (use assms in \<open>auto simp: nth_put_le\<close>)

lemmas get_put_simps [simp] =
  get_put_le [where n = 2 and 'a = 16, simplified]
  get_put_le [where n = 4 and 'a = 32, simplified]
  get_put_le [where n = 8 and 'a = 64, simplified]

lemma put_le_get_le:
  assumes "off + n \<le> length bs" "8 * n \<le> LENGTH('a)"
  shows "put_le n bs off (get_le n bs off :: 'a::len word) = bs"
proof (rule nth_equalityI)
  fix i assume "i < length (put_le n bs off (get_le n bs off :: 'a word))"
  then have i: "i < length bs" by simp
  show "put_le n bs off (get_le n bs off :: 'a word) ! i = bs ! i"
  proof (cases "off \<le> i \<and> i < off + n")
    case True
    have "ucast (drop_bit (8 * (i - off)) (get_le n bs off :: 'a word)) = bs ! i"
    proof (rule bit_word_eqI)
      fix k assume "k < LENGTH(8)"
      then have k: "k < 8" by simp
      have "(8 * (i - off) + k) div 8 = i - off" "(8 * (i - off) + k) mod 8 = k" using k by simp_all
      moreover have "8 * (i - off) + k < 8 * n" using True k by linarith
      ultimately show "bit (ucast (drop_bit (8 * (i - off)) (get_le n bs off :: 'a word)) :: u8) k = bit (bs ! i) k"
        using True k assms(2) by (simp add: bit_ucast_iff bit_drop_bit_eq bit_get_le)
    qed
    then show ?thesis using True i by (simp add: nth_put_le)
  qed (use i in \<open>auto simp: nth_put_le\<close>)
qed simp

section \<open>Copies\<close>

lemma length_blit [simp]: "off + length ys \<le> length xs \<Longrightarrow> length (blit xs off ys) = length xs"
  by (simp add: blit_def)

lemma nth_blit:
  "off + length ys \<le> length xs \<Longrightarrow> i < length xs \<Longrightarrow> blit xs off ys ! i =
     (if off \<le> i \<and> i < off + length ys then ys ! (i - off) else xs ! i)"
  by (auto simp: blit_def nth_append)

lemma length_slice: "off + n \<le> length xs \<Longrightarrow> length (slice xs off n) = n"
  by (simp add: slice_def)

lemma slice_blit: "off + length ys \<le> length xs \<Longrightarrow> slice (blit xs off ys) off (length ys) = ys"
  by (simp add: slice_def blit_def)

lemma slice_blit_other:
  assumes "off' + n \<le> off \<or> off + length ys \<le> off'" "off + length ys \<le> length xs" "off' + n \<le> length xs"
  shows "slice (blit xs off ys) off' n = slice xs off' n"
  by (rule nth_equalityI) (use assms in \<open>auto simp: slice_def nth_blit\<close>)

end
