(* ===== verification/Bio.thy ===== *)
theory Bio
  imports Bytes Spinlock Riscv
begin

text \<open>
  The buffer cache (\<^verbatim>\<open>kernel/bio.c\<close>, \<^verbatim>\<open>kernel/buf.h\<close>). A pointer to a buffer is its index in
  \<^verbatim>\<open>bcache.buf\<close>; \<^verbatim>\<open>&bcache.head\<close> is the index \<open>HEAD\<close> after them, so the list \<open>bufs\<close> has
  \<^verbatim>\<open>NBUF + 1\<close> elements and the least-recently-used list is threaded through \<open>b_prev\<close> and
  \<open>b_next\<close> as in the code.

  The disk is a function from block numbers to blocks. A call of \<^verbatim>\<open>virtio_disk_rw()\<close> is
  \<open>disk_rw\<close>, what driver and device do together. Every block written is also appended to the
  history \<open>dwrites\<close>, which no operation reads: the disk after a crash is the disk after a
  prefix of the history. \<open>curpid\<close> is \<^verbatim>\<open>myproc()->pid\<close>, \<open>woken\<close> the channels passed to
  \<^verbatim>\<open>wakeup()\<close>, latest first.
\<close>

section \<open>Data\<close>

abbreviation (input) BSIZE :: nat where "BSIZE \<equiv> 1024"
abbreviation (input) HEAD :: nat where "HEAD \<equiv> 30"

record buf =
  b_valid :: bool
  b_disk :: bool
  b_dev :: u32
  b_blockno :: u32
  b_lock :: sleeplock
  b_refcnt :: u32
  b_prev :: nat
  b_next :: nat
  b_data :: "u8 list"

record bio =
  bufs :: "buf list"
  disk :: "u32 \<Rightarrow> u8 list"
  dwrites :: "(u32 \<times> u8 list) list"
  woken :: "chan list"
  curpid :: i32

definition upd :: "nat \<Rightarrow> ('a \<Rightarrow> 'a) \<Rightarrow> 'a list \<Rightarrow> 'a list" where
  "upd i f xs = xs[i := f (xs ! i)]"

definition zero_buf :: buf where
  "zero_buf = \<lparr>b_valid = False, b_disk = False, b_dev = 0, b_blockno = 0,
     b_lock = \<lparr>slocked = False, sl_name = [], sl_pid = 0\<rparr>, b_refcnt = 0, b_prev = 0, b_next = 0,
     b_data = replicate BSIZE 0\<rparr>"

section \<open>Operations\<close>

subsection \<open>The list\<close>

text \<open>Insert a buffer at the front: the four assignments that end \<^verbatim>\<open>brelse()\<close>.\<close>

definition link_front :: "nat \<Rightarrow> buf list \<Rightarrow> buf list" where
  "link_front b bs =
     (let bs1 = upd b (\<lambda>x. x\<lparr>b_next := b_next (bs ! HEAD), b_prev := HEAD\<rparr>) bs;
          bs2 = upd (b_next (bs1 ! HEAD)) (\<lambda>x. x\<lparr>b_prev := b\<rparr>) bs1
      in upd HEAD (\<lambda>x. x\<lparr>b_next := b\<rparr>) bs2)"

definition unlink_buf :: "nat \<Rightarrow> buf list \<Rightarrow> buf list" where
  "unlink_buf b bs =
     (let bs1 = upd (b_next (bs ! b)) (\<lambda>x. x\<lparr>b_prev := b_prev (bs ! b)\<rparr>) bs
      in upd (b_prev (bs1 ! b)) (\<lambda>x. x\<lparr>b_next := b_next (bs1 ! b)\<rparr>) bs1)"

text \<open>\<^verbatim>\<open>binit()\<close>, on the zeroed \<^verbatim>\<open>bcache\<close> of the kernel's BSS.\<close>

definition binit_step :: "nat \<Rightarrow> buf list \<Rightarrow> buf list" where
  "binit_step b bs = link_front b (upd b (\<lambda>x. x\<lparr>b_lock := initsleeplock ''buffer''\<rparr>) bs)"

definition binit :: "'a bio_scheme \<Rightarrow> 'a bio_scheme" where
  "binit s =
     s\<lparr>bufs := fold binit_step [0..<NBUF]
         (upd HEAD (\<lambda>x. x\<lparr>b_prev := HEAD, b_next := HEAD\<rparr>) (bufs s))\<rparr>"

text \<open>
  A walk along \<open>nx\<close> from \<open>b\<close> to the first buffer with \<open>P\<close>. There are \<^verbatim>\<open>NBUF\<close> buffers, so a walk
  of more steps that has not met the list head never will.
\<close>

primrec scan :: "nat \<Rightarrow> (buf \<Rightarrow> nat) \<Rightarrow> (buf \<Rightarrow> bool) \<Rightarrow> buf list \<Rightarrow> nat \<Rightarrow> nat option res" where
  "scan 0 nx P bs b = Inl Spin"
| "scan (Suc k) nx P bs b =
     (if b = HEAD then Inr None
      else if P (bs ! b) then Inr (Some b)
      else scan k nx P bs (nx (bs ! b)))"

subsection \<open>Buffers\<close>

definition lock_buf :: "nat \<Rightarrow> 'a bio_scheme \<Rightarrow> (nat \<times> 'a bio_scheme) res" where
  "lock_buf b s =
     bindR (acquiresleep (BufLockChan b) (curpid s) (b_lock (bufs s ! b)))
       (\<lambda>lk. Inr (b, s\<lparr>bufs := upd b (\<lambda>x. x\<lparr>b_lock := lk\<rparr>) (bufs s)\<rparr>))"

definition bget :: "u32 \<Rightarrow> u32 \<Rightarrow> 'a bio_scheme \<Rightarrow> (nat \<times> 'a bio_scheme) res" where
  "bget dev blockno s =
     bindR (scan (Suc NBUF) b_next (\<lambda>x. b_dev x = dev \<and> b_blockno x = blockno) (bufs s) (b_next (bufs s ! HEAD)))
       (\<lambda>r. case r of
          Some b \<Rightarrow> lock_buf b (s\<lparr>bufs := upd b (\<lambda>x. x\<lparr>b_refcnt := b_refcnt x + 1\<rparr>) (bufs s)\<rparr>)
        | None \<Rightarrow>
            bindR (scan (Suc NBUF) b_prev (\<lambda>x. b_refcnt x = 0) (bufs s) (b_prev (bufs s ! HEAD)))
              (\<lambda>r. case r of
                 Some b \<Rightarrow> lock_buf b (s\<lparr>bufs := upd b (\<lambda>x. x\<lparr>b_dev := dev, b_blockno := blockno,
                                         b_valid := False, b_refcnt := 1\<rparr>) (bufs s)\<rparr>)
               | None \<Rightarrow> Inl (Panic ''bget: no buffers'')))"

text \<open>\<^verbatim>\<open>virtio_disk_rw()\<close>: the driver uses only the block number, there is one disk.\<close>

definition disk_rw :: "nat \<Rightarrow> bool \<Rightarrow> 'a bio_scheme \<Rightarrow> 'a bio_scheme" where
  "disk_rw b write s =
     (let n = b_blockno (bufs s ! b)
      in if write
         then s\<lparr>disk := (disk s)(n := b_data (bufs s ! b)), dwrites := dwrites s @ [(n, b_data (bufs s ! b))]\<rparr>
         else s\<lparr>bufs := upd b (\<lambda>x. x\<lparr>b_data := disk s n\<rparr>) (bufs s)\<rparr>)"

definition bread :: "u32 \<Rightarrow> u32 \<Rightarrow> 'a bio_scheme \<Rightarrow> (nat \<times> 'a bio_scheme) res" where
  "bread dev blockno s =
     bindR (bget dev blockno s) (\<lambda>(b, s1).
       if \<not> b_valid (bufs s1 ! b)
       then let s2 = disk_rw b False s1
            in Inr (b, s2\<lparr>bufs := upd b (\<lambda>x. x\<lparr>b_valid := True\<rparr>) (bufs s2)\<rparr>)
       else Inr (b, s1))"

definition bwrite :: "nat \<Rightarrow> 'a bio_scheme \<Rightarrow> 'a bio_scheme res" where
  "bwrite b s =
     (if \<not> holdingsleep (curpid s) (b_lock (bufs s ! b)) then Inl (Panic ''bwrite'')
      else Inr (disk_rw b True s))"

definition brelse :: "nat \<Rightarrow> 'a bio_scheme \<Rightarrow> 'a bio_scheme res" where
  "brelse b s =
     (if \<not> holdingsleep (curpid s) (b_lock (bufs s ! b)) then Inl (Panic ''brelse'')
      else let bs1 = upd b (\<lambda>x. x\<lparr>b_lock := releasesleep (b_lock x)\<rparr>) (bufs s);
               bs2 = upd b (\<lambda>x. x\<lparr>b_refcnt := b_refcnt x - 1\<rparr>) bs1
           in Inr (s\<lparr>woken := BufLockChan b # woken s,
                     bufs := (if b_refcnt (bs2 ! b) = 0 then link_front b (unlink_buf b bs2) else bs2)\<rparr>))"

definition bpin :: "nat \<Rightarrow> 'a bio_scheme \<Rightarrow> 'a bio_scheme" where
  "bpin b s = s\<lparr>bufs := upd b (\<lambda>x. x\<lparr>b_refcnt := b_refcnt x + 1\<rparr>) (bufs s)\<rparr>"

definition bunpin :: "nat \<Rightarrow> 'a bio_scheme \<Rightarrow> 'a bio_scheme" where
  "bunpin b s = s\<lparr>bufs := upd b (\<lambda>x. x\<lparr>b_refcnt := b_refcnt x - 1\<rparr>) (bufs s)\<rparr>"

text \<open>A caller that holds the lock changes the data.\<close>

definition set_data :: "nat \<Rightarrow> (u8 list \<Rightarrow> u8 list) \<Rightarrow> 'a bio_scheme \<Rightarrow> 'a bio_scheme" where
  "set_data b f s = s\<lparr>bufs := upd b (\<lambda>x. x\<lparr>b_data := f (b_data x)\<rparr>) (bufs s)\<rparr>"

abbreviation data_of :: "nat \<Rightarrow> 'a bio_scheme \<Rightarrow> u8 list" where
  "data_of b s \<equiv> b_data (bufs s ! b)"

section \<open>The list of buffers\<close>

lemma length_upd [simp]: "length (upd i f xs) = length xs"
  by (simp add: upd_def)

lemma upd_nth [simp]: "i < length xs \<Longrightarrow> upd i f xs ! j = (if j = i then f (xs ! i) else xs ! j)"
  by (auto simp: upd_def nth_list_update)

text \<open>
  \<open>seg nx bs x xs y\<close>: following \<open>nx\<close> from \<open>x\<close>, one passes through \<open>xs\<close> and arrives at \<open>y\<close>.
\<close>

primrec seg :: "(buf \<Rightarrow> nat) \<Rightarrow> buf list \<Rightarrow> nat \<Rightarrow> nat list \<Rightarrow> nat \<Rightarrow> bool" where
  "seg nx bs x [] y \<longleftrightarrow> nx (bs ! x) = y"
| "seg nx bs x (z # zs) y \<longleftrightarrow> nx (bs ! x) = z \<and> seg nx bs z zs y"

text \<open>The buffers \<open>xs\<close> form the doubly linked list, most recently used first.\<close>

definition dll :: "buf list \<Rightarrow> nat list \<Rightarrow> bool" where
  "dll bs xs \<longleftrightarrow> length bs = Suc NBUF \<and> distinct xs \<and> set xs \<subseteq> {..<NBUF} \<and>
     seg b_next bs HEAD xs HEAD \<and> seg b_prev bs HEAD (rev xs) HEAD"

lemma seg_append: "seg nx bs x (as @ b # cs) y \<longleftrightarrow> seg nx bs x as b \<and> seg nx bs b cs y"
  by (induction as arbitrary: x) auto

lemma seg_cong:
  "(\<And>z. z \<in> insert x (set xs) \<Longrightarrow> nx (bs' ! z) = nx (bs ! z)) \<Longrightarrow> seg nx bs' x xs y \<longleftrightarrow> seg nx bs x xs y"
  by (induction xs arbitrary: x) auto

lemma seg_redirect:
  "seg nx bs x xs y \<Longrightarrow> distinct (x # xs) \<Longrightarrow> nx (bs' ! last (x # xs)) = y' \<Longrightarrow>
   (\<And>z. z \<in> insert x (set xs) \<Longrightarrow> z \<noteq> last (x # xs) \<Longrightarrow> nx (bs' ! z) = nx (bs ! z)) \<Longrightarrow> seg nx bs' x xs y'"
proof (induction xs arbitrary: x)
  case Nil
  then show ?case by simp
next
  case (Cons z zs)
  have "x \<noteq> last (z # zs)" using Cons.prems(2) last_in_set [of "z # zs"] by (metis distinct.simps(2) list.distinct(1))
  then have "nx (bs' ! x) = z" using Cons.prems(1,4) by simp
  moreover have "seg nx bs' z zs y'"
    by (rule Cons.IH) (use Cons.prems in auto)
  ultimately show ?case by simp
qed

lemma seg_next: "seg nx bs x (as @ b # cs) y \<Longrightarrow> nx (bs ! b) = hd (cs @ [y])"
  by (cases cs) (auto simp: seg_append)

lemma seg_first: "seg nx bs x xs y \<Longrightarrow> nx (bs ! x) = hd (xs @ [y])"
  by (cases xs) auto

lemma seg_drop:
  assumes "seg nx bs x (as @ b # cs) y" "distinct (x # as @ b # cs)" "nx (bs' ! last (x # as)) = nx (bs ! b)"
    "\<And>z. z \<noteq> last (x # as) \<Longrightarrow> nx (bs' ! z) = nx (bs ! z)"
  shows "seg nx bs' x (as @ cs) y"
proof -
  have s: "seg nx bs x as b" "seg nx bs b cs y" using assms(1) by (auto simp: seg_append)
  have red: "seg nx bs' x as (hd (cs @ [y]))"
    by (rule seg_redirect [OF s(1)]) (use assms seg_next [OF assms(1)] in auto)
  show ?thesis
  proof (cases cs)
    case Nil
    then show ?thesis using red by simp
  next
    case (Cons c cs')
    have l: "last (x # as) \<in> insert x (set as)" using last_in_set [of "x # as"] by simp
    have "seg nx bs' c cs' y \<longleftrightarrow> seg nx bs c cs' y"
    proof (rule seg_cong)
      fix z assume "z \<in> insert c (set cs')"
      then have "z \<noteq> last (x # as)" using l assms(2) Cons by auto
      then show "nx (bs' ! z) = nx (bs ! z)" by (rule assms(4))
    qed
    then show ?thesis using red s(2) Cons by (simp add: seg_append)
  qed
qed

lemma dll_ne_HEAD: "dll bs xs \<Longrightarrow> i \<in> set xs \<Longrightarrow> i \<noteq> HEAD \<and> i < NBUF"
  by (auto simp: dll_def)

lemma dll_next: "dll bs (as @ b # cs) \<Longrightarrow> b_next (bs ! b) = hd (cs @ [HEAD])"
  unfolding dll_def by (blast intro: seg_next)

lemma dll_prev: "dll bs (as @ b # cs) \<Longrightarrow> b_prev (bs ! b) = last (HEAD # as)"
proof -
  assume "dll bs (as @ b # cs)"
  then have "seg b_prev bs HEAD (rev cs @ b # rev as) HEAD" by (simp add: dll_def)
  then have "b_prev (bs ! b) = hd (rev as @ [HEAD])" by (rule seg_next)
  then show ?thesis by (cases as rule: rev_cases) simp_all
qed

lemma hd_snoc_range: "set xs \<subseteq> {..<NBUF} \<Longrightarrow> hd (xs @ [HEAD]) < Suc NBUF"
  by (cases xs) auto

lemma last_Cons_range: "set xs \<subseteq> {..<NBUF} \<Longrightarrow> last (HEAD # xs) < Suc NBUF"
  using last_in_set [of xs] by (cases xs) auto

lemma unlink_links:
  assumes "b_next (bs ! b) = n" "b_prev (bs ! b) = p" "n < length bs" "p < length bs" "b \<noteq> n" "b \<noteq> p"
  shows "b_next (unlink_buf b bs ! z) = (if z = p then n else b_next (bs ! z))"
    "b_prev (unlink_buf b bs ! z) = (if z = n then p else b_prev (bs ! z))"
  using assms by (auto simp: unlink_buf_def Let_def)

lemma link_links:
  assumes "b_next (bs ! HEAD) = n" "n < length bs" "b < length bs" "HEAD < length bs" "b \<noteq> n" "b \<noteq> HEAD"
  shows "b_next (link_front b bs ! z) = (if z = HEAD then b else if z = b then n else b_next (bs ! z))"
    "b_prev (link_front b bs ! z) = (if z = n then b else if z = b then HEAD else b_prev (bs ! z))"
  using assms by (auto simp: link_front_def Let_def)

lemma dll_unlink:
  assumes d: "dll bs (as @ b # cs)"
  shows "dll (unlink_buf b bs) (as @ cs)"
proof -
  let ?n = "hd (cs @ [HEAD])" and ?p = "last (HEAD # as)"
  have len: "length bs = Suc NBUF" and dist: "distinct (as @ b # cs)" and rng: "set (as @ b # cs) \<subseteq> {..<NBUF}"
    and sn: "seg b_next bs HEAD (as @ b # cs) HEAD" and sp: "seg b_prev bs HEAD (rev cs @ b # rev as) HEAD"
    using d by (auto simp: dll_def)
  note n = dll_next [OF d] and p = dll_prev [OF d]
  have np: "?n < length bs" "?p < length bs"
    using hd_snoc_range [of cs] last_Cons_range [of as] rng len by auto
  have b: "b \<noteq> ?n" "b \<noteq> ?p"
    using dist rng last_in_set [of as] hd_in_set [of cs] by (cases cs; cases as; auto split: if_splits)+
  let ?bs = "unlink_buf b bs"
  note nx = unlink_links(1) [OF n p np b] and pv = unlink_links(2) [OF n p np b]
  have "seg b_next ?bs HEAD (as @ cs) HEAD"
    by (rule seg_drop [OF sn]) (use dist rng in \<open>auto simp: nx n\<close>)
  moreover have "seg b_prev ?bs HEAD (rev cs @ rev as) HEAD"
  proof (rule seg_drop [OF sp])
    have l: "last (HEAD # rev cs) = ?n" by (cases cs) simp_all
    show "b_prev (?bs ! last (HEAD # rev cs)) = b_prev (bs ! b)" unfolding l by (simp add: pv p)
    show "b_prev (?bs ! z) = b_prev (bs ! z)" if "z \<noteq> last (HEAD # rev cs)" for z using that unfolding l by (simp add: pv)
  qed (use dist rng in auto)
  moreover have "length ?bs = Suc NBUF" by (simp add: unlink_buf_def Let_def len)
  ultimately show ?thesis using dist rng by (auto simp: dll_def)
qed

lemma dll_link_front:
  assumes d: "dll bs xs" and b: "b \<notin> set xs" "b < NBUF"
  shows "dll (link_front b bs) (b # xs)"
proof -
  let ?n = "hd (xs @ [HEAD])"
  have len: "length bs = Suc NBUF" and dist: "distinct xs" and rng: "set xs \<subseteq> {..<NBUF}"
    and sn: "seg b_next bs HEAD xs HEAD" and sp: "seg b_prev bs HEAD (rev xs) HEAD"
    using d by (auto simp: dll_def)
  have n: "b_next (bs ! HEAD) = ?n" by (rule seg_first [OF sn])
  have np: "?n < length bs" using hd_snoc_range [of xs] rng len by auto
  have bn: "b \<noteq> ?n" using b hd_in_set [of xs] by (cases xs) auto
  let ?bs = "link_front b bs"
  have lens: "b < length bs" "HEAD < length bs" "b \<noteq> HEAD" using b len by auto
  note nx = link_links(1) [OF n np lens(1,2) bn lens(3)] and pv = link_links(2) [OF n np lens(1,2) bn lens(3)]
  have "seg b_next ?bs b xs HEAD"
  proof (cases xs)
    case Nil
    then show ?thesis using b(2) by (simp add: nx)
  next
    case (Cons y ys)
    have "seg b_next ?bs y ys HEAD \<longleftrightarrow> seg b_next bs y ys HEAD"
      by (rule seg_cong) (use Cons rng b in \<open>auto simp: nx\<close>)
    then show ?thesis using Cons sn b(2) by (simp add: nx)
  qed
  moreover have "seg b_prev ?bs HEAD (rev xs) b"
  proof (rule seg_redirect [OF sp])
    have l: "last (HEAD # rev xs) = ?n" by (cases xs) simp_all
    show "b_prev (?bs ! last (HEAD # rev xs)) = b" unfolding l by (simp add: pv)
    show "b_prev (?bs ! z) = b_prev (bs ! z)"
      if "z \<in> insert HEAD (set (rev xs))" "z \<noteq> last (HEAD # rev xs)" for z
      using that b unfolding l by (auto simp: pv)
  qed (use dist rng in auto)
  moreover have "length ?bs = Suc NBUF" by (simp add: link_front_def Let_def len)
  ultimately show ?thesis using dist rng b by (auto simp: dll_def nx pv seg_append bn)
qed

lemma scan_seg:
  "seg nx bs x xs HEAD \<Longrightarrow> HEAD \<notin> set xs \<Longrightarrow> length xs < k \<Longrightarrow>
   scan k nx P bs (nx (bs ! x)) = Inr (find (\<lambda>i. P (bs ! i)) xs)"
proof (induction xs arbitrary: x k)
  case Nil
  then show ?case by (cases k) auto
next
  case (Cons y ys)
  then obtain k' where "k = Suc k'" by (cases k) auto
  then show ?case using Cons by auto
qed

lemma dll_scan:
  assumes "dll bs xs" "length xs < k"
  shows "scan k b_next P bs (b_next (bs ! HEAD)) = Inr (find (\<lambda>i. P (bs ! i)) xs)"
    "scan k b_prev P bs (b_prev (bs ! HEAD)) = Inr (find (\<lambda>i. P (bs ! i)) (rev xs))"
proof -
  have "HEAD \<notin> set xs" using assms(1) by (auto simp: dll_def)
  then show "scan k b_next P bs (b_next (bs ! HEAD)) = Inr (find (\<lambda>i. P (bs ! i)) xs)"
    "scan k b_prev P bs (b_prev (bs ! HEAD)) = Inr (find (\<lambda>i. P (bs ! i)) (rev xs))"
    using assms scan_seg [of b_next bs HEAD xs k P] scan_seg [of b_prev bs HEAD "rev xs" k P]
    by (auto simp: dll_def)
qed

end
