(* ===== verification/BioInv.thy ===== *)
theory BioInv
  imports Bio
begin

text \<open>
  What the buffer cache promises to one thread of the kernel. \<open>bstate s H P\<close> is its state when
  that thread holds the buffers \<open>H\<close> and the log has pinned the blocks \<open>P\<close>; \<open>view s n\<close> is the
  current content of block \<open>n\<close>, in the cache or on the disk. The operations are described by
  what they do to \<open>H\<close>, \<open>P\<close>, \<open>view\<close> and the disk.
\<close>

section \<open>The state of the cache\<close>

definition holds :: "u32 \<Rightarrow> buf \<Rightarrow> bool" where
  "holds n x \<longleftrightarrow> b_dev x = ROOTDEV \<and> b_blockno x = n"

definition view :: "'a bio_scheme \<Rightarrow> u32 \<Rightarrow> u8 list" where
  "view s n =
     (case first_idx (holds n) (take NBUF (bufs s)) of
        Some i \<Rightarrow> b_data (bufs s ! i) | None \<Rightarrow> disk s n)"

definition buf_ok :: "(u32 \<Rightarrow> u8 list) \<Rightarrow> i32 \<Rightarrow> u32 set \<Rightarrow> bool \<Rightarrow> buf \<Rightarrow> bool" where
  "buf_ok d pid P held x \<longleftrightarrow>
     (b_dev x = 0 \<or> b_dev x = ROOTDEV) \<and> (b_valid x \<longleftrightarrow> b_dev x = ROOTDEV) \<and> length (b_data x) = BSIZE \<and>
     b_refcnt x = of_bool held + of_bool (b_dev x = ROOTDEV \<and> b_blockno x \<in> P) \<and>
     (slocked (b_lock x) \<longleftrightarrow> held) \<and> (held \<longrightarrow> sl_pid (b_lock x) = pid \<and> b_valid x) \<and>
     (\<not> held \<longrightarrow> b_valid x \<longrightarrow> b_blockno x \<notin> P \<longrightarrow> b_data x = d (b_blockno x))"

definition bstate :: "'a bio_scheme \<Rightarrow> nat set \<Rightarrow> u32 set \<Rightarrow> bool" where
  "bstate s H P \<longleftrightarrow>
     (\<exists>xs. dll (bufs s) xs \<and> set xs = {..<NBUF}) \<and> H \<subseteq> {..<NBUF} \<and>
     (\<forall>i < NBUF. buf_ok (disk s) (curpid s) P (i \<in> H) (bufs s ! i)) \<and>
     (\<forall>i < NBUF. \<forall>j < NBUF. \<forall>n. holds n (bufs s ! i) \<longrightarrow> holds n (bufs s ! j) \<longrightarrow> i = j) \<and>
     (\<forall>n \<in> P. \<exists>i < NBUF. holds n (bufs s ! i)) \<and> (\<forall>n. length (disk s n) = BSIZE)"

lemma bstateD:
  assumes "bstate s H P"
  shows "\<exists>xs. dll (bufs s) xs \<and> set xs = {..<NBUF}" "H \<subseteq> {..<NBUF}" "length (bufs s) = Suc NBUF"
    "i < NBUF \<Longrightarrow> buf_ok (disk s) (curpid s) P (i \<in> H) (bufs s ! i)"
    "i < NBUF \<Longrightarrow> j < NBUF \<Longrightarrow> holds n (bufs s ! i) \<Longrightarrow> holds n (bufs s ! j) \<Longrightarrow> i = j"
    "n \<in> P \<Longrightarrow> \<exists>i < NBUF. holds n (bufs s ! i)" "length (disk s n) = BSIZE"
proof -
  show "\<exists>xs. dll (bufs s) xs \<and> set xs = {..<NBUF}" "H \<subseteq> {..<NBUF}"
    "i < NBUF \<Longrightarrow> buf_ok (disk s) (curpid s) P (i \<in> H) (bufs s ! i)"
    "i < NBUF \<Longrightarrow> j < NBUF \<Longrightarrow> holds n (bufs s ! i) \<Longrightarrow> holds n (bufs s ! j) \<Longrightarrow> i = j"
    "n \<in> P \<Longrightarrow> \<exists>i < NBUF. holds n (bufs s ! i)" "length (disk s n) = BSIZE"
    using assms unfolding bstate_def by blast+
  then show "length (bufs s) = Suc NBUF" by (auto simp: dll_def)
qed

lemma view_cached:
  assumes "bstate s H P" "i < NBUF" "holds n (bufs s ! i)"
  shows "view s n = b_data (bufs s ! i)"
proof -
  obtain j where j: "first_idx (holds n) (take NBUF (bufs s)) = Some j"
    using assms bstateD(3) [OF assms(1)]
    by (cases "first_idx (holds n) (take NBUF (bufs s))") (auto simp: first_idx_None)
  then have "j < NBUF" "holds n (bufs s ! j)" by (auto simp: first_idx_Some)
  then have "j = i" using bstateD(5) [OF assms(1) _ assms(2) _ assms(3)] by blast
  then show ?thesis using j by (simp add: view_def)
qed

lemma view_uncached: "(\<And>i. i < NBUF \<Longrightarrow> \<not> holds n (bufs s ! i)) \<Longrightarrow> view s n = disk s n"
  by (cases "first_idx (holds n) (take NBUF (bufs s))") (auto simp: view_def first_idx_Some)

lemma length_view: "bstate s H P \<Longrightarrow> length (view s n) = BSIZE"
proof -
  assume ok: "bstate s H P"
  show ?thesis
  proof (cases "\<exists>i < NBUF. holds n (bufs s ! i)")
    case True
    then show ?thesis using view_cached [OF ok] bstateD(4) [OF ok] by (auto simp: buf_ok_def)
  next
    case False
    then show ?thesis using view_uncached [of n s] bstateD(7) [OF ok] by auto
  qed
qed

text \<open>The view depends on what the buffers hold, not on where they are in the list.\<close>

lemma view_change:
  assumes ok: "bstate s H P" and ok': "bstate s' H' P'"
    and b: "\<And>i m. i < NBUF \<Longrightarrow> holds m (bufs s' ! i) \<longleftrightarrow> holds m (bufs s ! i)"
    and d: "\<And>i. i < NBUF \<Longrightarrow> holds n (bufs s ! i) \<Longrightarrow> b_data (bufs s' ! i) = b_data (bufs s ! i)"
    and dk: "(\<And>i. i < NBUF \<Longrightarrow> \<not> holds n (bufs s ! i)) \<Longrightarrow> disk s' n = disk s n"
  shows "view s' n = view s n"
proof (cases "\<exists>i < NBUF. holds n (bufs s ! i)")
  case True
  then obtain i where i: "i < NBUF" "holds n (bufs s ! i)" by blast
  then have "view s' n = b_data (bufs s' ! i)" by (intro view_cached [OF ok']) (simp_all add: b)
  then show ?thesis using view_cached [OF ok i] d [OF i] by simp
next
  case False
  then show ?thesis using view_uncached [of n s] view_uncached [of n s'] b dk by auto
qed

lemma dll_upd:
  assumes "\<And>x. b_next (f x) = b_next x" "\<And>x. b_prev (f x) = b_prev x" "i < length bs"
  shows "dll (upd i f bs) xs \<longleftrightarrow> dll bs xs"
proof -
  have "seg b_next (upd i f bs) a ys c = seg b_next bs a ys c" "seg b_prev (upd i f bs) a ys c = seg b_prev bs a ys c" for a ys c
    using assms by (auto intro!: seg_cong)
  then show ?thesis by (simp add: dll_def)
qed

section \<open>Reading a block\<close>

lemma card_in_use:
  assumes ok: "bstate s H P" and c: "card P + card H < NBUF"
  shows "\<exists>i < NBUF. b_refcnt (bufs s ! i) = 0"
proof (rule ccontr)
  assume "\<not> (\<exists>i < NBUF. b_refcnt (bufs s ! i) = 0)"
  then have nz: "b_refcnt (bufs s ! i) \<noteq> 0" if "i < NBUF" for i using that by blast
  let ?Q = "{i. i < NBUF \<and> b_dev (bufs s ! i) = ROOTDEV \<and> b_blockno (bufs s ! i) \<in> P}"
  have fP: "finite P"
  proof (rule finite_subset)
    show "P \<subseteq> (\<lambda>i. b_blockno (bufs s ! i)) ` {..<NBUF}"
      using bstateD(6) [OF ok] by (force simp: holds_def)
  qed simp
  have sub: "{..<NBUF} \<subseteq> H \<union> ?Q"
  proof
    fix i assume "i \<in> {..<NBUF}"
    then have i: "i < NBUF" by simp
    have "b_refcnt (bufs s ! i) = of_bool (i \<in> H) + of_bool (b_dev (bufs s ! i) = ROOTDEV \<and> b_blockno (bufs s ! i) \<in> P)"
      using bstateD(4) [OF ok i] by (simp add: buf_ok_def)
    then show "i \<in> H \<union> ?Q" using nz [OF i] i by (auto split: if_splits)
  qed
  have "inj_on (\<lambda>i. b_blockno (bufs s ! i)) ?Q"
    by (rule inj_onI) (use bstateD(5) [OF ok] in \<open>auto simp: holds_def\<close>)
  then have "card ?Q \<le> card P" by (rule card_inj_on_le) (use fP in auto)
  moreover have "NBUF \<le> card (H \<union> ?Q)" using card_mono [OF _ sub] bstateD(2) [OF ok] finite_subset by fastforce
  moreover have "card (H \<union> ?Q) \<le> card H + card ?Q" by (rule card_Un_le)
  ultimately show False using c by linarith
qed

lemma find_SomeD: "find P xs = Some x \<Longrightarrow> x \<in> set xs \<and> P x"
  by (induction xs) (auto split: if_splits)

lemma find_NoneD: "find P xs = None \<Longrightarrow> x \<in> set xs \<Longrightarrow> \<not> P x"
  by (induction xs) (auto split: if_splits)

text \<open>Two ways to get a buffer.\<close>

lemma bget_cases:
  assumes ok: "bstate s H P" and c: "n \<in> P \<or> card P + card H < NBUF"
  obtains
    (cached) b where "b < NBUF" "holds n (bufs s ! b)"
      "bget ROOTDEV n s = lock_buf b (s\<lparr>bufs := upd b (\<lambda>x. x\<lparr>b_refcnt := b_refcnt x + 1\<rparr>) (bufs s)\<rparr>)"
  | (fresh) b where "b < NBUF" "b_refcnt (bufs s ! b) = 0" "\<And>i. i < NBUF \<Longrightarrow> \<not> holds n (bufs s ! i)"
      "bget ROOTDEV n s = lock_buf b (s\<lparr>bufs := upd b (\<lambda>x. x\<lparr>b_dev := ROOTDEV, b_blockno := n,
          b_valid := False, b_refcnt := 1\<rparr>) (bufs s)\<rparr>)"
proof -
  obtain xs where xs: "dll (bufs s) xs" "set xs = {..<NBUF}" using bstateD(1) [OF ok] by blast
  have "length xs = card (set xs)" using xs(1) distinct_card by (metis dll_def)
  then have len: "length xs < Suc NBUF" using xs(2) by simp
  have sc: "scan (Suc NBUF) b_next (\<lambda>x. b_dev x = ROOTDEV \<and> b_blockno x = n) (bufs s) (b_next (bufs s ! HEAD)) =
      Inr (find (\<lambda>i. b_dev (bufs s ! i) = ROOTDEV \<and> b_blockno (bufs s ! i) = n) xs)"
    by (rule dll_scan(1) [OF xs(1) len])
  have sc2: "scan (Suc NBUF) b_prev (\<lambda>x. b_refcnt x = 0) (bufs s) (b_prev (bufs s ! HEAD)) =
      Inr (find (\<lambda>i. b_refcnt (bufs s ! i) = 0) (rev xs))"
    by (rule dll_scan(2) [OF xs(1) len])
  show thesis
  proof (cases "find (\<lambda>i. b_dev (bufs s ! i) = ROOTDEV \<and> b_blockno (bufs s ! i) = n) xs")
    case (Some b)
    show thesis
      by (rule cached [of b]) (use find_SomeD [OF Some] xs(2) sc Some in \<open>auto simp: bget_def holds_def simp del: scan.simps\<close>)
  next
    case None
    then have no: "\<not> holds n (bufs s ! i)" if "i < NBUF" for i
      using find_NoneD [OF None, of i] xs(2) that by (simp add: holds_def)
    then have "n \<notin> P" using bstateD(6) [OF ok] by blast
    then obtain i where "i < NBUF" "b_refcnt (bufs s ! i) = 0" using card_in_use [OF ok] c by blast
    then have "find (\<lambda>i. b_refcnt (bufs s ! i) = 0) (rev xs) \<noteq> None"
      using find_NoneD [of "\<lambda>i. b_refcnt (bufs s ! i) = 0" "rev xs" i] xs(2) by auto
    then obtain b where b: "find (\<lambda>i. b_refcnt (bufs s ! i) = 0) (rev xs) = Some b" by blast
    show thesis
      by (rule fresh [of b]) (use find_SomeD [OF b] xs(2) sc None b sc2 no in \<open>auto simp: bget_def simp del: scan.simps\<close>)
  qed
qed

lemma refcnt_eq_0: "(of_bool a + of_bool b :: u32) = 0 \<longleftrightarrow> \<not> a \<and> \<not> b"
  by (cases a; cases b) simp_all

text \<open>One buffer changes, and with it what is held, pinned or on the disk.\<close>

lemma bstate_upd:
  assumes ok: "bstate s H P" and b: "b < NBUF"
    and bs: "bufs s' = (bufs s)[b := x]" "curpid s' = curpid s"
    and ln: "b_next x = b_next (bufs s ! b)" "b_prev x = b_prev (bufs s ! b)"
    and x: "buf_ok (disk s') (curpid s) P' (b \<in> H') x"
    and H': "\<And>i. i \<noteq> b \<Longrightarrow> i \<in> H' \<longleftrightarrow> i \<in> H"
    and oth: "\<And>i n. i < NBUF \<Longrightarrow> i \<noteq> b \<Longrightarrow> holds n (bufs s ! i) \<Longrightarrow>
        (n \<in> P' \<longleftrightarrow> n \<in> P) \<and> disk s' n = disk s n \<and> \<not> holds n x"
    and cov: "\<And>n. n \<in> P' \<Longrightarrow> holds n x \<or> (\<exists>i < NBUF. i \<noteq> b \<and> holds n (bufs s ! i))"
    and d: "\<And>n. length (disk s' n) = BSIZE"
  shows "bstate s' H' P'"
proof -
  have len: "length (bufs s) = Suc NBUF" by (rule bstateD(3) [OF ok])
  obtain xs where xs: "dll (bufs s) xs" "set xs = {..<NBUF}" using bstateD(1) [OF ok] by blast
  have nb: "bufs s' ! i = (if i = b then x else bufs s ! i)" for i using b len by (simp add: bs nth_list_update)
  have "seg b_next (bufs s') a ys c = seg b_next (bufs s) a ys c"
    "seg b_prev (bufs s') a ys c = seg b_prev (bufs s) a ys c" for a ys c
    using ln by (auto intro!: seg_cong simp: nb)
  then have dl: "dll (bufs s') xs" using xs(1) by (simp add: dll_def bs)
  have "buf_ok (disk s') (curpid s') P' (i \<in> H') (bufs s' ! i)" if i: "i < NBUF" for i
  proof (cases "i = b")
    case False
    have "buf_ok (disk s) (curpid s) P (i \<in> H) (bufs s ! i)" by (rule bstateD(4) [OF ok i])
    then show ?thesis
      using oth [OF i False, of "b_blockno (bufs s ! i)"] H' [OF False] False by (auto simp: buf_ok_def nb bs holds_def)
  qed (use x in \<open>simp add: nb bs(2)\<close>)
  moreover have "i = j" if "i < NBUF" "j < NBUF" "holds n (bufs s' ! i)" "holds n (bufs s' ! j)" for i j n
    using that bstateD(5) [OF ok, of i j n] oth [of i n] oth [of j n] by (auto simp: nb split: if_splits)
  moreover have "\<exists>i < NBUF. holds n (bufs s' ! i)" if "n \<in> P'" for n
    using cov [OF that] b by (auto simp: nb)
  moreover have "H' \<subseteq> {..<NBUF}"
  proof
    fix i assume "i \<in> H'"
    then show "i \<in> {..<NBUF}" using H' [of i] bstateD(2) [OF ok] b by (cases "i = b") auto
  qed
  ultimately show ?thesis using dl xs(2) d unfolding bstate_def by blast
qed

lemma bread_ok:
  assumes ok: "bstate s H P" and c: "n \<in> P \<or> card P + card H < NBUF"
    and h: "\<And>i. i \<in> H \<Longrightarrow> \<not> holds n (bufs s ! i)"
  obtains b bs where "bread ROOTDEV n s = Inr (b, s\<lparr>bufs := bs\<rparr>)" "b < NBUF" "b \<notin> H"
    "bstate (s\<lparr>bufs := bs\<rparr>) (insert b H) P" "holds n (bs ! b)" "b_data (bs ! b) = view s n"
    "view (s\<lparr>bufs := bs\<rparr>) = view s" "\<And>i. i \<in> H \<Longrightarrow> bs ! i = bufs s ! i"
proof (rule bget_cases [OF ok c])
  fix b assume b: "b < NBUF" "holds n (bufs s ! b)"
    and g: "bget ROOTDEV n s = lock_buf b (s\<lparr>bufs := upd b (\<lambda>x. x\<lparr>b_refcnt := b_refcnt x + 1\<rparr>) (bufs s)\<rparr>)"
  let ?x = "bufs s ! b"
  let ?y = "?x\<lparr>b_refcnt := b_refcnt ?x + 1, b_lock := (b_lock ?x)\<lparr>slocked := True, sl_pid := curpid s\<rparr>\<rparr>"
  let ?s = "s\<lparr>bufs := (bufs s)[b := ?y]\<rparr>"
  have len: "b < length (bufs s)" using bstateD(3) [OF ok] b by simp
  have bH: "b \<notin> H" using h b by blast
  note bo = bstateD(4) [OF ok b(1)]
  have r: "bread ROOTDEV n s = Inr (b, ?s)"
    using bo bH b(2) len by (simp add: bread_def g lock_buf_def acquiresleep_def buf_ok_def holds_def upd_def)
  have ok': "bstate ?s (insert b H) P"
  proof (rule bstate_upd [OF ok b(1)])
    show "buf_ok (disk ?s) (curpid s) P (b \<in> insert b H) ?y" using bo bH b(2) by (auto simp: buf_ok_def holds_def)
    show "(m \<in> P \<longleftrightarrow> m \<in> P) \<and> disk ?s m = disk s m \<and> \<not> holds m ?y"
      if "i < NBUF" "i \<noteq> b" "holds m (bufs s ! i)" for i m
      using that bstateD(5) [OF ok that(1) b(1) that(3)] by (auto simp: holds_def)
    show "holds m ?y \<or> (\<exists>i < NBUF. i \<noteq> b \<and> holds m (bufs s ! i))" if "m \<in> P" for m
      using bstateD(6) [OF ok that] by (auto simp: holds_def)
  qed (simp_all add: bstateD(7) [OF ok])
  have vw: "view ?s m = view s m" for m
    by (rule view_change [OF ok ok']) (use len in \<open>auto simp: holds_def nth_list_update\<close>)
  show thesis
    by (rule that [OF r b(1) bH ok'])
       (use b len bH view_cached [OF ok b] vw in \<open>auto simp: holds_def nth_list_update\<close>)
next
  fix b assume b: "b < NBUF" "b_refcnt (bufs s ! b) = 0" and no: "\<And>i. i < NBUF \<Longrightarrow> \<not> holds n (bufs s ! i)"
    and g: "bget ROOTDEV n s = lock_buf b (s\<lparr>bufs := upd b (\<lambda>x. x\<lparr>b_dev := ROOTDEV, b_blockno := n,
          b_valid := False, b_refcnt := 1\<rparr>) (bufs s)\<rparr>)"
  let ?x = "bufs s ! b"
  let ?y = "?x\<lparr>b_dev := ROOTDEV, b_blockno := n, b_refcnt := 1,
      b_lock := (b_lock ?x)\<lparr>slocked := True, sl_pid := curpid s\<rparr>, b_data := disk s n, b_valid := True\<rparr>"
  let ?s = "s\<lparr>bufs := (bufs s)[b := ?y]\<rparr>"
  have len: "b < length (bufs s)" using bstateD(3) [OF ok] b by simp
  note bo = bstateD(4) [OF ok b(1)]
  have bH: "b \<notin> H" and np: "\<And>m. holds m ?x \<Longrightarrow> m \<notin> P"
    using bo b(2) by (auto simp: buf_ok_def holds_def refcnt_eq_0)
  have nP: "n \<notin> P" using no bstateD(6) [OF ok] by blast
  have r: "bread ROOTDEV n s = Inr (b, ?s)"
    using bo bH len by (simp add: bread_def g lock_buf_def acquiresleep_def buf_ok_def disk_rw_def upd_def Let_def)
  have ok': "bstate ?s (insert b H) P"
  proof (rule bstate_upd [OF ok b(1)])
    show "buf_ok (disk ?s) (curpid s) P (b \<in> insert b H) ?y" using nP bstateD(7) [OF ok] by (simp add: buf_ok_def)
    show "(m \<in> P \<longleftrightarrow> m \<in> P) \<and> disk ?s m = disk s m \<and> \<not> holds m ?y"
      if "i < NBUF" "i \<noteq> b" "holds m (bufs s ! i)" for i m
      using that no by (auto simp: holds_def)
    show "holds m ?y \<or> (\<exists>i < NBUF. i \<noteq> b \<and> holds m (bufs s ! i))" if "m \<in> P" for m
      using bstateD(6) [OF ok that] np that by blast
  qed (simp_all add: bstateD(7) [OF ok])
  have vn: "view s n = disk s n" by (rule view_uncached [OF no])
  have vw: "view ?s m = view s m" for m
  proof (cases "m = n")
    case True
    then show ?thesis using view_cached [OF ok' b(1), of n] vn len by (simp add: holds_def)
  next
    case False
    show ?thesis
    proof (cases "\<exists>i < NBUF. i \<noteq> b \<and> holds m (bufs s ! i)")
      case True
      then obtain i where i: "i < NBUF" "i \<noteq> b" "holds m (bufs s ! i)" by blast
      then show ?thesis using view_cached [OF ok i(1,3)] view_cached [OF ok' i(1), of m] by simp
    next
      case others: False
      have "\<not> holds m (bufs ?s ! i)" if "i < NBUF" for i
        using others False len that by (cases "i = b") (auto simp: holds_def)
      then have "view ?s m = disk ?s m" by (rule view_uncached)
      then have "view ?s m = disk s m" by simp
      moreover have "view s m = disk s m"
      proof (cases "holds m ?x")
        case True
        then have "b_data ?x = disk s m" using bo bH np by (auto simp: buf_ok_def holds_def)
        then show ?thesis using view_cached [OF ok b(1) True] by simp
      next
        case False
        then show ?thesis using view_uncached [of m s] others by auto
      qed
      ultimately show ?thesis by simp
    qed
  qed
  show thesis
    by (rule that [OF r b(1) bH ok']) (use bH len vn vw in \<open>auto simp: holds_def nth_list_update\<close>)
qed

section \<open>Using and releasing a buffer\<close>

lemma upd_field: "(\<And>x. g (f x) = g x) \<Longrightarrow> g (upd i f xs ! j) = g (xs ! j)"
  by (cases "i < length xs") (auto simp: upd_def nth_list_update list_update_beyond)

lemma relink_fields [simp]:
  "b_valid (link_front b bs ! i) = b_valid (bs ! i)" "b_valid (unlink_buf b bs ! i) = b_valid (bs ! i)"
  "b_dev (link_front b bs ! i) = b_dev (bs ! i)" "b_dev (unlink_buf b bs ! i) = b_dev (bs ! i)"
  "b_blockno (link_front b bs ! i) = b_blockno (bs ! i)" "b_blockno (unlink_buf b bs ! i) = b_blockno (bs ! i)"
  "b_lock (link_front b bs ! i) = b_lock (bs ! i)" "b_lock (unlink_buf b bs ! i) = b_lock (bs ! i)"
  "b_refcnt (link_front b bs ! i) = b_refcnt (bs ! i)" "b_refcnt (unlink_buf b bs ! i) = b_refcnt (bs ! i)"
  "b_data (link_front b bs ! i) = b_data (bs ! i)" "b_data (unlink_buf b bs ! i) = b_data (bs ! i)"
  by (simp_all add: link_front_def unlink_buf_def Let_def upd_field)

lemma relink_holds [simp]:
  "holds n (link_front b bs ! i) = holds n (bs ! i)" "holds n (unlink_buf b bs ! i) = holds n (bs ! i)"
  by (simp_all add: holds_def)

lemma relink_buf_ok [simp]:
  "buf_ok d pid P h (link_front b bs ! i) = buf_ok d pid P h (bs ! i)"
  "buf_ok d pid P h (unlink_buf b bs ! i) = buf_ok d pid P h (bs ! i)"
  by (simp_all add: buf_ok_def)

lemma dll_relink:
  assumes "dll bs xs" "set xs = {..<NBUF}" "b < NBUF"
  shows "\<exists>ys. dll (link_front b (unlink_buf b bs)) (b # ys) \<and> set (b # ys) = {..<NBUF}"
proof -
  obtain as cs where xs: "xs = as @ b # cs" using assms(2,3) by (metis lessThan_iff split_list)
  have "dll (unlink_buf b bs) (as @ cs)" using dll_unlink assms(1) xs by simp
  moreover have "b \<notin> set (as @ cs)" using assms(1) xs by (auto simp: dll_def)
  ultimately have "dll (link_front b (unlink_buf b bs)) (b # as @ cs)" using dll_link_front assms(3) by blast
  then show ?thesis using assms(2) xs by (intro exI [of _ "as @ cs"]) auto
qed

lemma bstate_relink:
  assumes ok: "bstate s H P" and b: "b < NBUF"
  shows "bstate (s\<lparr>bufs := link_front b (unlink_buf b (bufs s))\<rparr>) H P"
proof -
  obtain xs where "dll (bufs s) xs" "set xs = {..<NBUF}" using bstateD(1) [OF ok] by blast
  then have "\<exists>ys. dll (link_front b (unlink_buf b (bufs s))) ys \<and> set ys = {..<NBUF}"
    using dll_relink b by blast
  then show ?thesis using ok by (simp add: bstate_def)
qed

lemma held_buf:
  assumes "bstate s H P" "b \<in> H"
  obtains n where "b < NBUF" "b < length (bufs s)" "holds n (bufs s ! b)" "buf_ok (disk s) (curpid s) P True (bufs s ! b)"
    "holdingsleep (curpid s) (b_lock (bufs s ! b))" "view s n = data_of b s"
proof -
  have b: "b < NBUF" using bstateD(2) [OF assms(1)] assms(2) by blast
  have ok: "buf_ok (disk s) (curpid s) P True (bufs s ! b)" using bstateD(4) [OF assms(1) b] assms(2) by simp
  then have h: "holds (b_blockno (bufs s ! b)) (bufs s ! b)" by (auto simp: buf_ok_def holds_def)
  show thesis
    by (rule that [OF b _ h ok _ view_cached [OF assms(1) b h]])
       (use ok b bstateD(3) [OF assms(1)] in \<open>auto simp: buf_ok_def holdingsleep_def\<close>)
qed

lemma holds_unique: "holds n x \<Longrightarrow> holds m x \<longleftrightarrow> m = n"
  by (auto simp: holds_def)

text \<open>Changes of one held buffer that leave its lock and block number alone.\<close>

lemma bstate_upd_held:
  assumes ok: "bstate s H P" and b: "b \<in> H" and n: "holds n (bufs s ! b)"
    and bs: "bufs s' = (bufs s)[b := x]" "curpid s' = curpid s"
    and x: "x = (bufs s ! b)\<lparr>b_data := v, b_refcnt := 1 + of_bool (n \<in> P')\<rparr>" "length v = BSIZE"
    and oth: "\<And>m. m \<noteq> n \<Longrightarrow> (m \<in> P' \<longleftrightarrow> m \<in> P) \<and> disk s' m = disk s m" and d: "length (disk s' n) = BSIZE"
  shows "bstate s' H P'" "view s' = (view s)(n := v)"
proof -
  obtain bN: "b < NBUF" and bL: "b < length (bufs s)" and bo: "buf_ok (disk s) (curpid s) P True (bufs s ! b)"
    using held_buf [OF ok b] by metis
  have hx: "holds m x \<longleftrightarrow> m = n" for m using n by (auto simp: x holds_def)
  show ok': "bstate s' H P'"
  proof (rule bstate_upd [OF ok bN bs(1,2)])
    show "buf_ok (disk s') (curpid s) P' (b \<in> H) x" using bo b x(2) n by (auto simp: buf_ok_def x(1) holds_def)
    show "(m \<in> P' \<longleftrightarrow> m \<in> P) \<and> disk s' m = disk s m \<and> \<not> holds m x"
      if "i < NBUF" "i \<noteq> b" "holds m (bufs s ! i)" for i m
    proof -
      have "m \<noteq> n" using that(2) bstateD(5) [OF ok that(1) bN that(3)] n by blast
      then show ?thesis using oth [of m] hx [of m] by simp
    qed
    show "holds m x \<or> (\<exists>i < NBUF. i \<noteq> b \<and> holds m (bufs s ! i))" if "m \<in> P'" for m
      using that oth [of m] bstateD(6) [OF ok, of m] hx n holds_unique by metis
    show "length (disk s' m) = BSIZE" for m using oth [of m] d bstateD(7) [OF ok] by (cases "m = n") simp_all
  qed (simp_all add: x)
  have nb: "bufs s' ! i = (if i = b then x else bufs s ! i)" for i using bL by (simp add: bs nth_list_update)
  show "view s' = (view s)(n := v)"
  proof
    fix m
    show "view s' m = ((view s)(n := v)) m"
    proof (cases "m = n")
      case True
      then show ?thesis using view_cached [OF ok' bN, of n] hx by (simp add: nb x(1))
    next
      case False
      have "view s' m = view s m"
        by (rule view_change [OF ok ok']) (use False hx n oth holds_unique in \<open>auto simp: nb\<close>)
      then show ?thesis using False by simp
    qed
  qed
qed

lemma set_data_ok:
  assumes ok: "bstate s H P" and b: "b \<in> H" and n: "holds n (bufs s ! b)" and f: "length (f (data_of b s)) = BSIZE"
  shows "bstate (set_data b f s) H P" "view (set_data b f s) = (view s)(n := f (view s n))"
    "bufs (set_data b f s) ! b = (bufs s ! b)\<lparr>b_data := f (data_of b s)\<rparr>"
    "i \<noteq> b \<Longrightarrow> bufs (set_data b f s) ! i = bufs s ! i"
proof -
  obtain bL: "b < length (bufs s)" and bo: "buf_ok (disk s) (curpid s) P True (bufs s ! b)"
    using held_buf [OF ok b] by metis
  have vn: "view s n = data_of b s" using held_buf [OF ok b] n holds_unique by metis
  have rc: "b_refcnt (bufs s ! b) = 1 + of_bool (n \<in> P)" using bo n by (simp add: buf_ok_def holds_def)
  have e: "bufs (set_data b f s) = (bufs s)[b := (bufs s ! b)\<lparr>b_data := f (data_of b s), b_refcnt := 1 + of_bool (n \<in> P)\<rparr>]"
    by (simp add: set_data_def upd_def rc [symmetric])
  note u = bstate_upd_held [OF ok b n e _ refl f]
  show "bstate (set_data b f s) H P" by (rule u(1)) (simp_all add: set_data_def bstateD(7) [OF ok])
  have "view (set_data b f s) = (view s)(n := f (data_of b s))"
    by (rule u(2)) (simp_all add: set_data_def bstateD(7) [OF ok])
  then show "view (set_data b f s) = (view s)(n := f (view s n))" by (simp add: vn)
  show "bufs (set_data b f s) ! b = (bufs s ! b)\<lparr>b_data := f (data_of b s)\<rparr>"
    "i \<noteq> b \<Longrightarrow> bufs (set_data b f s) ! i = bufs s ! i"
    using bL by (simp_all add: set_data_def)
qed

lemma bwrite_ok:
  assumes ok: "bstate s H P" and b: "b \<in> H" and n: "holds n (bufs s ! b)"
  shows "bwrite b s = Inr (s\<lparr>disk := (disk s)(n := view s n), dwrites := dwrites s @ [(n, view s n)]\<rparr>)" (is "_ = Inr ?s")
    "bstate (s\<lparr>disk := (disk s)(n := view s n), dwrites := dwrites s @ [(n, view s n)]\<rparr>) H P"
    "view (s\<lparr>disk := (disk s)(n := view s n), dwrites := dwrites s @ [(n, view s n)]\<rparr>) = view s"
proof -
  obtain bo: "buf_ok (disk s) (curpid s) P True (bufs s ! b)" and hs: "holdingsleep (curpid s) (b_lock (bufs s ! b))"
    and bL: "b < length (bufs s)"
    using held_buf [OF ok b] by metis
  have vn: "view s n = data_of b s" using held_buf [OF ok b] n holds_unique by metis
  show "bwrite b s = Inr ?s" using hs n by (simp add: bwrite_def disk_rw_def vn holds_def Let_def)
  have rc: "b_refcnt (bufs s ! b) = 1 + of_bool (n \<in> P)" using bo n by (simp add: buf_ok_def holds_def)
  have e: "bufs ?s = (bufs s)[b := (bufs s ! b)\<lparr>b_data := data_of b s, b_refcnt := 1 + of_bool (n \<in> P)\<rparr>]"
    using bL by (simp add: rc [symmetric])
  note u = bstate_upd_held [OF ok b n e _ refl]
  have l: "length (data_of b s) = BSIZE" using bo by (simp add: buf_ok_def)
  show "bstate ?s H P" by (rule u(1)) (simp_all add: vn l)
  have "view ?s = (view s)(n := data_of b s)" by (rule u(2)) (simp_all add: vn l)
  then show "view ?s = view s" using vn by auto
qed

lemma bpin_ok:
  assumes ok: "bstate s H P" and b: "b \<in> H" and n: "holds n (bufs s ! b)" "n \<notin> P"
  shows "bstate (bpin b s) H (insert n P)" "view (bpin b s) = view s"
    "bufs (bpin b s) ! i = (if i = b then (bufs s ! b)\<lparr>b_refcnt := 2\<rparr> else bufs s ! i)"
proof -
  obtain bo: "buf_ok (disk s) (curpid s) P True (bufs s ! b)" and bL: "b < length (bufs s)"
    using held_buf [OF ok b] by metis
  have vn: "view s n = data_of b s" using held_buf [OF ok b] n holds_unique by metis
  have rc: "b_refcnt (bufs s ! b) = 1" using bo n by (simp add: buf_ok_def holds_def)
  have e: "bufs (bpin b s) = (bufs s)[b := (bufs s ! b)\<lparr>b_data := data_of b s, b_refcnt := 1 + of_bool (n \<in> insert n P)\<rparr>]"
    by (simp add: bpin_def upd_def rc)
  note u = bstate_upd_held [OF ok b n(1) e _ refl]
  have l: "length (data_of b s) = BSIZE" using bo by (simp add: buf_ok_def)
  show "bstate (bpin b s) H (insert n P)" by (rule u(1)) (simp_all add: bpin_def l bstateD(7) [OF ok])
  have "view (bpin b s) = (view s)(n := data_of b s)" by (rule u(2)) (simp_all add: bpin_def l bstateD(7) [OF ok])
  then show "view (bpin b s) = view s" using vn by auto
  show "bufs (bpin b s) ! i = (if i = b then (bufs s ! b)\<lparr>b_refcnt := 2\<rparr> else bufs s ! i)"
    using bL by (simp add: bpin_def rc)
qed

lemma bunpin_ok:
  assumes ok: "bstate s H P" and b: "b \<in> H" and n: "holds n (bufs s ! b)" "n \<in> P"
  shows "bstate (bunpin b s) H (P - {n})" "view (bunpin b s) = view s"
    "bufs (bunpin b s) ! i = (if i = b then (bufs s ! b)\<lparr>b_refcnt := 1\<rparr> else bufs s ! i)"
proof -
  obtain bo: "buf_ok (disk s) (curpid s) P True (bufs s ! b)" and bL: "b < length (bufs s)"
    using held_buf [OF ok b] by metis
  have vn: "view s n = data_of b s" using held_buf [OF ok b] n holds_unique by metis
  have rc: "b_refcnt (bufs s ! b) = 2" using bo n by (simp add: buf_ok_def holds_def)
  have e: "bufs (bunpin b s) = (bufs s)[b := (bufs s ! b)\<lparr>b_data := data_of b s, b_refcnt := 1 + of_bool (n \<in> P - {n})\<rparr>]"
    by (simp add: bunpin_def upd_def rc)
  note u = bstate_upd_held [OF ok b n(1) e _ refl]
  have l: "length (data_of b s) = BSIZE" using bo by (simp add: buf_ok_def)
  show "bstate (bunpin b s) H (P - {n})" by (rule u(1)) (simp_all add: bunpin_def l bstateD(7) [OF ok])
  have "view (bunpin b s) = (view s)(n := data_of b s)" by (rule u(2)) (simp_all add: bunpin_def l bstateD(7) [OF ok])
  then show "view (bunpin b s) = view s" using vn by auto
  show "bufs (bunpin b s) ! i = (if i = b then (bufs s ! b)\<lparr>b_refcnt := 1\<rparr> else bufs s ! i)"
    using bL by (simp add: bunpin_def rc)
qed

lemma brelse_ok:
  assumes ok: "bstate s H P" and b: "b \<in> H" and n: "holds n (bufs s ! b)" and cl: "n \<in> P \<or> view s n = disk s n"
  obtains bs where "brelse b s = Inr (s\<lparr>woken := BufLockChan b # woken s, bufs := bs\<rparr>)"
    "bstate (s\<lparr>woken := BufLockChan b # woken s, bufs := bs\<rparr>) (H - {b}) P"
    "view (s\<lparr>woken := BufLockChan b # woken s, bufs := bs\<rparr>) = view s"
    "\<And>i. b_data (bs ! i) = data_of i s" "\<And>i m. holds m (bs ! i) = holds m (bufs s ! i)"
proof -
  obtain bN: "b < NBUF" and bL: "b < length (bufs s)" and bo: "buf_ok (disk s) (curpid s) P True (bufs s ! b)"
    and hs: "holdingsleep (curpid s) (b_lock (bufs s ! b))"
    using held_buf [OF ok b] by metis
  have vn: "view s n = data_of b s" using held_buf [OF ok b] n holds_unique by metis
  have rc: "b_refcnt (bufs s ! b) = 1 + of_bool (n \<in> P)" using bo n by (simp add: buf_ok_def holds_def)
  let ?x = "(bufs s ! b)\<lparr>b_lock := releasesleep (b_lock (bufs s ! b)), b_refcnt := of_bool (n \<in> P)\<rparr>"
  let ?bs1 = "(bufs s)[b := ?x]"
  let ?s1 = "s\<lparr>woken := BufLockChan b # woken s, bufs := ?bs1\<rparr>"
  let ?bs = "if n \<in> P then ?bs1 else link_front b (unlink_buf b ?bs1)"
  have r: "brelse b s = Inr (s\<lparr>woken := BufLockChan b # woken s, bufs := ?bs\<rparr>)"
    using hs bL by (simp add: brelse_def Let_def upd_def rc)
  have ok1: "bstate ?s1 (H - {b}) P"
  proof (rule bstate_upd [OF ok bN])
    show "buf_ok (disk ?s1) (curpid s) P (b \<in> H - {b}) ?x"
      using bo n cl vn by (auto simp: buf_ok_def holds_def releasesleep_def)
    show "(m \<in> P \<longleftrightarrow> m \<in> P) \<and> disk ?s1 m = disk s m \<and> \<not> holds m ?x"
      if "i < NBUF" "i \<noteq> b" "holds m (bufs s ! i)" for i m
      using that bstateD(5) [OF ok that(1) bN that(3)] by (auto simp: holds_def)
    show "holds m ?x \<or> (\<exists>i < NBUF. i \<noteq> b \<and> holds m (bufs s ! i))" if "m \<in> P" for m
      using bstateD(6) [OF ok that] by (auto simp: holds_def)
  qed (simp_all add: bstateD(7) [OF ok])
  have ok2: "bstate (s\<lparr>woken := BufLockChan b # woken s, bufs := ?bs\<rparr>) (H - {b}) P"
    using bstate_relink [OF ok1 bN] ok1 by (cases "n \<in> P") simp_all
  have dt: "b_data (?bs ! i) = data_of i s" and hl: "holds m (?bs ! i) = holds m (bufs s ! i)" for i m
    using bL by (auto simp: nth_list_update holds_def)
  have "view (s\<lparr>woken := BufLockChan b # woken s, bufs := ?bs\<rparr>) m = view s m" for m
    by (rule view_change [OF ok ok2]) (use dt hl in simp_all)
  then show thesis by (intro that [OF r ok2]) (use dt hl in \<open>auto simp del: if_split\<close>)
qed

section \<open>The cache after binit\<close>

lemma dll_binit_step:
  assumes "dll bs xs" "b \<notin> set xs" "b < NBUF"
  shows "dll (binit_step b bs) (b # xs)"
proof -
  have "b < length bs" using assms(1,3) by (simp add: dll_def)
  then have "dll (upd b (\<lambda>x. x\<lparr>b_lock := initsleeplock ''buffer''\<rparr>) bs) xs"
    using assms(1) by (subst dll_upd) simp_all
  then show ?thesis unfolding binit_step_def using assms(2,3) by (rule dll_link_front)
qed

lemma dll_fold_binit:
  "dll bs [] \<Longrightarrow> n \<le> NBUF \<Longrightarrow> dll (fold binit_step [0..<n] bs) (rev [0..<n])"
proof (induction n)
  case (Suc n)
  have "dll (fold binit_step [0..<n] bs) (rev [0..<n])" using Suc by simp
  then have "dll (binit_step n (fold binit_step [0..<n] bs)) (n # rev [0..<n])"
    by (rule dll_binit_step) (use Suc.prems(2) in simp_all)
  then show ?case by simp
qed simp

lemma binit_step_fields [simp]:
  "b_valid (binit_step b bs ! i) = b_valid (bs ! i)" "b_dev (binit_step b bs ! i) = b_dev (bs ! i)"
  "b_blockno (binit_step b bs ! i) = b_blockno (bs ! i)" "b_refcnt (binit_step b bs ! i) = b_refcnt (bs ! i)"
  "b_data (binit_step b bs ! i) = b_data (bs ! i)"
  by (simp_all add: binit_step_def upd_field)

lemma fold_binit_fields [simp]:
  "b_valid (fold binit_step ks bs ! i) = b_valid (bs ! i)" "b_dev (fold binit_step ks bs ! i) = b_dev (bs ! i)"
  "b_blockno (fold binit_step ks bs ! i) = b_blockno (bs ! i)" "b_refcnt (fold binit_step ks bs ! i) = b_refcnt (bs ! i)"
  "b_data (fold binit_step ks bs ! i) = b_data (bs ! i)"
  by (induction ks arbitrary: bs) simp_all

lemma fold_binit_unlocked:
  "\<not> slocked (b_lock (bs ! i)) \<Longrightarrow> \<not> slocked (b_lock (fold binit_step ks bs ! i))"
proof (induction ks arbitrary: bs)
  case (Cons k ks)
  have "\<not> slocked (b_lock (binit_step k bs ! i))"
    using Cons.prems by (cases "k < length bs") (auto simp: binit_step_def upd_def initsleeplock_def nth_list_update list_update_beyond)
  then show ?case using Cons.IH by simp
qed simp

text \<open>On the zeroed cache, \<^verbatim>\<open>binit()\<close> establishes the invariant: nothing cached, held or pinned.\<close>

lemma binit_ok:
  assumes "bufs s = replicate (Suc NBUF) zero_buf" "\<And>n. length (disk s n) = BSIZE"
  shows "bstate (binit s) {} {}" "view (binit s) = disk s" "binit s = s\<lparr>bufs := bufs (binit s)\<rparr>"
proof -
  let ?bs = "upd HEAD (\<lambda>x. x\<lparr>b_prev := HEAD, b_next := HEAD\<rparr>) (bufs s)"
  have "dll ?bs []" by (simp add: dll_def assms(1) del: replicate_Suc)
  then have "dll (fold binit_step [0..<NBUF] ?bs) (rev [0..<NBUF])" by (rule dll_fold_binit) simp
  moreover have "bufs (binit s) = fold binit_step [0..<NBUF] ?bs" by (simp add: binit_def del: upt_rec_numeral)
  moreover have "set (rev [0..<NBUF]) = {..<NBUF}" by (simp only: set_rev set_upt atLeast0LessThan)
  ultimately obtain ys where ys: "dll (bufs (binit s)) ys" "set ys = {..<NBUF}" by metis
  have z: "bufs s ! i = zero_buf" if "i < NBUF" for i using that unfolding assms(1) by (intro nth_replicate) simp
  have zz: "?bs ! i = zero_buf" if "i < NBUF" for i
    using that z [OF that] by (simp add: assms(1) del: replicate_Suc)
  have f: "\<not> b_valid (bufs (binit s) ! i)" "b_dev (bufs (binit s) ! i) = 0" "b_refcnt (bufs (binit s) ! i) = 0"
    "length (data_of i (binit s)) = BSIZE" "\<not> slocked (b_lock (bufs (binit s) ! i))" if "i < NBUF" for i
    using zz [OF that] fold_binit_unlocked [of ?bs i "[0..<NBUF]"] by (simp_all add: binit_def zero_buf_def del: upt_rec_numeral)
  have nh: "\<not> holds n (bufs (binit s) ! i)" if "i < NBUF" for i n using f(2) [OF that] by (simp add: holds_def)
  show "bstate (binit s) {} {}"
    unfolding bstate_def using ys f nh assms(2) by (auto simp: buf_ok_def) (auto simp: binit_def simp del: upt_rec_numeral)
  show "view (binit s) = disk s"
  proof
    fix n show "view (binit s) n = disk s n" using view_uncached [of n "binit s"] nh by (simp add: binit_def del: upt_rec_numeral)
  qed
  show "binit s = s\<lparr>bufs := bufs (binit s)\<rparr>" by (simp add: binit_def del: upt_rec_numeral)
qed

section \<open>Properties\<close>

lemma dll_length: "dll bs xs \<Longrightarrow> set xs = {..<NBUF} \<Longrightarrow> length xs = NBUF"
  by (metis card_lessThan distinct_card dll_def)

lemma dll_brelse:
  assumes "dll (bufs s) xs" "set xs = {..<NBUF}" "b < NBUF" "brelse b s = Inr s'"
  shows "dll (bufs s') (if b_refcnt (bufs s ! b) = 1 then b # remove1 b xs else xs)"
proof -
  let ?x = "(bufs s ! b)\<lparr>b_lock := releasesleep (b_lock (bufs s ! b)), b_refcnt := b_refcnt (bufs s ! b) - 1\<rparr>"
  have bL: "b < length (bufs s)" using assms(1,3) by (simp add: dll_def)
  have e: "bufs s' = (if b_refcnt (bufs s ! b) = 1 then link_front b (unlink_buf b ((bufs s)[b := ?x])) else (bufs s)[b := ?x])"
    using assms(4) bL by (auto simp: brelse_def Let_def upd_def split: if_splits)
  have "seg b_next ((bufs s)[b := ?x]) a ys c = seg b_next (bufs s) a ys c"
    "seg b_prev ((bufs s)[b := ?x]) a ys c = seg b_prev (bufs s) a ys c" for a ys c
    using bL by (auto intro!: seg_cong simp: nth_list_update)
  then have d: "dll ((bufs s)[b := ?x]) xs" using assms(1) by (simp add: dll_def)
  obtain as cs where xs: "xs = as @ b # cs" using assms(2,3) by (metis lessThan_iff split_list)
  have na: "b \<notin> set as" "b \<notin> set (as @ cs)" using assms(1) xs by (auto simp: dll_def)
  have l: "dll (link_front b (unlink_buf b ((bufs s)[b := ?x]))) (b # as @ cs)"
    using dll_link_front [OF dll_unlink na(2) assms(3)] d xs by simp
  have r: "remove1 b xs = as @ cs" using xs na(1) by (simp add: remove1_append)
  show ?thesis unfolding e r using l d by (cases "b_refcnt (bufs s ! b) = 1") (simp_all only: if_True if_False refl)
qed

text \<open>
  Claim C17. The pointer structure implements a least-recently-used list \<open>xs\<close> of the buffers.
  \<^verbatim>\<open>bget()\<close> takes the first buffer of \<open>xs\<close> that has the block; if there is none, it recycles the last
  buffer of \<open>xs\<close> that nobody refers to; and if all are in use it panics. \<^verbatim>\<open>brelse()\<close> of the last
  reference moves the buffer to the front of the list, any other \<^verbatim>\<open>brelse()\<close> leaves the list as it is.
\<close>

theorem bcache_implements_lru_list:
  assumes "dll (bufs s) xs" "set xs = {..<NBUF}"
  shows "bget dev n s =
      (case find (\<lambda>i. b_dev (bufs s ! i) = dev \<and> b_blockno (bufs s ! i) = n) xs of
         Some b \<Rightarrow> lock_buf b (s\<lparr>bufs := upd b (\<lambda>x. x\<lparr>b_refcnt := b_refcnt x + 1\<rparr>) (bufs s)\<rparr>)
       | None \<Rightarrow>
           (case find (\<lambda>i. b_refcnt (bufs s ! i) = 0) (rev xs) of
              Some b \<Rightarrow> lock_buf b (s\<lparr>bufs := upd b (\<lambda>x. x\<lparr>b_dev := dev, b_blockno := n,
                          b_valid := False, b_refcnt := 1\<rparr>) (bufs s)\<rparr>)
            | None \<Rightarrow> Inl (Panic ''bget: no buffers''))) \<and>
    (\<forall>b s'. b < NBUF \<and> brelse b s = Inr s' \<longrightarrow>
      dll (bufs s') (if b_refcnt (bufs s ! b) = 1 then b # remove1 b xs else xs))"
proof -
  have len: "length xs < Suc NBUF" using dll_length [OF assms] by simp
  show ?thesis
    unfolding bget_def dll_scan [OF assms(1) len] using dll_brelse [OF assms] by (simp split: option.split)
qed

text \<open>The cache of a machine that has just booted on the disk \<open>d\<close>.\<close>

definition boot_bio :: "(u32 \<Rightarrow> u8 list) \<Rightarrow> i32 \<Rightarrow> bio" where
  "boot_bio d pid = binit \<lparr>bufs = replicate (Suc NBUF) zero_buf, disk = d, dwrites = [], woken = [], curpid = pid\<rparr>"

lemma boot_bio_ok:
  assumes "\<And>n. length (d n) = BSIZE"
  shows "bstate (boot_bio d pid) {} {}" "view (boot_bio d pid) = d" "disk (boot_bio d pid) = d" "dwrites (boot_bio d pid) = []"
proof -
  let ?s = "\<lparr>bufs = replicate (Suc NBUF) zero_buf, disk = d, dwrites = [], woken = [], curpid = pid\<rparr>"
  have l: "length (disk ?s n) = BSIZE" for n using assms by simp
  show "bstate (boot_bio d pid) {} {}" "view (boot_bio d pid) = d"
    unfolding boot_bio_def using binit_ok [of ?s, OF _ l] by simp_all
  show "disk (boot_bio d pid) = d" "dwrites (boot_bio d pid) = []"
    by (simp_all add: boot_bio_def binit_def del: upt_rec_numeral)
qed

theorem bcache_implements_lru_list_witness:
  "\<exists>xs. dll (bufs (boot_bio (\<lambda>_. replicate BSIZE 0) 1)) xs \<and> set xs = {..<NBUF} \<and>
     bget ROOTDEV 7 (boot_bio (\<lambda>_. replicate BSIZE 0) 1) =
      (case find (\<lambda>i. b_dev (bufs (boot_bio (\<lambda>_. replicate BSIZE 0) 1) ! i) = ROOTDEV \<and>
            b_blockno (bufs (boot_bio (\<lambda>_. replicate BSIZE 0) 1) ! i) = 7) xs of
         Some b \<Rightarrow> lock_buf b ((boot_bio (\<lambda>_. replicate BSIZE 0) 1)\<lparr>bufs := upd b (\<lambda>x. x\<lparr>b_refcnt := b_refcnt x + 1\<rparr>)
              (bufs (boot_bio (\<lambda>_. replicate BSIZE 0) 1))\<rparr>)
       | None \<Rightarrow>
           (case find (\<lambda>i. b_refcnt (bufs (boot_bio (\<lambda>_. replicate BSIZE 0) 1) ! i) = 0) (rev xs) of
              Some b \<Rightarrow> lock_buf b ((boot_bio (\<lambda>_. replicate BSIZE 0) 1)\<lparr>bufs := upd b (\<lambda>x. x\<lparr>b_dev := ROOTDEV,
                  b_blockno := 7, b_valid := False, b_refcnt := 1\<rparr>) (bufs (boot_bio (\<lambda>_. replicate BSIZE 0) 1))\<rparr>)
            | None \<Rightarrow> Inl (Panic ''bget: no buffers'')))"
proof -
  have "bstate (boot_bio (\<lambda>_. replicate BSIZE 0) 1) {} {}" by (rule boot_bio_ok) simp
  then obtain xs where xs: "dll (bufs (boot_bio (\<lambda>_. replicate BSIZE 0) 1)) xs" "set xs = {..<NBUF}"
    using bstateD(1) by blast
  show ?thesis using bcache_implements_lru_list [OF xs, of ROOTDEV 7] xs by blast
qed

text \<open>
  Claim C18. \<^verbatim>\<open>bread()\<close> returns a locked buffer with the current content of the block, that is what was
  last stored into it, whether it is cached or only on the disk; it changes the content of no block,
  writes nothing, keeps the invariant of the cache (in particular one buffer per block), and leaves the
  buffers that are in use alone. It needs a buffer that is neither held nor pinned, unless the block is
  pinned.
\<close>

theorem bread_returns_current_block:
  assumes "bstate s H P" "n \<in> P \<or> card P + card H < NBUF" "\<forall>i \<in> H. \<not> holds n (bufs s ! i)"
  shows "\<exists>b bs. bread ROOTDEV n s = Inr (b, s\<lparr>bufs := bs\<rparr>) \<and> b < NBUF \<and> b \<notin> H \<and>
    bstate (s\<lparr>bufs := bs\<rparr>) (insert b H) P \<and> b_blockno (bs ! b) = n \<and> b_data (bs ! b) = view s n \<and>
    view (s\<lparr>bufs := bs\<rparr>) = view s \<and> (\<forall>i \<in> H. bs ! i = bufs s ! i)"
proof (rule bread_ok [OF assms(1,2)])
  show "\<not> holds n (bufs s ! i)" if "i \<in> H" for i using assms(3) that by blast
next
  fix b bs assume "bread ROOTDEV n s = Inr (b, s\<lparr>bufs := bs\<rparr>)" "b < NBUF" "b \<notin> H"
    "bstate (s\<lparr>bufs := bs\<rparr>) (insert b H) P" "holds n (bs ! b)" "b_data (bs ! b) = view s n"
    "view (s\<lparr>bufs := bs\<rparr>) = view s" "\<And>i. i \<in> H \<Longrightarrow> bs ! i = bufs s ! i"
  then show ?thesis unfolding holds_def by blast
qed

theorem bread_returns_current_block_witness:
  "\<exists>b bs. bread ROOTDEV 7 (boot_bio (\<lambda>n. replicate BSIZE (ucast n)) 1) =
       Inr (b, (boot_bio (\<lambda>n. replicate BSIZE (ucast n)) 1)\<lparr>bufs := bs\<rparr>) \<and> b_data (bs ! b) = replicate BSIZE 7"
proof -
  let ?s = "boot_bio (\<lambda>n. replicate BSIZE (ucast n)) 1"
  have ok: "bstate ?s {} {}" and v: "view ?s = (\<lambda>n. replicate BSIZE (ucast n))" by (rule boot_bio_ok; simp)+
  have "\<exists>b bs. bread ROOTDEV 7 ?s = Inr (b, ?s\<lparr>bufs := bs\<rparr>) \<and> b_data (bs ! b) = view ?s 7"
    using bread_returns_current_block [OF ok, of 7] by force
  then show ?thesis unfolding v by simp
qed

end
