(* ===== verification/Log.thy ===== *)
theory Log
  imports BioInv
begin

text \<open>
  The log (\<^verbatim>\<open>kernel/log.c\<close>): the state \<open>logst\<close> adds the fields of \<^verbatim>\<open>struct log\<close> to the buffer cache.
  Block numbers are \<open>u32\<close>; the counters \<^verbatim>\<open>lh.n\<close> and \<^verbatim>\<open>outstanding\<close> are \<open>int\<close>. A header on the
  disk may claim any number of blocks; reading more than \<^verbatim>\<open>LOGBLOCKS\<close> of them into \<^verbatim>\<open>log.lh\<close> would run
  past the end of the array, which is the outcome \<open>Undef\<close>.
\<close>

section \<open>Data\<close>

record superblock =
  sb_magic :: u32
  sb_size :: u32
  sb_nblocks :: u32
  sb_ninodes :: u32
  sb_nlog :: u32
  sb_logstart :: u32
  sb_inodestart :: u32
  sb_bmapstart :: u32

record logst = bio +
  log_start :: u32
  log_outstanding :: int
  log_committing :: bool
  log_dev :: u32
  lh_n :: int
  lh_block :: "u32 list"

section \<open>Operations\<close>

text \<open>The loop body of \<^verbatim>\<open>install_trans()\<close>; the message printed while recovering is not modelled.\<close>

definition install_block :: "bool \<Rightarrow> nat \<Rightarrow> 'a logst_scheme \<Rightarrow> 'a logst_scheme res" where
  "install_block recovering tail s =
     bindR (bread (log_dev s) (log_start s + of_nat tail + 1) s) (\<lambda>(lbuf, s1).
     bindR (bread (log_dev s1) (lh_block s1 ! tail) s1) (\<lambda>(dbuf, s2).
     let s3 = set_data dbuf (\<lambda>_. data_of lbuf s2) s2
     in bindR (bwrite dbuf s3) (\<lambda>s4.
        let s5 = (if \<not> recovering then bunpin dbuf s4 else s4)
        in bindR (brelse lbuf s5) (\<lambda>s6. brelse dbuf s6))))"

definition install_trans :: "bool \<Rightarrow> 'a logst_scheme \<Rightarrow> 'a logst_scheme res" where
  "install_trans recovering s = foldR (install_block recovering) [0..<nat (lh_n s)] s"

definition read_head :: "'a logst_scheme \<Rightarrow> 'a logst_scheme res" where
  "read_head s =
     bindR (bread (log_dev s) (log_start s) s) (\<lambda>(b, s1).
       let d = data_of b s1; n = sint (get32 d 0)
       in if int LOGBLOCKS < n then Inl Undef
          else brelse b (s1\<lparr>lh_n := n,
                 lh_block := map (\<lambda>i. get32 d (4 + 4 * i)) [0..<nat n] @ drop (nat n) (lh_block s1)\<rparr>))"

text \<open>The header block with \<open>n\<close> and the first \<open>n\<close> block numbers stored into it.\<close>

definition put_head :: "int \<Rightarrow> u32 list \<Rightarrow> u8 list \<Rightarrow> u8 list" where
  "put_head n bl d = fold (\<lambda>i d. put32 d (4 + 4 * i) (bl ! i)) [0..<nat n] (put32 d 0 (word_of_int n))"

definition write_head :: "'a logst_scheme \<Rightarrow> 'a logst_scheme res" where
  "write_head s =
     bindR (bread (log_dev s) (log_start s) s) (\<lambda>(b, s1).
       let s2 = set_data b (put_head (lh_n s1) (lh_block s1)) s1
       in bindR (bwrite b s2) (\<lambda>s3. brelse b s3))"

definition recover_from_log :: "'a logst_scheme \<Rightarrow> 'a logst_scheme res" where
  "recover_from_log s =
     bindR (read_head s) (\<lambda>s1.
     bindR (install_trans True s1) (\<lambda>s2. write_head (s2\<lparr>lh_n := 0\<rparr>)))"

text \<open>\<^verbatim>\<open>sizeof(struct logheader)\<close> is 124, so the first test of \<^verbatim>\<open>initlog()\<close> never fails.\<close>

definition initlog :: "u32 \<Rightarrow> superblock \<Rightarrow> 'a logst_scheme \<Rightarrow> 'a logst_scheme res" where
  "initlog dev sb s =
     (if BSIZE \<le> 4 + 4 * LOGBLOCKS then Inl (Panic ''initlog: too big logheader'')
      else recover_from_log (s\<lparr>log_start := sb_logstart sb, log_dev := dev\<rparr>))"

definition begin_op :: "'a logst_scheme \<Rightarrow> 'a logst_scheme res" where
  "begin_op s =
     (if log_committing s then Inl (Sleep LogChan)
      else if int LOGBLOCKS < lh_n s + (log_outstanding s + 1) * int MAXOPBLOCKS then Inl (Sleep LogChan)
      else Inr (s\<lparr>log_outstanding := log_outstanding s + 1\<rparr>))"

definition write_log_block :: "nat \<Rightarrow> 'a logst_scheme \<Rightarrow> 'a logst_scheme res" where
  "write_log_block tail s =
     bindR (bread (log_dev s) (log_start s + of_nat tail + 1) s) (\<lambda>(to, s1).
     bindR (bread (log_dev s1) (lh_block s1 ! tail) s1) (\<lambda>(from, s2).
     let s3 = set_data to (\<lambda>_. data_of from s2) s2
     in bindR (bwrite to s3) (\<lambda>s4.
        bindR (brelse from s4) (\<lambda>s5. brelse to s5))))"

definition write_log :: "'a logst_scheme \<Rightarrow> 'a logst_scheme res" where
  "write_log s = foldR write_log_block [0..<nat (lh_n s)] s"

definition commit :: "'a logst_scheme \<Rightarrow> 'a logst_scheme res" where
  "commit s =
     (if 0 < lh_n s then
        bindR (write_log s) (\<lambda>s1.
        bindR (write_head s1) (\<lambda>s2.
        bindR (install_trans False s2) (\<lambda>s3. write_head (s3\<lparr>lh_n := 0\<rparr>))))
      else Inr s)"

definition end_op :: "'a logst_scheme \<Rightarrow> 'a logst_scheme res" where
  "end_op s =
     (let s1 = s\<lparr>log_outstanding := log_outstanding s - 1\<rparr>
      in if log_committing s1 then Inl (Panic ''log.committing'')
         else if log_outstanding s1 = 0
         then bindR (commit (s1\<lparr>log_committing := True\<rparr>)) (\<lambda>s2.
                Inr (s2\<lparr>log_committing := False, woken := LogChan # woken s2\<rparr>))
         else Inr (s1\<lparr>woken := LogChan # woken s1\<rparr>))"

definition log_write :: "nat \<Rightarrow> 'a logst_scheme \<Rightarrow> 'a logst_scheme res" where
  "log_write b s =
     (if int LOGBLOCKS \<le> lh_n s then Inl (Panic ''too big a transaction'')
      else if log_outstanding s < 1 then Inl (Panic ''log_write outside of trans'')
      else let n = nat (lh_n s); no = b_blockno (bufs s ! b);
               i = (case first_idx (\<lambda>x. x = no) (take n (lh_block s)) of Some i \<Rightarrow> i | None \<Rightarrow> n);
               s1 = s\<lparr>lh_block := (lh_block s)[i := no]\<rparr>
           in Inr (if i = n then (bpin b s1)\<lparr>lh_n := lh_n s1 + 1\<rparr> else s1))"

end
