(* ===== verification/LogInv.thy ===== *)
theory LogInv
  imports Log
begin

text \<open>
  What the log promises: a transaction reaches the file system's blocks as a whole or not at all,
  whenever the machine stops.
\<close>

section \<open>Steps of the log on the cache\<close>

text \<open>What is left of a state when the cache and the disk are disregarded.\<close>

definition core :: "'a bio_scheme \<Rightarrow> 'a bio_scheme" where
  "core s = s\<lparr>bufs := [], woken := [], disk := \<lambda>_. [], dwrites := []\<rparr>"

lemma core_upd [simp]:
  "core (s\<lparr>bufs := bs\<rparr>) = core s" "core (s\<lparr>woken := w\<rparr>) = core s" "core (s\<lparr>disk := d\<rparr>) = core s"
  "core (s\<lparr>dwrites := ws\<rparr>) = core s"
  by (simp_all add: core_def)

lemma core_ops [simp]: "core (set_data b f s) = core s" "core (bpin b s) = core s" "core (bunpin b s) = core s"
  by (simp_all add: set_data_def bpin_def bunpin_def core_def)

lemma core_eqD:
  assumes "core (s' :: 'a logst_scheme) = core s"
  shows "log_start s' = log_start s" "log_dev s' = log_dev s" "lh_n s' = lh_n s" "lh_block s' = lh_block s"
    "log_outstanding s' = log_outstanding s" "log_committing s' = log_committing s" "curpid s' = curpid s"
  using arg_cong [OF assms, of log_start] arg_cong [OF assms, of log_dev] arg_cong [OF assms, of lh_n]
    arg_cong [OF assms, of lh_block] arg_cong [OF assms, of log_outstanding]
    arg_cong [OF assms, of log_committing] arg_cong [OF assms, of curpid]
  by (simp_all add: core_def)

text \<open>A step that stores \<open>v\<close> into block \<open>n\<close>, in the cache and on the disk, and ends with no buffer held.\<close>

definition stores :: "u32 \<Rightarrow> u8 list \<Rightarrow> u32 set \<Rightarrow> 'a bio_scheme \<Rightarrow> 'a bio_scheme \<Rightarrow> bool" where
  "stores n v P s s' \<longleftrightarrow>
     bstate s' {} P \<and> view s' = (view s)(n := v) \<and> disk s' = (disk s)(n := v) \<and>
     dwrites s' = dwrites s @ [(n, v)] \<and> core s' = core s"

lemma write_block_stores:
  assumes ok: "bstate s {} P" and c: "n \<in> P \<or> card P < NBUF" and f: "\<And>d. length d = BSIZE \<Longrightarrow> length (f d) = BSIZE"
  obtains b s1 s2 s3 s4 where "bread ROOTDEV n s = Inr (b, s1)" "core s1 = core s" "s2 = set_data b f s1"
    "bwrite b s2 = Inr s3" "brelse b s3 = Inr s4" "stores n (f (view s n)) P s s4"
proof (rule bread_ok [OF ok])
  show "n \<in> P \<or> card P + card {} < NBUF" using c by simp
  fix b bs assume rd: "bread ROOTDEV n s = Inr (b, s\<lparr>bufs := bs\<rparr>)"
    and b: "b < NBUF" "bstate (s\<lparr>bufs := bs\<rparr>) {b} P" "holds n (bs ! b)" "b_data (bs ! b) = view s n"
    and v: "view (s\<lparr>bufs := bs\<rparr>) = view s"
  let ?s1 = "s\<lparr>bufs := bs\<rparr>" and ?v = "f (view s n)"
  let ?s2 = "set_data b f ?s1"
  have hb: "holds n (bufs ?s1 ! b)" using b(3) by simp
  have lf: "length (f (data_of b ?s1)) = BSIZE" using b(4) f length_view [OF ok] by simp
  note sd = set_data_ok [OF b(2) singletonI hb, of f, OF lf]
  have hb2: "holds n (bufs ?s2 ! b)" using sd(3) b(3) by (simp add: holds_def)
  note bw = bwrite_ok [OF sd(1) singletonI hb2]
  let ?s3 = "?s2\<lparr>disk := (disk ?s2)(n := view ?s2 n), dwrites := dwrites ?s2 @ [(n, view ?s2 n)]\<rparr>"
  have v2: "view ?s2 = (view s)(n := ?v)" using sd(2) v by simp
  have hb3: "holds n (bufs ?s3 ! b)" using hb2 by simp
  show thesis
  proof (rule brelse_ok [OF bw(2) singletonI hb3])
    show "n \<in> P \<or> view ?s3 n = disk ?s3 n" using bw(3) by simp
    fix bs' assume rl: "brelse b ?s3 = Inr (?s3\<lparr>woken := BufLockChan b # woken ?s3, bufs := bs'\<rparr>)"
      and ok4: "bstate (?s3\<lparr>woken := BufLockChan b # woken ?s3, bufs := bs'\<rparr>) ({b} - {b}) P"
      and v4: "view (?s3\<lparr>woken := BufLockChan b # woken ?s3, bufs := bs'\<rparr>) = view ?s3"
    have st: "stores n ?v P s (?s3\<lparr>woken := BufLockChan b # woken ?s3, bufs := bs'\<rparr>)"
      unfolding stores_def using ok4 v4 bw(3) v2 by (simp add: set_data_def)
    show thesis by (rule that [OF rd _ refl bw(1) rl st]) simp
  qed
qed simp

lemma length_put_head [simp]: "length (put_head n bl d) = length d"
proof -
  have "length (fold (\<lambda>i d. put32 d (4 + 4 * i) (bl ! i)) is d) = length d" for "is" d
    by (induction "is" arbitrary: d) simp_all
  then show ?thesis by (simp add: put_head_def)
qed

lemma write_head_ok:
  assumes ok: "bstate s {} P" and c: "card P < NBUF" and dev: "log_dev s = ROOTDEV"
  obtains s' where "write_head s = Inr s'"
    "stores (log_start s) (put_head (lh_n s) (lh_block s) (view s (log_start s))) P s s'"
proof (rule write_block_stores [OF ok disjI2 [OF c], of "put_head (lh_n s) (lh_block s)" "log_start s"])
  fix b s1 s2 s3 s4 assume a: "bread ROOTDEV (log_start s) s = Inr (b, s1)" "core s1 = core s"
    "s2 = set_data b (put_head (lh_n s) (lh_block s)) s1" "bwrite b s2 = Inr s3" "brelse b s3 = Inr s4"
    "stores (log_start s) (put_head (lh_n s) (lh_block s) (view s (log_start s))) P s s4"
  show thesis
    by (rule that [OF _ a(6)]) (use a core_eqD [OF a(2)] dev in \<open>simp add: write_head_def Let_def\<close>)
qed simp

text \<open>Copying block \<open>m\<close> to block \<open>n\<close> through two buffers, as \<^verbatim>\<open>write_log()\<close> does.\<close>

lemma write_log_block_ok:
  assumes ok: "bstate s {} P" and dev: "log_dev s = ROOTDEV"
    and n: "n = log_start s + of_nat t + 1" "n \<notin> P" and m: "m = lh_block s ! t" "m \<in> P" and c: "card P < NBUF"
  obtains s' where "write_log_block t s = Inr s'" "stores n (view s m) P s s'"
proof (rule bread_ok [OF ok])
  show "n \<in> P \<or> card P + card {} < NBUF" using c by simp
  fix a bs assume ra: "bread ROOTDEV n s = Inr (a, s\<lparr>bufs := bs\<rparr>)" and aN: "a < NBUF"
    and ok1: "bstate (s\<lparr>bufs := bs\<rparr>) {a} P" and ha: "holds n (bs ! a)"
    and v1: "view (s\<lparr>bufs := bs\<rparr>) = view s"
  let ?s1 = "s\<lparr>bufs := bs\<rparr>"
  have nm: "n \<noteq> m" using n(2) m(2) by auto
  show thesis
  proof (rule bread_ok [OF ok1, of m])
    show "m \<in> P \<or> card P + card {a} < NBUF" using m(2) by simp
    show "\<not> holds m (bufs ?s1 ! i)" if "i \<in> {a}" for i using that ha nm by (auto simp: holds_def)
    fix b cs assume rb: "bread ROOTDEV m ?s1 = Inr (b, ?s1\<lparr>bufs := cs\<rparr>)" and bN: "b < NBUF" and ba: "b \<notin> {a}"
      and ok2: "bstate (?s1\<lparr>bufs := cs\<rparr>) (insert b {a}) P" and hb: "holds m (cs ! b)" and db: "b_data (cs ! b) = view ?s1 m"
      and v2: "view (?s1\<lparr>bufs := cs\<rparr>) = view ?s1" and ka: "\<And>i. i \<in> {a} \<Longrightarrow> cs ! i = bufs ?s1 ! i"
    let ?s2 = "?s1\<lparr>bufs := cs\<rparr>"
    let ?s3 = "set_data a (\<lambda>_. data_of b ?s2) ?s2"
    have ha2: "holds n (bufs ?s2 ! a)" using ka [of a] ha by simp
    have d: "data_of b ?s2 = view s m" using db v1 by simp
    have len: "length (data_of b ?s2) = BSIZE" using d length_view [OF ok] by simp
    note sd = set_data_ok [OF ok2 _ ha2, of "\<lambda>_. data_of b ?s2", OF _ len]
    have ok3: "bstate ?s3 {b, a} P" using sd(1) by simp
    have v3: "view ?s3 = (view s)(n := view s m)" using sd(2) v2 v1 d by simp
    have ha3: "holds n (bufs ?s3 ! a)" using sd(3) ha2 by (simp add: holds_def)
    have hb3: "holds m (bufs ?s3 ! b)" using sd(4) [of b] ba hb by simp
    note bw = bwrite_ok [OF ok3 insertI2 [OF singletonI] ha3]
    let ?s4 = "?s3\<lparr>disk := (disk ?s3)(n := view ?s3 n), dwrites := dwrites ?s3 @ [(n, view ?s3 n)]\<rparr>"
    have hb4: "holds m (bufs ?s4 ! b)" using hb3 by simp
    show thesis
    proof (rule brelse_ok [OF bw(2) insertI1 hb4])
      show "m \<in> P \<or> view ?s4 m = disk ?s4 m" using m(2) by simp
      fix es assume r5: "brelse b ?s4 = Inr (?s4\<lparr>woken := BufLockChan b # woken ?s4, bufs := es\<rparr>)"
        and ok5: "bstate (?s4\<lparr>woken := BufLockChan b # woken ?s4, bufs := es\<rparr>) ({b, a} - {b}) P"
        and v5: "view (?s4\<lparr>woken := BufLockChan b # woken ?s4, bufs := es\<rparr>) = view ?s4"
        and h5: "\<And>i m. holds m (es ! i) = holds m (bufs ?s4 ! i)"
      let ?s5 = "?s4\<lparr>woken := BufLockChan b # woken ?s4, bufs := es\<rparr>"
      have ok5': "bstate ?s5 {a} P" using ok5 ba by (simp add: insert_Diff_if)
      have ha5: "holds n (bufs ?s5 ! a)" using h5 ha3 by simp
      show thesis
      proof (rule brelse_ok [OF ok5' singletonI ha5])
        show "n \<in> P \<or> view ?s5 n = disk ?s5 n" using v5 bw(3) by simp
        fix gs assume r6: "brelse a ?s5 = Inr (?s5\<lparr>woken := BufLockChan a # woken ?s5, bufs := gs\<rparr>)"
          and ok6: "bstate (?s5\<lparr>woken := BufLockChan a # woken ?s5, bufs := gs\<rparr>) ({a} - {a}) P"
          and v6: "view (?s5\<lparr>woken := BufLockChan a # woken ?s5, bufs := gs\<rparr>) = view ?s5"
        let ?s6 = "?s5\<lparr>woken := BufLockChan a # woken ?s5, bufs := gs\<rparr>"
        have r: "write_log_block t s = Inr ?s6"
          unfolding write_log_block_def using ra rb bw(1) r5 r6 dev n(1) m(1) by (simp add: Let_def add.assoc)
        have "stores n (view s m) P s ?s6"
          unfolding stores_def using ok6 v6 v5 bw(3) v3 by (simp add: set_data_def)
        then show thesis using that [OF r] by blast
      qed
    qed
  qed
qed simp

lemma view_disk:
  assumes "bstate s {} P" "n \<notin> P"
  shows "view s n = disk s n"
proof (cases "\<exists>i < NBUF. holds n (bufs s ! i)")
  case True
  then obtain i where i: "i < NBUF" "holds n (bufs s ! i)" by blast
  then have "b_data (bufs s ! i) = disk s n"
    using bstateD(4) [OF assms(1) i(1)] assms(2) by (auto simp: buf_ok_def holds_def)
  then show ?thesis using view_cached [OF assms(1) i] by simp
next
  case False
  then show ?thesis using view_uncached by blast
qed

lemma install_block_ok:
  assumes ok: "bstate s {} P" and dev: "log_dev s = ROOTDEV"
    and n: "n = log_start s + of_nat t + 1" "n \<notin> P" and m: "m = lh_block s ! t" "m \<noteq> n"
    and c: "card P < NBUF" and rec: "if recovering then card P + 1 < NBUF \<and> m \<notin> P \<and> P' = P else m \<in> P \<and> P' = P - {m}"
  obtains s' where "install_block recovering t s = Inr s'" "stores m (view s n) P' s s'"
proof (rule bread_ok [OF ok])
  show "n \<in> P \<or> card P + card {} < NBUF" using c by simp
  fix a bs assume ra: "bread ROOTDEV n s = Inr (a, s\<lparr>bufs := bs\<rparr>)" and aN: "a < NBUF"
    and ok1: "bstate (s\<lparr>bufs := bs\<rparr>) {a} P" and ha: "holds n (bs ! a)" and da: "b_data (bs ! a) = view s n"
    and v1: "view (s\<lparr>bufs := bs\<rparr>) = view s"
  let ?s1 = "s\<lparr>bufs := bs\<rparr>"
  show thesis
  proof (rule bread_ok [OF ok1, of m])
    show "m \<in> P \<or> card P + card {a} < NBUF" using rec by (auto split: if_splits)
    show "\<not> holds m (bufs ?s1 ! i)" if "i \<in> {a}" for i using that ha m(2) by (auto simp: holds_def)
    fix b cs assume rb: "bread ROOTDEV m ?s1 = Inr (b, ?s1\<lparr>bufs := cs\<rparr>)" and bN: "b < NBUF" and ba: "b \<notin> {a}"
      and ok2: "bstate (?s1\<lparr>bufs := cs\<rparr>) (insert b {a}) P" and hb: "holds m (cs ! b)"
      and v2: "view (?s1\<lparr>bufs := cs\<rparr>) = view ?s1" and ka: "\<And>i. i \<in> {a} \<Longrightarrow> cs ! i = bufs ?s1 ! i"
    let ?s2 = "?s1\<lparr>bufs := cs\<rparr>"
    let ?s3 = "set_data b (\<lambda>_. data_of a ?s2) ?s2"
    have ha2: "holds n (bufs ?s2 ! a)" using ka [of a] ha by simp
    have hb2: "holds m (bufs ?s2 ! b)" using hb by simp
    have d: "data_of a ?s2 = view s n" using da ka [of a] by simp
    have len: "length (data_of a ?s2) = BSIZE" using d length_view [OF ok] by simp
    note sd = set_data_ok [OF ok2 insertI1 hb2, of "\<lambda>_. data_of a ?s2", OF len]
    have ok3: "bstate ?s3 {b, a} P" using sd(1) by simp
    have v3: "view ?s3 = (view s)(m := view s n)" using sd(2) v2 v1 d by simp
    have hb3: "holds m (bufs ?s3 ! b)" using sd(3) hb2 by (simp add: holds_def)
    have ha3: "holds n (bufs ?s3 ! a)" using sd(4) [of a] ba ha2 by simp
    note bw = bwrite_ok [OF ok3 insertI1 hb3]
    let ?s4 = "?s3\<lparr>disk := (disk ?s3)(m := view ?s3 m), dwrites := dwrites ?s3 @ [(m, view ?s3 m)]\<rparr>"
    let ?s5 = "if \<not> recovering then bunpin b ?s4 else ?s4"
    have hb4: "holds m (bufs ?s4 ! b)" "holds n (bufs ?s4 ! a)" using hb3 ha3 by simp_all
    have ok5: "bstate ?s5 {b, a} P'" and v5: "view ?s5 = view ?s3"
      and h5: "holds k (bufs ?s5 ! i) = holds k (bufs ?s4 ! i)" for k i
      using rec bw(2,3) bunpin_ok [OF bw(2) insertI1 hb4(1)] by (auto simp: holds_def split: if_splits)
    have hn5: "holds n (bufs ?s5 ! a)" using h5 hb4(2) by blast
    show thesis
    proof (rule brelse_ok [OF ok5 insertI2 [OF singletonI] hn5])
      have "view s n = disk s n" by (rule view_disk [OF ok n(2)])
      then show "n \<in> P' \<or> view ?s5 n = disk ?s5 n" using v5 v3 m(2) by (simp add: set_data_def bunpin_def)
      fix es assume r6: "brelse a ?s5 = Inr (?s5\<lparr>woken := BufLockChan a # woken ?s5, bufs := es\<rparr>)"
        and ok6: "bstate (?s5\<lparr>woken := BufLockChan a # woken ?s5, bufs := es\<rparr>) ({b, a} - {a}) P'"
        and v6: "view (?s5\<lparr>woken := BufLockChan a # woken ?s5, bufs := es\<rparr>) = view ?s5"
        and h6: "\<And>i m. holds m (es ! i) = holds m (bufs ?s5 ! i)"
      let ?s6 = "?s5\<lparr>woken := BufLockChan a # woken ?s5, bufs := es\<rparr>"
      have ok6': "bstate ?s6 {b} P'" using ok6 ba by (simp add: insert_Diff_if)
      have hb6: "holds m (bufs ?s6 ! b)" using h6 h5 hb4(1) by simp
      show thesis
      proof (rule brelse_ok [OF ok6' singletonI hb6])
        show "m \<in> P' \<or> view ?s6 m = disk ?s6 m" using v6 v5 by (simp add: bunpin_def)
        fix gs assume r7: "brelse b ?s6 = Inr (?s6\<lparr>woken := BufLockChan b # woken ?s6, bufs := gs\<rparr>)"
          and ok7: "bstate (?s6\<lparr>woken := BufLockChan b # woken ?s6, bufs := gs\<rparr>) ({b} - {b}) P'"
          and v7: "view (?s6\<lparr>woken := BufLockChan b # woken ?s6, bufs := gs\<rparr>) = view ?s6"
        let ?s7 = "?s6\<lparr>woken := BufLockChan b # woken ?s6, bufs := gs\<rparr>"
        have r: "install_block recovering t s = Inr ?s7"
          unfolding install_block_def using ra rb bw(1) r6 r7 dev n(1) m(1)
          by (cases recovering) (simp_all add: Let_def add.assoc)
        have "stores m (view s n) P' s ?s7"
          unfolding stores_def using ok7 v7 v6 v5 v3 by (simp add: set_data_def bunpin_def)
        then show thesis using that [OF r] by blast
      qed
    qed
  qed
qed simp

section \<open>Sequences of block writes\<close>

definition apply_writes :: "(u32 \<times> u8 list) list \<Rightarrow> (u32 \<Rightarrow> u8 list) \<Rightarrow> u32 \<Rightarrow> u8 list" where
  "apply_writes ws f = fold (\<lambda>(n, v) f. f(n := v)) ws f"

lemma apply_writes_simps [simp]:
  "apply_writes [] f = f" "apply_writes (ws @ us) f = apply_writes us (apply_writes ws f)"
  "apply_writes ((n, v) # ws) f = apply_writes ws (f(n := v))"
  by (simp_all add: apply_writes_def)

lemma apply_writes_other: "m \<notin> fst ` set ws \<Longrightarrow> apply_writes ws f m = f m"
  by (induction ws arbitrary: f) (auto simp: apply_writes_def)

lemma apply_writes_in:
  assumes "distinct (map fst ws)" "(n, v) \<in> set ws"
  shows "apply_writes ws f n = v"
  using assms
proof (induction ws arbitrary: f)
  case (Cons w ws)
  show ?case
  proof (cases "w = (n, v)")
    case True
    then have "n \<notin> fst ` set ws" using Cons.prems(1) by auto
    then show ?thesis using True apply_writes_other [of n ws "f(n := v)"] by (simp add: apply_writes_def)
  next
    case False
    then show ?thesis using Cons by (simp add: apply_writes_def split_beta)
  qed
qed simp

definition stores_many :: "(u32 \<times> u8 list) list \<Rightarrow> u32 set \<Rightarrow> 'a bio_scheme \<Rightarrow> 'a bio_scheme \<Rightarrow> bool" where
  "stores_many ws P s s' \<longleftrightarrow>
     bstate s' {} P \<and> view s' = apply_writes ws (view s) \<and> disk s' = apply_writes ws (disk s) \<and>
     dwrites s' = dwrites s @ ws \<and> core s' = core s"

lemma stores_many_Nil: "bstate s {} P \<Longrightarrow> stores_many [] P s s"
  by (simp add: stores_many_def)

lemma stores_many_snoc: "stores_many ws P s s1 \<Longrightarrow> stores n v P' s1 s2 \<Longrightarrow> stores_many (ws @ [(n, v)]) P' s s2"
  by (simp add: stores_many_def stores_def)

lemma stores_manyD:
  assumes "stores_many ws P s s'"
  shows "bstate s' {} P" "view s' = apply_writes ws (view s)" "disk s' = apply_writes ws (disk s)"
    "dwrites s' = dwrites s @ ws" "core s' = core s"
  using assms by (auto simp: stores_many_def)

section \<open>The blocks of the log\<close>

definition log_blk :: "'a logst_scheme \<Rightarrow> nat \<Rightarrow> u32" where
  "log_blk s t = log_start s + of_nat t + 1"

text \<open>The header block and the \<^verbatim>\<open>LOGBLOCKS\<close> blocks after it.\<close>

definition log_area :: "'a logst_scheme \<Rightarrow> u32 set" where
  "log_area s = insert (log_start s) (log_blk s ` {..<LOGBLOCKS})"

lemma of_nat_eq_small: "i < 2 ^ 32 \<Longrightarrow> j < 2 ^ 32 \<Longrightarrow> (of_nat i :: u32) = of_nat j \<longleftrightarrow> i = j"
  by (simp add: word_unat_eq_iff unat_of_nat)

lemma log_blk_inj: "i < LOGBLOCKS \<Longrightarrow> j < LOGBLOCKS \<Longrightarrow> log_blk s i = log_blk s j \<longleftrightarrow> i = j"
  using of_nat_eq_small [of i j] by (simp add: log_blk_def)

lemma log_blk_start: "i < LOGBLOCKS \<Longrightarrow> log_blk s i \<noteq> log_start s"
proof
  assume i: "i < LOGBLOCKS" and "log_blk s i = log_start s"
  then have "(of_nat (Suc i) :: u32) = of_nat 0" by (simp add: log_blk_def add.commute)
  then show False using of_nat_eq_small [of "Suc i" 0] i by simp
qed

lemma log_blk_area: "t < LOGBLOCKS \<Longrightarrow> log_blk s t \<in> log_area s"
  by (simp add: log_area_def)

lemma log_blk_core: "core s' = core s \<Longrightarrow> log_blk s' t = log_blk s t" "core s' = core s \<Longrightarrow> log_area s' = log_area s"
  using core_eqD(1) [of s' s] by (simp_all add: log_blk_def log_area_def)

section \<open>The loops of the log\<close>

text \<open>A transaction \<open>bl\<close> in memory.\<close>

definition trans :: "u32 list \<Rightarrow> 'a logst_scheme \<Rightarrow> bool" where
  "trans bl s \<longleftrightarrow> lh_n s = int (length bl) \<and> take (length bl) (lh_block s) = bl \<and> log_dev s = ROOTDEV \<and>
     length bl \<le> LOGBLOCKS \<and> length (lh_block s) = LOGBLOCKS \<and> distinct bl \<and> set bl \<inter> log_area s = {}"

lemma trans_core: "core s' = core s \<Longrightarrow> trans bl s' \<longleftrightarrow> trans bl s"
  using core_eqD [of s' s] log_blk_core [of s' s] by (simp add: trans_def)

lemma transD:
  assumes "trans bl s"
  shows "nat (lh_n s) = length bl" "log_dev s = ROOTDEV" "length bl \<le> LOGBLOCKS" "distinct bl"
    "t < length bl \<Longrightarrow> lh_block s ! t = bl ! t" "t < length bl \<Longrightarrow> bl ! t \<notin> log_area s"
  using assms nth_take [of t "length bl" "lh_block s"] by (auto simp: trans_def dest: nth_mem)

lemma write_log_ok:
  assumes ok: "bstate s {} (set bl)" and tr: "trans bl s" and c: "length bl < NBUF"
  obtains s' where "write_log s = Inr s'" "stores_many (map (\<lambda>t. (log_blk s t, view s (bl ! t))) [0..<length bl]) (set bl) s s'"
proof -
  note T = transD [OF tr]
  let ?ws = "\<lambda>k. map (\<lambda>t. (log_blk s t, view s (bl ! t))) [0..<k]"
  have card: "card (set bl) < NBUF" using c card_length [of bl] by linarith
  have "\<exists>s'. foldR write_log_block [0..<length bl] s = Inr s' \<and> stores_many (?ws (length [0..<length bl])) (set bl) s s'"
  proof (rule foldR_invariant [where I = "\<lambda>k. stores_many (?ws k) (set bl) s"])
    show "stores_many (?ws 0) (set bl) s s" using stores_many_Nil [OF ok] by simp
    fix k s1 assume "k < length [0..<length bl]" and I: "stores_many (?ws k) (set bl) s s1"
    then have k: "k < length bl" "k < LOGBLOCKS" using T(3) by auto
    note S = stores_manyD [OF I]
    have tr1: "trans bl s1" using tr trans_core [OF S(5)] by simp
    have "log_blk s k \<notin> set bl" using tr log_blk_area [OF k(2), of s] by (auto simp: trans_def)
    moreover have "view s1 (bl ! k) = view s (bl ! k)"
      unfolding S(2) using T(6) [OF k(1)] log_blk_area [of _ s] T(3) k(1)
      by (intro apply_writes_other) force
    moreover note write_log_block_ok [OF S(1) transD(2) [OF tr1] _ _ _ _ card, of "log_blk s k" k "bl ! k"]
    ultimately obtain s2 where "write_log_block k s1 = Inr s2" "stores (log_blk s k) (view s (bl ! k)) (set bl) s1 s2"
      using transD(5) [OF tr1 k(1)] log_blk_core(1) [OF S(5), of k] k(1) by (metis log_blk_def nth_mem)
    then show "\<exists>s'. write_log_block ([0..<length bl] ! k) s1 = Inr s' \<and> stores_many (?ws (Suc k)) (set bl) s s'"
      using stores_many_snoc [OF I] k(1) by auto
  qed
  then show thesis using that T(1) by (auto simp: write_log_def)
qed

text \<open>Installing: the pinned blocks are released as they are written, a recovery has none.\<close>

lemma install_trans_ok:
  assumes ok: "bstate s {} (if recovering then {} else set bl)" and tr: "trans bl s" and c: "length bl < NBUF \<or> recovering"
  obtains s' where "install_trans recovering s = Inr s'"
    "stores_many (map (\<lambda>t. (bl ! t, view s (log_blk s t))) [0..<length bl]) {} s s'"
proof -
  note T = transD [OF tr]
  let ?ws = "\<lambda>k. map (\<lambda>t. (bl ! t, view s (log_blk s t))) [0..<k]"
  let ?P = "\<lambda>k. if recovering then {} else set (drop k bl)"
  have "\<exists>s'. foldR (install_block recovering) [0..<length bl] s = Inr s' \<and>
      stores_many (?ws (length [0..<length bl])) (?P (length [0..<length bl])) s s'"
  proof (rule foldR_invariant [where I = "\<lambda>k. stores_many (?ws k) (?P k) s"])
    show "stores_many (?ws 0) (?P 0) s s" using stores_many_Nil [OF ok] by (cases recovering) simp_all
    fix k s1 assume "k < length [0..<length bl]" and I: "stores_many (?ws k) (?P k) s s1"
    then have k: "k < length bl" "k < LOGBLOCKS" using T(3) by auto
    note S = stores_manyD [OF I]
    have tr1: "trans bl s1" using tr trans_core [OF S(5)] by simp
    have nb: "log_blk s k \<notin> set bl" using tr log_blk_area [OF k(2), of s] by (auto simp: trans_def)
    then have nP: "log_blk s k \<notin> ?P k" by (auto dest: in_set_dropD)
    have card: "card (?P k) < NBUF" using c card_length [of "drop k bl"] by auto
    have dr: "drop k bl = bl ! k # drop (Suc k) bl" by (rule Cons_nth_drop_Suc [OF k(1), symmetric])
    have notin: "bl ! k \<notin> set (drop (Suc k) bl)" using T(4) dr by (metis distinct.simps(2) distinct_drop)
    have rec: "if recovering then card (?P k) + 1 < NBUF \<and> bl ! k \<notin> ?P k \<and> ?P (Suc k) = ?P k
        else bl ! k \<in> ?P k \<and> ?P (Suc k) = ?P k - {bl ! k}"
      using dr notin by auto
    have vw: "view s1 (log_blk s k) = view s (log_blk s k)"
      unfolding S(2) using nb k(1) by (intro apply_writes_other) force
    have ne: "bl ! k \<noteq> log_blk s k" using nb nth_mem [OF k(1)] by metis
    obtain s2 where "install_block recovering k s1 = Inr s2" "stores (bl ! k) (view s (log_blk s k)) (?P (Suc k)) s1 s2"
    proof (rule install_block_ok [OF S(1) transD(2) [OF tr1] _ nP _ ne card rec])
      show "log_blk s k = log_start s1 + of_nat k + 1"
        using log_blk_core(1) [OF S(5), of k] by (simp add: log_blk_def)
      show "bl ! k = lh_block s1 ! k" using transD(5) [OF tr1 k(1)] by simp
    qed (simp add: vw)
    then show "\<exists>s'. install_block recovering ([0..<length bl] ! k) s1 = Inr s' \<and> stores_many (?ws (Suc k)) (?P (Suc k)) s s'"
      using stores_many_snoc [OF I] k(1) by auto
  qed
  then obtain s' where s': "foldR (install_block recovering) [0..<length bl] s = Inr s'"
    "stores_many (?ws (length [0..<length bl])) (?P (length [0..<length bl])) s s'" by blast
  have e: "length [0..<length bl] = length bl" "?P (length bl) = {}" by simp_all
  show thesis
  proof (rule that)
    show "install_trans recovering s = Inr s'" using s'(1) T(1) by (simp add: install_trans_def)
    show "stores_many (?ws (length bl)) {} s s'" using s'(2) unfolding e(1) unfolding e(2) .
  qed
qed

section \<open>The header block\<close>

definition head_n :: "u8 list \<Rightarrow> int" where
  "head_n d = sint (get32 d 0)"

definition head_blocks :: "u8 list \<Rightarrow> u32 list" where
  "head_blocks d = map (\<lambda>i. get32 d (4 + 4 * i)) [0..<nat (head_n d)]"

lemma put_blocks_get:
  assumes "4 + 4 * n \<le> length d"
  shows "get32 (fold (\<lambda>i d. put32 d (4 + 4 * i) (bl ! i)) [0..<n] d) 0 = get32 d 0"
    "i < n \<Longrightarrow> get32 (fold (\<lambda>i d. put32 d (4 + 4 * i) (bl ! i)) [0..<n] d) (4 + 4 * i) = bl ! i"
  using assms
proof (induction n)
  case (Suc n)
  have len: "length (fold (\<lambda>i d. put32 d (4 + 4 * i) (bl ! i)) [0..<n] d) = length d" for n d
    by (induction n) simp_all
  { case 1
    then show ?case using Suc.IH(1) by (simp add: get_put_le_other len)
  next
    case 2
    then show ?case using Suc.IH(2) by (cases "i = n") (simp_all add: get_put_le_other len)
  }
qed simp_all

lemma head_put_head:
  assumes "length d = BSIZE" "n \<le> LOGBLOCKS" "n \<le> length bl"
  shows "head_n (put_head (int n) bl d) = int n" "head_blocks (put_head (int n) bl d) = take n bl"
proof -
  have l: "4 + 4 * n \<le> length (put32 d 0 (word_of_int (int n)))" using assms by simp
  have s: "sint (word_of_int (int n) :: u32) = int n"
    using assms(2) by (simp add: sint_of_nat_small)
  show n: "head_n (put_head (int n) bl d) = int n"
    using put_blocks_get(1) [OF l, of bl] assms(1) s by (simp add: head_n_def put_head_def)
  show "head_blocks (put_head (int n) bl d) = take n bl"
    unfolding head_blocks_def n
    by (rule nth_equalityI) (use put_blocks_get(2) [OF l, of _ bl] assms(3) in \<open>auto simp: put_head_def\<close>)
qed

section \<open>Commit and recovery\<close>

text \<open>The writes of a commit, in order.\<close>

definition commit_writes :: "u32 list \<Rightarrow> 'a logst_scheme \<Rightarrow> (u32 \<times> u8 list) list" where
  "commit_writes bl s =
     (let H = put_head (lh_n s) (lh_block s) (view s (log_start s))
      in map (\<lambda>t. (log_blk s t, view s (bl ! t))) [0..<length bl] @ [(log_start s, H)] @
         map (\<lambda>t. (bl ! t, view s (bl ! t))) [0..<length bl] @ [(log_start s, put_head 0 (lh_block s) H)])"

lemma stores_many_trans:
  "stores_many ws P s s1 \<Longrightarrow> stores_many us P' s1 s2 \<Longrightarrow> stores_many (ws @ us) P' s s2"
  by (simp add: stores_many_def)

lemma stores_one: "stores n v P s s' \<Longrightarrow> stores_many [(n, v)] P s s'"
  by (simp add: stores_many_def stores_def)

lemma log_fields_view [simp]:
  "view (s\<lparr>lh_n := k\<rparr>) = view s" "bstate (s\<lparr>lh_n := k\<rparr>) H P \<longleftrightarrow> bstate s H P"
  by (auto simp: view_def bstate_def fun_eq_iff split: option.split)

lemma core_lh_n: "core (s\<lparr>lh_n := k\<rparr>) = (core s)\<lparr>lh_n := k\<rparr>"
  by (cases s) (simp add: core_def)

lemma stores_many_lh_n: "stores_many ws P (s\<lparr>lh_n := k\<rparr>) s' \<Longrightarrow> bstate s' {} P \<and> view s' = apply_writes ws (view s) \<and>
    disk s' = apply_writes ws (disk s) \<and> dwrites s' = dwrites s @ ws \<and> core s' = core (s\<lparr>lh_n := k\<rparr>)"
  by (simp add: stores_many_def)

lemma distinct_map_nth: "distinct bl \<Longrightarrow> distinct (map (\<lambda>t. bl ! t) [0..<length bl])"
  by (simp add: map_nth)

lemma log_blks_distinct:
  assumes "n \<le> LOGBLOCKS"
  shows "distinct (map (log_blk s) [0..<n])"
  using assms log_blk_inj [of _ _ s] by (auto simp: distinct_map inj_on_def)

lemma commit_ok:
  assumes ok: "bstate s {} (set bl)" and tr: "trans bl s" and c: "bl \<noteq> []" "length bl < NBUF"
  obtains s' where "commit s = Inr s'" "bstate s' {} {}" "dwrites s' = dwrites s @ commit_writes bl s"
    "disk s' = apply_writes (commit_writes bl s) (disk s)" "view s' = apply_writes (commit_writes bl s) (view s)"
    "core s' = core (s\<lparr>lh_n := 0\<rparr>)"
proof -
  note T = transD [OF tr]
  let ?W1 = "map (\<lambda>t. (log_blk s t, view s (bl ! t))) [0..<length bl]"
  let ?H = "put_head (lh_n s) (lh_block s) (view s (log_start s))"
  let ?W3 = "map (\<lambda>t. (bl ! t, view s (bl ! t))) [0..<length bl]"
  obtain s1 where s1: "write_log s = Inr s1" "stores_many ?W1 (set bl) s s1" by (rule write_log_ok [OF ok tr c(2)])
  note S1 = stores_manyD [OF s1(2)] and C1 = core_eqD [OF stores_manyD(5) [OF s1(2)]]
  have card: "card (set bl) < NBUF" using c(2) card_length [of bl] by linarith
  have h1: "view s1 (log_start s) = view s (log_start s)"
  proof -
    have "log_start s \<noteq> log_blk s t" if "t < length bl" for t using log_blk_start [of t s] T(3) that by simp
    then have "log_start s \<notin> fst ` set ?W1" by force
    then show ?thesis unfolding S1(2) by (rule apply_writes_other)
  qed
  obtain s2 where s2: "write_head s1 = Inr s2" "stores (log_start s) ?H (set bl) s1 s2"
    using write_head_ok [OF S1(1) card, of thesis] C1 T(2) h1 by simp
  have S12: "stores_many (?W1 @ [(log_start s, ?H)]) (set bl) s s2"
    by (rule stores_many_trans [OF s1(2) stores_one [OF s2(2)]])
  note S2 = stores_manyD [OF S12]
  have tr2: "trans bl s2" using tr trans_core [OF S2(5)] by simp
  have v2: "view s2 (log_blk s2 t) = view s (bl ! t)" if t: "t < length bl" for t
  proof -
    have "apply_writes ?W1 (view s) (log_blk s t) = view s (bl ! t)"
      by (rule apply_writes_in) (use t log_blks_distinct [OF T(3), of s] in \<open>auto simp: comp_def\<close>)
    moreover have "log_blk s t \<noteq> log_start s" by (rule log_blk_start) (use t T(3) in simp)
    ultimately show ?thesis using S2(2) log_blk_core(1) [OF S2(5)] by simp
  qed
  obtain s3 where s3: "install_trans False s2 = Inr s3"
    "stores_many (map (\<lambda>t. (bl ! t, view s2 (log_blk s2 t))) [0..<length bl]) {} s2 s3"
    using install_trans_ok [of s2 False bl thesis] S2(1) tr2 c(2) by auto
  have W3: "map (\<lambda>t. (bl ! t, view s2 (log_blk s2 t))) [0..<length bl] = ?W3" using v2 by simp
  have S13: "stores_many ((?W1 @ [(log_start s, ?H)]) @ ?W3) {} s s3"
    by (rule stores_many_trans [OF S12 s3(2) [unfolded W3]])
  note S3 = stores_manyD [OF S13] and C3 = core_eqD [OF stores_manyD(5) [OF S13]]
  have h3: "view s3 (log_start s) = ?H"
  proof -
    have "log_start s \<notin> set bl" using tr by (auto simp: trans_def log_area_def)
    then have "log_start s \<notin> fst ` set ?W3" using nth_mem by fastforce
    then show ?thesis unfolding S3(2) apply_writes_simps(2) by (subst apply_writes_other) simp_all
  qed
  obtain s4 where s4: "write_head (s3\<lparr>lh_n := 0\<rparr>) = Inr s4"
    "stores (log_start s) (put_head 0 (lh_block s) ?H) {} (s3\<lparr>lh_n := 0\<rparr>) s4"
    using write_head_ok [of "s3\<lparr>lh_n := 0\<rparr>" "{}" thesis] S3(1) C3 T(2) h3 by simp
  note S4 = stores_many_lh_n [OF stores_one [OF s4(2)]]
  have W: "commit_writes bl s = ((?W1 @ [(log_start s, ?H)]) @ ?W3) @ [(log_start s, put_head 0 (lh_block s) ?H)]"
    by (simp add: commit_writes_def Let_def)
  have co: "core (s3\<lparr>lh_n := 0\<rparr>) = core (s\<lparr>lh_n := 0\<rparr>)"
    using S3(5) by (simp add: core_lh_n)
  have n0: "0 < lh_n s" using tr c(1) by (simp add: trans_def)
  show thesis
  proof (rule that)
    show "commit s = Inr s4" using n0 s1(1) s2(1) s3(1) s4(1) by (simp add: commit_def)
    show "dwrites s4 = dwrites s @ commit_writes bl s" using S4 S3(4) unfolding W by simp
    show "disk s4 = apply_writes (commit_writes bl s) (disk s)" using S4 S3(3) unfolding W by simp
    show "view s4 = apply_writes (commit_writes bl s) (view s)" using S4 S3(2) unfolding W by simp
  qed (use S4 co in simp_all)
qed

lemma view_cong: "bufs s' = bufs s \<Longrightarrow> disk s' = disk s \<Longrightarrow> view s' = view s"
  by (simp add: view_def fun_eq_iff cong: option.case_cong)

lemma read_block_ok:
  fixes s :: "'a bio_scheme"
  assumes ok: "bstate s {} P" and c: "n \<in> P \<or> card P < NBUF"
  obtains b s1 where "bread ROOTDEV n s = Inr (b, s1)" "data_of b s1 = view s n" "core s1 = core s"
    "\<And>s2 :: 'a bio_scheme. bufs s2 = bufs s1 \<Longrightarrow> disk s2 = disk s1 \<Longrightarrow> curpid s2 = curpid s1 \<Longrightarrow> dwrites s2 = dwrites s1 \<Longrightarrow>
      \<exists>s3. brelse b s2 = Inr s3 \<and> bstate s3 {} P \<and> view s3 = view s \<and> disk s3 = disk s \<and> dwrites s3 = dwrites s \<and> core s3 = core s2"
proof (rule bread_ok [OF ok])
  show "n \<in> P \<or> card P + card {} < NBUF" using c by simp
  fix b bs assume rd: "bread ROOTDEV n s = Inr (b, s\<lparr>bufs := bs\<rparr>)" and b: "b < NBUF"
    and ok1: "bstate (s\<lparr>bufs := bs\<rparr>) {b} P" and hb: "holds n (bs ! b)" and db: "b_data (bs ! b) = view s n"
    and v: "view (s\<lparr>bufs := bs\<rparr>) = view s"
  show thesis
  proof (rule that [OF rd])
    fix s2 :: "'a bio_scheme"
    assume e: "bufs s2 = bufs (s\<lparr>bufs := bs\<rparr>)" "disk s2 = disk (s\<lparr>bufs := bs\<rparr>)" "curpid s2 = curpid (s\<lparr>bufs := bs\<rparr>)"
      "dwrites s2 = dwrites (s\<lparr>bufs := bs\<rparr>)"
    have ok2: "bstate s2 {b} P" using ok1 e by (simp add: bstate_def)
    have v2: "view s2 = view s" using view_cong [OF e(1,2)] v by simp
    have hb2: "holds n (bufs s2 ! b)" using hb e by simp
    have cl: "n \<in> P \<or> view s2 n = disk s2 n" using view_disk [OF ok] v2 e by auto
    show "\<exists>s3. brelse b s2 = Inr s3 \<and> bstate s3 {} P \<and> view s3 = view s \<and> disk s3 = disk s \<and> dwrites s3 = dwrites s \<and> core s3 = core s2"
    proof (rule brelse_ok [OF ok2 singletonI hb2 cl])
      fix es assume "brelse b s2 = Inr (s2\<lparr>woken := BufLockChan b # woken s2, bufs := es\<rparr>)"
        "bstate (s2\<lparr>woken := BufLockChan b # woken s2, bufs := es\<rparr>) ({b} - {b}) P"
        "view (s2\<lparr>woken := BufLockChan b # woken s2, bufs := es\<rparr>) = view s2"
      then show ?thesis using v2 e by (intro exI [of _ "s2\<lparr>woken := BufLockChan b # woken s2, bufs := es\<rparr>"]) simp
    qed
  qed (simp_all add: db)
qed simp

lemma recover_ok:
  fixes s :: "'a logst_scheme"
  assumes ok: "bstate s {} {}" and dev: "log_dev s = ROOTDEV" and lb: "length (lh_block s) = LOGBLOCKS"
    and bl: "bl = head_blocks (view s (log_start s))" "0 \<le> head_n (view s (log_start s))"
      "length bl \<le> LOGBLOCKS" "distinct bl" "set bl \<inter> log_area s = {}"
  obtains s' h where "recover_from_log s = Inr s'" "bstate s' {} {}"
    "disk s' = (apply_writes (map (\<lambda>t. (bl ! t, view s (log_blk s t))) [0..<length bl]) (disk s))(log_start s := h)"
    "head_n h = 0" "lh_n s' = 0"
proof (rule read_block_ok [OF ok, of "log_start s"])
  let ?d = "view s (log_start s)"
  fix b s1 assume rd: "bread ROOTDEV (log_start s) s = Inr (b, s1)" and d: "data_of b s1 = ?d" and c1: "core s1 = core s"
    and rl: "\<And>s2 :: 'a logst_scheme. bufs s2 = bufs s1 \<Longrightarrow> disk s2 = disk s1 \<Longrightarrow> curpid s2 = curpid s1 \<Longrightarrow> dwrites s2 = dwrites s1 \<Longrightarrow>
      \<exists>s3. brelse b s2 = Inr s3 \<and> bstate s3 {} {} \<and> view s3 = view s \<and> disk s3 = disk s \<and> dwrites s3 = dwrites s \<and> core s3 = core s2"
  note C1 = core_eqD [OF c1]
  have n: "head_n ?d = int (length bl)" using bl(1,2) by (simp add: head_blocks_def)
  let ?s2 = "s1\<lparr>lh_n := head_n ?d, lh_block := bl @ drop (length bl) (lh_block s1)\<rparr>"
  obtain s3 where s3: "brelse b ?s2 = Inr s3" "bstate s3 {} {}" "view s3 = view s" "disk s3 = disk s" "core s3 = core ?s2"
    using rl [of ?s2] by auto
  have rh: "read_head s = Inr s3"
    using rd d dev n bl(1,3) s3(1) by (simp add: read_head_def Let_def head_n_def [symmetric] head_blocks_def)
  note C3 = core_eqD [OF s3(5)]
  have la: "log_area s3 = log_area s" "log_blk s3 = log_blk s"
    using C3 C1 by (simp_all add: log_area_def log_blk_def fun_eq_iff)
  have tr: "trans bl s3" using C3 C1 dev n bl(3-5) la lb by (simp add: trans_def)
  obtain s4 where s4: "install_trans True s3 = Inr s4"
    "stores_many (map (\<lambda>t. (bl ! t, view s3 (log_blk s3 t))) [0..<length bl]) {} s3 s4"
    using install_trans_ok [of s3 True bl thesis] s3(2) tr by auto
  note S4 = stores_manyD [OF s4(2)] and C4 = core_eqD [OF stores_manyD(5) [OF s4(2)]]
  let ?h = "put_head 0 (lh_block s4) (view s4 (log_start s))"
  obtain s5 where s5: "write_head (s4\<lparr>lh_n := 0\<rparr>) = Inr s5" "stores (log_start s) ?h {} (s4\<lparr>lh_n := 0\<rparr>) s5"
    using write_head_ok [of "s4\<lparr>lh_n := 0\<rparr>" "{}" thesis] S4(1) C4 C3 C1 dev by simp
  show thesis
  proof (rule that)
    show "recover_from_log s = Inr s5" using rh s4(1) s5(1) by (simp add: recover_from_log_def)
    show "bstate s5 {} {}" using s5(2) by (simp add: stores_def)
    show "disk s5 = (apply_writes (map (\<lambda>t. (bl ! t, view s (log_blk s t))) [0..<length bl]) (disk s))(log_start s := ?h)"
      using s5(2) S4(3) s3(3,4) la(2) by (simp add: stores_def)
    show "head_n ?h = 0" using head_put_head(1) [of "view s4 (log_start s)" 0] length_view [OF S4(1)] by simp
    have "core s5 = core (s4\<lparr>lh_n := 0\<rparr>)" using s5(2) by (simp add: stores_def)
    from core_eqD(3) [OF this] show "lh_n s5 = 0" by simp
  qed
qed simp

section \<open>Crashes\<close>

text \<open>A recovery that finds an empty log, and one that finds the transaction.\<close>

lemma recover_empty:
  assumes ok: "bstate r {} {}" and dev: "log_dev r = ROOTDEV" "length (lh_block r) = LOGBLOCKS"
    and h: "head_n (disk r (log_start r)) = 0"
  obtains r' h where "recover_from_log r = Inr r'" "bstate r' {} {}" "disk r' = (disk r)(log_start r := h)" "head_n h = 0" "lh_n r' = 0"
proof -
  have v: "view r = disk r" using view_disk [OF ok] by auto
  show thesis
    by (rule recover_ok [OF ok dev, of "[]"]) (use h v that in \<open>auto simp: head_blocks_def\<close>)
qed

lemma recover_committed:
  assumes ok: "bstate r {} {}" and dev: "log_dev r = ROOTDEV" "length (lh_block r) = LOGBLOCKS"
    and bl: "head_blocks (disk r (log_start r)) = bl" "head_n (disk r (log_start r)) = int (length bl)"
      "length bl \<le> LOGBLOCKS" "distinct bl" "set bl \<inter> log_area r = {}"
    and lg: "\<And>t. t < length bl \<Longrightarrow> disk r (log_blk r t) = f (bl ! t)"
  obtains r' h where "recover_from_log r = Inr r'" "bstate r' {} {}" "head_n h = 0" "disk r' (log_start r) = h" "lh_n r' = 0"
    "\<And>m. m \<notin> log_area r \<Longrightarrow> disk r' m = (if m \<in> set bl then f m else disk r m)"
proof -
  have v: "view r = disk r" using view_disk [OF ok] by auto
  let ?W = "map (\<lambda>t. (bl ! t, view r (log_blk r t))) [0..<length bl]"
  have W: "?W = map (\<lambda>t. (bl ! t, f (bl ! t))) [0..<length bl]" using lg by (simp add: v)
  show thesis
  proof (rule recover_ok [OF ok dev, of bl])
    fix r' h assume r: "recover_from_log r = Inr r'" "bstate r' {} {}" "disk r' = (apply_writes ?W (disk r))(log_start r := h)"
      "head_n h = 0" "lh_n r' = 0"
    have ins: "disk r' m = (if m \<in> set bl then f m else disk r m)" if m: "m \<notin> log_area r" for m
    proof -
      have "m \<noteq> log_start r" using m by (auto simp: log_area_def)
      then have d: "disk r' m = apply_writes ?W (disk r) m" using r(3) by simp
      show ?thesis
      proof (cases "m \<in> set bl")
        case True
        then obtain t where t: "t < length bl" "bl ! t = m" by (auto simp: in_set_conv_nth)
        have "apply_writes ?W (disk r) m = f m" unfolding W
          by (rule apply_writes_in) (use t bl(4) in \<open>auto simp: comp_def map_nth\<close>)
        then show ?thesis using True d by simp
      next
        case False
        moreover have "fst ` set ?W \<subseteq> set bl" by auto
        ultimately have "apply_writes ?W (disk r) m = disk r m" by (intro apply_writes_other) blast
        then show ?thesis using False d by simp
      qed
    qed
    show thesis by (rule that [OF r(1,2,4) _ r(5) ins]) (simp add: r(3))
  qed (simp_all add: v bl)
qed

text \<open>The disk when the machine stops after \<open>k\<close> of the writes of a commit.\<close>

lemma crash_disk:
  assumes ok: "bstate s {} (set bl)" and tr: "trans bl s" and h0: "head_n (disk s (log_start s)) = 0"
    and d: "d = apply_writes (take k (commit_writes bl s)) (disk s)"
  shows "k \<le> length bl \<Longrightarrow> head_n (d (log_start s)) = 0 \<and> (\<forall>m. m \<notin> log_area s \<longrightarrow> d m = disk s m)"
    "length bl < k \<Longrightarrow> k < 2 * length bl + 2 \<Longrightarrow>
      head_n (d (log_start s)) = int (length bl) \<and> head_blocks (d (log_start s)) = bl \<and>
      (\<forall>t < length bl. d (log_blk s t) = view s (bl ! t)) \<and> (\<forall>m. m \<notin> log_area s \<longrightarrow> m \<notin> set bl \<longrightarrow> d m = disk s m)"
    "2 * length bl + 2 \<le> k \<Longrightarrow> head_n (d (log_start s)) = 0 \<and>
      (\<forall>m. m \<notin> log_area s \<longrightarrow> d m = (if m \<in> set bl then view s m else disk s m))"
proof -
  note T = transD [OF tr]
  let ?n = "length bl"
  let ?Wa = "map (\<lambda>t. (log_blk s t, view s (bl ! t))) [0..<?n]"
  let ?H = "put_head (lh_n s) (lh_block s) (view s (log_start s))"
  let ?Wc = "map (\<lambda>t. (bl ! t, view s (bl ! t))) [0..<?n]"
  let ?Z = "put_head 0 (lh_block s) ?H"
  have W: "commit_writes bl s = ?Wa @ [(log_start s, ?H)] @ ?Wc @ [(log_start s, ?Z)]"
    by (simp add: commit_writes_def Let_def)
  have lv: "length (view s (log_start s)) = BSIZE" by (rule length_view [OF ok])
  have lh: "lh_n s = int ?n" "?n \<le> length (lh_block s)" "take ?n (lh_block s) = bl" using tr T(3) by (auto simp: trans_def)
  have HH: "head_n ?H = int ?n" "head_blocks ?H = bl"
    using head_put_head [OF lv T(3) lh(2)] lh(1,3) by simp_all
  have H0: "head_n ?Z = 0" using head_put_head(1) [of ?H 0 "lh_block s"] lv by simp
  have wa: "fst ` set (take j ?Wa) \<subseteq> log_blk s ` {..<?n}" and wc: "fst ` set (take j ?Wc) \<subseteq> set bl" for j
    by (auto dest!: in_set_takeD)
  have area: "log_blk s ` {..<?n} \<subseteq> log_area s" using T(3) by (auto simp: log_area_def)
  have start: "log_start s \<notin> set bl" using tr by (auto simp: log_area_def trans_def)
  have start': "log_start s \<notin> log_blk s ` {..<?n}"
  proof
    assume "log_start s \<in> log_blk s ` {..<?n}"
    then obtain t where "t < ?n" "log_start s = log_blk s t" by blast
    then show False using log_blk_start [of t s] T(3) by simp
  qed
  have st1: "log_start s \<notin> fst ` set (take j ?Wa)" for j using wa start' by blast
  have st3: "log_start s \<notin> fst ` set (take j ?Wc)" for j using wc start by blast
  have ar1: "m \<notin> fst ` set (take j ?Wa)" if "m \<notin> log_area s" for j m using wa area that by blast
  have ar3: "m \<notin> fst ` set (take j ?Wc)" if "m \<notin> set bl" for j m using wc that by blast
  show "head_n (d (log_start s)) = 0 \<and> (\<forall>m. m \<notin> log_area s \<longrightarrow> d m = disk s m)" if "k \<le> ?n"
    using that apply_writes_other [OF st1] apply_writes_other [OF ar1] h0 by (simp add: d W)
  show "head_n (d (log_start s)) = int ?n \<and> head_blocks (d (log_start s)) = bl \<and>
      (\<forall>t < ?n. d (log_blk s t) = view s (bl ! t)) \<and> (\<forall>m. m \<notin> log_area s \<longrightarrow> m \<notin> set bl \<longrightarrow> d m = disk s m)"
    if k: "?n < k" "k < 2 * ?n + 2"
  proof -
    have tk: "take k (commit_writes bl s) = ?Wa @ [(log_start s, ?H)] @ take (k - ?n - 1) ?Wc"
      using k by (simp add: W take_Cons')
    have D: "d = apply_writes (take (k - ?n - 1) ?Wc) ((apply_writes ?Wa (disk s))(log_start s := ?H))"
      by (simp only: d tk apply_writes_simps)
    have "d (log_start s) = ?H" unfolding D using apply_writes_other [OF st3] by simp
    moreover have "d (log_blk s t) = view s (bl ! t)" if t: "t < ?n" for t
    proof -
      have "log_blk s t \<in> log_area s" using t T(3) by (intro log_blk_area) simp
      then have "log_blk s t \<notin> fst ` set (take (k - ?n - 1) ?Wc)" using tr by (intro ar3) (auto simp: trans_def)
      moreover have "log_blk s t \<noteq> log_start s" using t T(3) by (intro log_blk_start) simp
      moreover have "apply_writes ?Wa (disk s) (log_blk s t) = view s (bl ! t)"
        by (rule apply_writes_in) (use t log_blks_distinct [OF T(3), of s] in \<open>auto simp: comp_def\<close>)
      ultimately show ?thesis unfolding D by (simp add: apply_writes_other)
    qed
    moreover have "d m = disk s m" if m: "m \<notin> log_area s" "m \<notin> set bl" for m
    proof -
      have "m \<notin> fst ` set (take (k - ?n - 1) ?Wc)" by (rule ar3 [OF m(2)])
      moreover have "m \<noteq> log_start s" using m(1) by (auto simp: log_area_def)
      ultimately show ?thesis unfolding D using apply_writes_other [OF ar1 [OF m(1), of ?n]] by (simp add: apply_writes_other)
    qed
    ultimately show ?thesis using HH by simp
  qed
  show "head_n (d (log_start s)) = 0 \<and>
      (\<forall>m. m \<notin> log_area s \<longrightarrow> d m = (if m \<in> set bl then view s m else disk s m))"
    if k: "2 * ?n + 2 \<le> k"
  proof -
    have tk: "take k (commit_writes bl s) = commit_writes bl s" using k by (simp add: W)
    have D: "d = (apply_writes ?Wc ((apply_writes ?Wa (disk s))(log_start s := ?H)))(log_start s := ?Z)"
      unfolding d tk unfolding W by (simp only: apply_writes_simps)
    have "d m = (if m \<in> set bl then view s m else disk s m)" if m: "m \<notin> log_area s" for m
    proof -
      have ms: "m \<noteq> log_start s" using m by (auto simp: log_area_def)
      show ?thesis
      proof (cases "m \<in> set bl")
        case True
        then obtain t where t: "t < ?n" "bl ! t = m" by (auto simp: in_set_conv_nth)
        have "apply_writes ?Wc f m = view s m" for f
          by (rule apply_writes_in) (use t T(4) in \<open>auto simp: comp_def map_nth\<close>)
        then show ?thesis using True ms by (simp add: D)
      next
        case False
        then have "m \<notin> fst ` set ?Wc" using ar3 [of m ?n] by simp
        then show ?thesis using False ms apply_writes_other [OF ar1 [OF m, of ?n]] by (simp add: D apply_writes_other)
      qed
    qed
    then show ?thesis using H0 D by simp
  qed
qed

text \<open>The state of the machine after a boot on the disk \<open>d\<close>, before \<^verbatim>\<open>initlog()\<close>.\<close>

definition reboot :: "(u32 \<Rightarrow> u8 list) \<Rightarrow> i32 \<Rightarrow> logst" where
  "reboot d pid = binit \<lparr>bufs = replicate (Suc NBUF) zero_buf, disk = d, dwrites = [], woken = [], curpid = pid,
     log_start = 0, log_outstanding = 0, log_committing = False, log_dev = 0, lh_n = 0, lh_block = replicate LOGBLOCKS 0\<rparr>"

lemma reboot_ok:
  assumes "\<And>n. length (d n) = BSIZE"
  shows "bstate (reboot d pid) {} {}" "view (reboot d pid) = d" "disk (reboot d pid) = d" "length (lh_block (reboot d pid)) = LOGBLOCKS"
proof -
  let ?s = "\<lparr>bufs = replicate (Suc NBUF) zero_buf, disk = d, dwrites = [], woken = [], curpid = pid,
     log_start = 0, log_outstanding = 0, log_committing = False, log_dev = 0, lh_n = 0, lh_block = replicate LOGBLOCKS 0\<rparr>"
  have l: "length (disk ?s n) = BSIZE" for n using assms by simp
  show "bstate (reboot d pid) {} {}" "view (reboot d pid) = d"
    unfolding reboot_def using binit_ok(1,2) [of ?s, OF _ l] by simp_all
  show "disk (reboot d pid) = d" "length (lh_block (reboot d pid)) = LOGBLOCKS"
    by (simp_all add: reboot_def binit_def del: upt_rec_numeral)
qed

lemma length_apply_writes:
  assumes "\<And>n. length (f n) = BSIZE" "\<And>n v. (n, v) \<in> set ws \<Longrightarrow> length v = BSIZE"
  shows "length (apply_writes ws f n) = BSIZE"
  using assms
proof (induction ws arbitrary: f)
  case (Cons w ws)
  obtain a v where w: "w = (a, v)" by (cases w)
  have "length (apply_writes ws (f(a := v)) n) = BSIZE"
  proof (rule Cons.IH)
    show "length ((f(a := v)) m) = BSIZE" for m using Cons.prems(1) Cons.prems(2) [of a v] w by simp
    show "length u = BSIZE" if "(m, u) \<in> set ws" for m u using Cons.prems(2) [of m u] that by simp
  qed
  then show ?case by (simp add: w)
qed simp

lemma commit_writes_length:
  assumes ok: "bstate s {} P" and w: "(n, v) \<in> set (commit_writes bl s)"
  shows "length v = BSIZE"
  using w length_view [OF ok] by (auto simp: commit_writes_def Let_def)

lemma initlog_eq: "initlog dev sb s = recover_from_log (s\<lparr>log_start := sb_logstart sb, log_dev := dev\<rparr>)"
  by (simp add: initlog_def)

text \<open>
  Claim C19. A transaction is atomic with respect to crashes. Let \<open>s\<close> be a state with no operation in
  progress and the blocks \<open>bl\<close> in the log, fewer than \<^verbatim>\<open>NBUF\<close> of them and none in the log's own area,
  and with an empty log on the disk. Then \<^verbatim>\<open>commit()\<close> returns; and if the machine stops after any number
  \<open>k\<close> of its block writes and boots from the disk as it is then, the recovery of \<^verbatim>\<open>initlog()\<close> returns with
  an empty log, and the blocks outside the log are either all as they were on the disk before the
  transaction, when the header had not been written, or all as the transaction left them.
\<close>

theorem commit_is_crash_atomic:
  assumes ok: "bstate s {} (set bl)" and tr: "trans bl s" and bl: "bl \<noteq> []" "length bl < NBUF"
    and h0: "head_n (disk s (log_start s)) = 0" and sb: "sb_logstart sb = log_start s"
  shows "\<exists>s' ws. commit s = Inr s' \<and> dwrites s' = dwrites s @ ws \<and>
    (\<forall>k. \<exists>r. initlog ROOTDEV sb (reboot (apply_writes (take k ws) (disk s)) pid) = Inr r \<and>
       head_n (disk r (log_start s)) = 0 \<and>
       (\<forall>m. m \<notin> log_area s \<longrightarrow> disk r m = (if k \<le> length bl then disk s m else view s m)))"
proof -
  obtain s' where s': "commit s = Inr s'" "dwrites s' = dwrites s @ commit_writes bl s"
    using commit_ok [OF ok tr bl] by metis
  have "\<exists>r. initlog ROOTDEV sb (reboot d pid) = Inr r \<and> head_n (disk r (log_start s)) = 0 \<and>
      (\<forall>m. m \<notin> log_area s \<longrightarrow> disk r m = (if k \<le> length bl then disk s m else view s m))"
    if d: "d = apply_writes (take k (commit_writes bl s)) (disk s)" for k d
  proof -
    note D = crash_disk [OF ok tr h0 d]
    have ld: "length (d n) = BSIZE" for n
      unfolding d using bstateD(7) [OF ok] commit_writes_length [OF ok]
      by (intro length_apply_writes) (auto dest: in_set_takeD)
    note R = reboot_ok [of d, OF ld, where pid = pid]
    let ?r = "(reboot d pid)\<lparr>log_start := log_start s, log_dev := ROOTDEV\<rparr>"
    have ok': "bstate ?r {} {}" using R(1) by (simp add: bstate_def)
    have e: "initlog ROOTDEV sb (reboot d pid) = recover_from_log ?r" "disk ?r = d" "length (lh_block ?r) = LOGBLOCKS"
      "log_dev ?r = ROOTDEV" "log_start ?r = log_start s"
      using R(3,4) sb by (simp_all add: initlog_eq)
    have ar: "log_area ?r = log_area s" "log_blk ?r = log_blk s"
      by (simp_all add: log_area_def log_blk_def fun_eq_iff)
    have vw: "view s m = disk s m" if "m \<notin> set bl" for m by (rule view_disk [OF ok that])
    have st: "log_start s \<in> log_area s" by (simp add: log_area_def)
    show ?thesis
    proof (cases "length bl < k \<and> k < 2 * length bl + 2")
      case True
      note D2 = D(2) [OF conjunct1 [OF True] conjunct2 [OF True]]
      have sub: "set bl \<inter> log_area ?r = {}" using tr ar(1) by (simp add: trans_def)
      show ?thesis
      proof (rule recover_committed [OF ok' e(4,3), of bl "view s"])
        show "head_blocks (disk ?r (log_start ?r)) = bl" "head_n (disk ?r (log_start ?r)) = int (length bl)"
          "\<And>t. t < length bl \<Longrightarrow> disk ?r (log_blk ?r t) = view s (bl ! t)"
          using D2 by (simp_all add: e(2,5) ar)
        fix r h assume "recover_from_log ?r = Inr r" "head_n h = 0" "disk r (log_start ?r) = h"
          "\<And>m. m \<notin> log_area ?r \<Longrightarrow> disk r m = (if m \<in> set bl then view s m else disk ?r m)"
        then show ?thesis using True D2 vw unfolding e(1,2,5) ar by auto
      qed (use transD(3,4) [OF tr] sub in simp_all)
    next
      case False
      then have h: "head_n (disk ?r (log_start ?r)) = 0" using D(1,3) unfolding e(2,5) by fastforce
      show ?thesis
      proof (rule recover_empty [OF ok' e(4,3) h])
        fix r h assume "recover_from_log ?r = Inr r" "disk r = (disk ?r)(log_start ?r := h)" "head_n h = 0"
        moreover have "\<forall>m. m \<notin> log_area s \<longrightarrow> d m = (if k \<le> length bl then disk s m else view s m)"
          using False D(1,3) vw by (cases "k \<le> length bl") auto
        ultimately show ?thesis using st unfolding e(1,2,5) by auto
      qed
    qed
  qed
  then show ?thesis using s' by blast
qed

section \<open>Logged updates\<close>

lemma log_block_view [simp]:
  "view (s\<lparr>lh_block := xs\<rparr>) = view s" "bstate (s\<lparr>lh_block := xs\<rparr>) H P \<longleftrightarrow> bstate s H P"
  by (auto simp: view_def bstate_def fun_eq_iff split: option.split)

text \<open>\<open>logged n bl\<close>: the transaction after a \<^verbatim>\<open>log_write()\<close> of block \<open>n\<close>; a block is logged once.\<close>

definition logged :: "u32 \<Rightarrow> u32 list \<Rightarrow> u32 list" where
  "logged n bl = (if n \<in> set bl then bl else bl @ [n])"

lemma set_logged [simp]: "set (logged n bl) = insert n (set bl)"
  by (auto simp: logged_def)

lemma bufs_lh_n [simp]: "bufs (s\<lparr>lh_n := k\<rparr>) = bufs s"
  by simp

text \<open>A caller that holds the changed buffer of block \<open>n\<close> logs it: the block is pinned and in the transaction.\<close>

lemma log_write_ok:
  assumes ok: "bstate s H (set bl)" and tr: "trans bl s" and b: "b \<in> H" and n: "holds n (bufs s ! b)" "n \<notin> log_area s"
    and lim: "length bl < LOGBLOCKS" "0 < log_outstanding s"
  obtains s' where "log_write b s = Inr s'" "bstate s' H (set (logged n bl))" "trans (logged n bl) s'"
    "view s' = view s" "disk s' = disk s" "dwrites s' = dwrites s" "log_start s' = log_start s"
    "log_outstanding s' = log_outstanding s" "log_committing s' = log_committing s" "curpid s' = curpid s"
    "logst.more s' = logst.more s" "\<And>i m. holds m (bufs s' ! i) \<longleftrightarrow> holds m (bufs s ! i)" "\<And>i. data_of i s' = data_of i s"
proof -
  note T = transD [OF tr]
  have no: "b_blockno (bufs s ! b) = n" using n(1) by (simp add: holds_def)
  have tk: "take (length bl) (lh_block s) = bl" using tr by (auto simp: trans_def)
  have lim': "\<not> int LOGBLOCKS \<le> lh_n s" using tr lim(1) by (simp add: trans_def)
  show thesis
  proof (cases "n \<in> set bl")
    case True
    then obtain i where i: "first_idx (\<lambda>x. x = n) bl = Some i"
      by (cases "first_idx (\<lambda>x. x = n) bl") (auto simp: first_idx_None in_set_conv_nth)
    then have i': "i < length bl" "bl ! i = n" by (auto simp: first_idx_Some)
    have "(lh_block s)[i := n] = lh_block s"
      using T(5) [OF i'(1)] i'(2) by (metis list_update_id)
    then have e: "log_write b s = Inr s"
      using lim' lim(2) i i'(1) T(1) by (simp add: log_write_def no tk Let_def)
    have lb: "logged n bl = bl" using True by (simp add: logged_def)
    show thesis by (rule that [OF e]) (use ok tr lb in simp_all)
  next
    case False
    then have none: "first_idx (\<lambda>x. x = n) bl = None" by (auto simp: first_idx_None dest: nth_mem)
    let ?s1 = "s\<lparr>lh_block := (lh_block s)[length bl := n]\<rparr>"
    let ?s = "(bpin b ?s1)\<lparr>lh_n := lh_n s + 1\<rparr>"
    have e: "log_write b s = Inr ?s"
      using lim' lim(2) none T(1) by (simp add: log_write_def no tk Let_def)
    have ok1: "bstate ?s1 H (set bl)" using ok by simp
    have n1: "holds n (bufs ?s1 ! b)" using n by simp
    note bp = bpin_ok [OF ok1 b n1 False]
    have lb: "logged n bl = bl @ [n]" using False by (simp add: logged_def)
    have "take (Suc (length bl)) ((lh_block s)[length bl := n]) = bl @ [n]"
      using tr lim(1) by (simp add: trans_def take_Suc_conv_app_nth)
    then have tr': "trans (logged n bl) ?s"
      using tr lim(1) False n(2) by (auto simp: lb trans_def bpin_def log_area_def log_blk_def)
    show thesis
      by (rule that [OF e]) (use bp tr' in \<open>auto simp: bpin_def holds_def\<close>)
  qed
qed

text \<open>
  The typical update of a file system block: \<^verbatim>\<open>bread\<close>, change the data, \<^verbatim>\<open>log_write\<close>, \<^verbatim>\<open>brelse\<close>.
\<close>

definition log_update :: "u32 \<Rightarrow> (u8 list \<Rightarrow> u8 list) \<Rightarrow> 'a logst_scheme \<Rightarrow> 'a logst_scheme res" where
  "log_update n f s =
     bindR (bread ROOTDEV n s) (\<lambda>(b, s1).
     bindR (log_write b (set_data b f s1)) (\<lambda>s2. brelse b s2))"

text \<open>\<open>txn bl s\<close>: inside a transaction with the blocks \<open>bl\<close>, no buffer held.\<close>

definition txn :: "u32 list \<Rightarrow> 'a logst_scheme \<Rightarrow> bool" where
  "txn bl s \<longleftrightarrow> bstate s {} (set bl) \<and> trans bl s \<and> 0 < log_outstanding s"

lemma log_update_ok:
  assumes t: "txn bl s" and n: "n \<notin> log_area s" and lim: "length bl < LOGBLOCKS"
    and f: "\<And>d. length d = BSIZE \<Longrightarrow> length (f d) = BSIZE"
  obtains s' where "log_update n f s = Inr s'" "txn (logged n bl) s'" "view s' = (view s)(n := f (view s n))"
    "disk s' = disk s" "dwrites s' = dwrites s" "log_start s' = log_start s"
    "log_outstanding s' = log_outstanding s" "log_committing s' = log_committing s" "curpid s' = curpid s" "logst.more s' = logst.more s"
proof -
  have ok: "bstate s {} (set bl)" and tr: "trans bl s" and out: "0 < log_outstanding s" using t by (auto simp: txn_def)
  have c: "card (set bl) < NBUF" using lim card_length [of bl] by linarith
  show thesis
  proof (rule bread_ok [OF ok, of n])
    show "n \<in> set bl \<or> card (set bl) + card {} < NBUF" using c by simp
    fix b bs assume rd: "bread ROOTDEV n s = Inr (b, s\<lparr>bufs := bs\<rparr>)" and b: "b < NBUF"
      and ok1: "bstate (s\<lparr>bufs := bs\<rparr>) {b} (set bl)" and hb: "holds n (bs ! b)" and db: "b_data (bs ! b) = view s n"
      and v: "view (s\<lparr>bufs := bs\<rparr>) = view s"
    let ?s1 = "s\<lparr>bufs := bs\<rparr>"
    let ?s2 = "set_data b f ?s1"
    have hb1: "holds n (bufs ?s1 ! b)" using hb by simp
    have lf: "length (f (data_of b ?s1)) = BSIZE" using db f length_view [OF ok] by simp
    note sd = set_data_ok [OF ok1 singletonI hb1, of f, OF lf]
    have hb2: "holds n (bufs ?s2 ! b)" using sd(3) hb by (simp add: holds_def)
    have tr2: "trans bl ?s2" using tr by (simp add: trans_def set_data_def log_area_def log_blk_def)
    have n2: "n \<notin> log_area ?s2" using n by (simp add: set_data_def log_area_def log_blk_def)
    have out2: "0 < log_outstanding ?s2" "length bl < LOGBLOCKS" using out lim by (simp_all add: set_data_def)
    show thesis
    proof (rule log_write_ok [OF sd(1) tr2 singletonI hb2 n2 out2(2,1)])
      fix s3 assume lw: "log_write b ?s2 = Inr s3" and ok3: "bstate s3 {b} (set (logged n bl))" and tr3: "trans (logged n bl) s3"
        and s3: "view s3 = view ?s2" "disk s3 = disk ?s2" "dwrites s3 = dwrites ?s2" "log_start s3 = log_start ?s2"
          "log_outstanding s3 = log_outstanding ?s2" "log_committing s3 = log_committing ?s2" "curpid s3 = curpid ?s2"
          "logst.more s3 = logst.more ?s2"
        and h3: "\<And>i m. holds m (bufs s3 ! i) \<longleftrightarrow> holds m (bufs ?s2 ! i)"
      have hb3: "holds n (bufs s3 ! b)" using h3 hb2 by simp
      show thesis
      proof (rule brelse_ok [OF ok3 singletonI hb3])
        show "n \<in> set (logged n bl) \<or> view s3 n = disk s3 n" by simp
        fix es assume rl: "brelse b s3 = Inr (s3\<lparr>woken := BufLockChan b # woken s3, bufs := es\<rparr>)"
          and ok4: "bstate (s3\<lparr>woken := BufLockChan b # woken s3, bufs := es\<rparr>) ({b} - {b}) (set (logged n bl))"
          and v4: "view (s3\<lparr>woken := BufLockChan b # woken s3, bufs := es\<rparr>) = view s3"
        let ?s4 = "s3\<lparr>woken := BufLockChan b # woken s3, bufs := es\<rparr>"
        have e: "log_update n f s = Inr ?s4" using rd lw rl by (simp add: log_update_def)
        have tr4: "trans (logged n bl) ?s4" using tr3 by (simp add: trans_def log_area_def log_blk_def)
        have fs: "logst.more ?s2 = logst.more s" "log_start ?s2 = log_start s" "disk ?s2 = disk s" "dwrites ?s2 = dwrites s"
          "log_outstanding ?s2 = log_outstanding s" "log_committing ?s2 = log_committing s" "curpid ?s2 = curpid s"
          by (simp_all add: set_data_def)
        show thesis
          by (rule that [OF e]) (use ok4 tr4 v4 sd(2) v out s3 fs in \<open>simp_all add: txn_def\<close>)
      qed
    qed
  qed simp
qed

lemma all_pinned:
  assumes ok: "bstate s {} P" and c: "card P = NBUF" and i: "i < NBUF"
  shows "\<exists>n \<in> P. holds n (bufs s ! i)"
proof -
  let ?f = "\<lambda>n. SOME i. i < NBUF \<and> holds n (bufs s ! i)"
  have f: "?f n < NBUF \<and> holds n (bufs s ! ?f n)" if "n \<in> P" for n
    using someI_ex [OF bstateD(6) [OF ok that, unfolded Bex_def]] by blast
  have inj: "inj_on ?f P" by (rule inj_onI) (metis f holds_unique)
  have "?f ` P \<subseteq> {..<NBUF}" using f by blast
  then have "?f ` P = {..<NBUF}" using card_image [OF inj] c by (intro card_subset_eq) simp_all
  then obtain n where "n \<in> P" "i = ?f n" using i by blast
  then show ?thesis using f by blast
qed

text \<open>
  Claim C20. The log admits a transaction of \<^verbatim>\<open>LOGBLOCKS\<close> blocks, which is \<^verbatim>\<open>NBUF\<close>, the number of
  buffers; but such a transaction cannot be committed: every buffer is pinned, and \<^verbatim>\<open>write_log()\<close>
  panics when it reads the first block of the log.
\<close>

theorem full_log_cannot_be_committed:
  assumes ok: "bstate s {} (set bl)" and tr: "trans bl s" and full: "length bl = LOGBLOCKS"
  shows "commit s = Inl (Panic ''bget: no buffers'')"
proof -
  let ?n = "log_start s + of_nat 0 + 1"
  have c: "card (set bl) = NBUF" using tr full distinct_card [of bl] by (simp add: trans_def)
  have notin: "?n \<notin> set bl" using tr log_blk_area [of 0 s] by (auto simp: trans_def log_blk_def)
  obtain xs where xs: "dll (bufs s) xs" "set xs = {..<NBUF}" using bstateD(1) [OF ok] by blast
  have len: "length xs < Suc NBUF" using dll_length [OF xs] by simp
  have h: "\<not> (b_dev (bufs s ! i) = ROOTDEV \<and> b_blockno (bufs s ! i) = ?n)" "b_refcnt (bufs s ! i) \<noteq> 0" if "i \<in> set xs" for i
  proof -
    have i: "i < NBUF" using that xs(2) by auto
    then obtain m where m: "m \<in> set bl" "holds m (bufs s ! i)" using all_pinned [OF ok c] by blast
    then show "\<not> (b_dev (bufs s ! i) = ROOTDEV \<and> b_blockno (bufs s ! i) = ?n)" using notin by (metis holds_def)
    show "b_refcnt (bufs s ! i) \<noteq> 0" using bstateD(4) [OF ok i] m by (simp add: buf_ok_def holds_def)
  qed
  have "find (\<lambda>i. b_dev (bufs s ! i) = ROOTDEV \<and> b_blockno (bufs s ! i) = ?n) xs = None"
    "find (\<lambda>i. b_refcnt (bufs s ! i) = 0) (rev xs) = None"
    using h by (auto simp: find_None_iff)
  then have "bread ROOTDEV ?n s = Inl (Panic ''bget: no buffers'')"
    unfolding bread_def bget_def dll_scan [OF xs(1) len] by simp
  then have "write_log_block 0 s = Inl (Panic ''bget: no buffers'')"
    using transD(2) [OF tr] by (simp add: write_log_block_def)
  moreover have "[0..<nat (lh_n s)] = 0 # [1..<nat (lh_n s)]" "0 < lh_n s"
    using tr full by (auto simp: trans_def intro: upt_conv_Cons)
  ultimately show ?thesis by (simp add: commit_def write_log_def)
qed

text \<open>Transactions of any size exist.\<close>

definition demo_log :: "logst" where
  "demo_log = (reboot (\<lambda>_. replicate BSIZE 0) 1)\<lparr>log_start := 2, log_dev := ROOTDEV, log_outstanding := 1\<rparr>"

lemma demo_log_txn: "txn [] demo_log" "disk demo_log = (\<lambda>_. replicate BSIZE 0)" "log_start demo_log = 2"
proof -
  have R: "bstate (reboot (\<lambda>_. replicate BSIZE 0) 1) {} {}" "disk (reboot (\<lambda>_. replicate BSIZE 0) 1) = (\<lambda>_. replicate BSIZE 0)"
    "length (lh_block (reboot (\<lambda>_. replicate BSIZE 0) 1)) = LOGBLOCKS" by (rule reboot_ok; simp)+
  have "lh_n (reboot (\<lambda>_. replicate BSIZE 0) 1) = 0" by (simp add: reboot_def binit_def del: upt_rec_numeral)
  then show "txn [] demo_log" using R by (simp add: txn_def trans_def demo_log_def bstate_def)
  show "disk demo_log = (\<lambda>_. replicate BSIZE 0)" "log_start demo_log = 2" using R(2) by (simp_all add: demo_log_def)
qed

lemma demo_txn:
  assumes "n \<le> LOGBLOCKS"
  shows "\<exists>s :: logst. txn (map of_nat [100..<100 + n]) s \<and> disk s = (\<lambda>_. replicate BSIZE 0) \<and> log_start s = 2"
  using assms
proof (induction n)
  case 0
  then show ?case using demo_log_txn by (intro exI [of _ demo_log]) simp
next
  case (Suc n)
  then obtain s :: logst where s: "txn (map of_nat [100..<100 + n]) s" "disk s = (\<lambda>_. replicate BSIZE 0)" "log_start s = 2" by auto
  let ?bl = "map of_nat [100..<100 + n] :: u32 list"
  have neq: "(of_nat (100 + n) :: u32) \<noteq> of_nat k" if "k < 100 + n" for k
    using of_nat_eq_small [of "100 + n" k] that Suc.prems by simp
  have area: "of_nat (100 + n) \<notin> log_area s"
  proof
    assume "of_nat (100 + n) \<in> log_area s"
    then consider "(of_nat (100 + n) :: u32) = of_nat 2" | t where "t < LOGBLOCKS" "(of_nat (100 + n) :: u32) = of_nat (t + 3)"
      using s(3) by (auto simp: log_area_def log_blk_def)
    then show False
    proof cases
      case 1
      then show False using neq [of 2] by simp
    next
      case (2 t)
      then show False using neq [of "t + 3"] by simp
    qed
  qed
  have new: "of_nat (100 + n) \<notin> set ?bl" using neq by force
  have "length ?bl < LOGBLOCKS" using Suc.prems by simp
  from log_update_ok [OF s(1) area this, of id] obtain s' :: logst where
    "txn (logged (of_nat (100 + n)) ?bl) s'" "disk s' = disk s" "log_start s' = log_start s" by auto
  moreover have "logged (of_nat (100 + n)) ?bl = map of_nat [100..<100 + Suc n]"
    using new unfolding logged_def add_Suc_right by (simp only: if_False upt_Suc_append le_add1 map_append list.map)
  ultimately show ?case using s by auto
qed

theorem full_log_cannot_be_committed_witness:
  "\<exists>s :: logst. txn (map of_nat [100..<130]) s \<and> commit s = Inl (Panic ''bget: no buffers'')"
proof -
  obtain s :: logst where s: "txn (map of_nat [100..<130]) s" using demo_txn [of 30] by auto
  have "commit s = Inl (Panic ''bget: no buffers'')"
    using full_log_cannot_be_committed [of s "map of_nat [100..<130]"] s unfolding txn_def by (simp del: upt_rec_numeral)
  then show ?thesis using s by blast
qed

theorem commit_is_crash_atomic_witness:
  "\<exists>(s :: logst) s' ws. txn (map of_nat [100..<103]) s \<and> commit s = Inr s' \<and> dwrites s' = dwrites s @ ws \<and>
    (\<exists>r. initlog ROOTDEV \<lparr>sb_magic = 0, sb_size = 0, sb_nblocks = 0, sb_ninodes = 0, sb_nlog = 31, sb_logstart = 2,
         sb_inodestart = 0, sb_bmapstart = 0\<rparr> (reboot (apply_writes (take 2 ws) (disk s)) 1) = Inr r \<and> disk r 100 = disk s 100)"
proof -
  obtain s :: logst where s: "txn (map of_nat [100..<103]) s" "disk s = (\<lambda>_. replicate BSIZE 0)" "log_start s = 2"
    using demo_txn [of 3] by auto
  have t: "bstate s {} (set (map of_nat [100..<103]))" "trans (map of_nat [100..<103]) s" using s(1) by (simp_all add: txn_def del: upt_rec_numeral)
  have h: "head_n (disk s (log_start s)) = 0" by (simp add: head_n_def s numeral_eq_Suc)
  have a: "100 \<notin> log_area s" using transD(6) [OF t(2), of 0] by (simp del: upt_rec_numeral)
  let ?sb = "\<lparr>sb_magic = 0, sb_size = 0, sb_nblocks = 0, sb_ninodes = 0, sb_nlog = 31, sb_logstart = 2 :: u32,
         sb_inodestart = 0, sb_bmapstart = 0\<rparr>"
  have sb: "sb_logstart ?sb = log_start s" using s(3) by simp
  have l: "map of_nat [100..<103] \<noteq> ([] :: u32 list)" "length (map of_nat [100..<103] :: u32 list) < NBUF" by simp_all
  from commit_is_crash_atomic [OF t l h sb, of 1] obtain s' ws where
    "commit s = Inr s'" "dwrites s' = dwrites s @ ws"
    "\<exists>r. initlog ROOTDEV ?sb (reboot (apply_writes (take 2 ws) (disk s)) 1) = Inr r \<and> (\<forall>m. m \<notin> log_area s \<longrightarrow> disk r m = disk s m)"
    by fastforce
  then show ?thesis using s(1) a by blast
qed

end
