(* ===== verification/Fs.thy ===== *)
theory Fs
  imports LogInv
begin

text \<open>
  The file system (\<^verbatim>\<open>kernel/fs.c\<close>, \<^verbatim>\<open>kernel/fs.h\<close>, \<^verbatim>\<open>kernel/file.h\<close>, \<^verbatim>\<open>kernel/stat.h\<close>): blocks,
  inodes, directories and path names, over the log. The state \<open>fsst\<close> adds the superblock and the
  table of in-memory inodes; a pointer to an inode is its index in \<^verbatim>\<open>itable.inode\<close>.

  The other side of \<^verbatim>\<open>either_copyout()\<close> and \<^verbatim>\<open>either_copyin()\<close> is an argument of \<^verbatim>\<open>readi()\<close> and
  \<^verbatim>\<open>writei()\<close>: a function that stores bytes at an address of some memory, or fetches them. For an
  object of the kernel that memory is the list of its bytes (\<open>ksink\<close>, \<open>ksource\<close>); the user side is
  in theory File. A path or a name is a list of bytes; the end of the list reads as the NUL that
  ends the C string.
\<close>

section \<open>Data\<close>

abbreviation (input) ROOTINO :: u32 where "ROOTINO \<equiv> 1"
abbreviation (input) NDIRECT :: nat where "NDIRECT \<equiv> 12"
abbreviation (input) NINDIRECT :: nat where "NINDIRECT \<equiv> 256"
abbreviation (input) MAXFILE :: nat where "MAXFILE \<equiv> 268"
abbreviation (input) FSMAGIC :: u32 where "FSMAGIC \<equiv> 0x10203040"
abbreviation (input) IPB :: nat where "IPB \<equiv> 16"
abbreviation (input) BPB :: nat where "BPB \<equiv> 8192"
abbreviation (input) DIRSIZ :: nat where "DIRSIZ \<equiv> 14"
abbreviation (input) T_DIR :: u16 where "T_DIR \<equiv> 1"
abbreviation (input) T_FILE :: u16 where "T_FILE \<equiv> 2"
abbreviation (input) T_DEVICE :: u16 where "T_DEVICE \<equiv> 3"

record inode =
  i_dev :: u32
  i_inum :: u32
  i_ref :: int
  i_lock :: sleeplock
  i_valid :: bool
  i_type :: u16
  i_major :: u16
  i_minor :: u16
  i_nlink :: u16
  i_size :: u32
  i_addrs :: "u32 list"

record stat =
  st_dev :: u32
  st_ino :: u32
  st_type :: u16
  st_nlink :: u16
  st_size :: u64

record fsst = logst +
  sb :: superblock
  itable :: "inode list"

type_synonym 'm sink = "u64 \<Rightarrow> u8 list \<Rightarrow> 'm \<Rightarrow> (i32 \<times> 'm) res"
type_synonym 'm source = "u64 \<Rightarrow> nat \<Rightarrow> 'm \<Rightarrow> (i32 \<times> u8 list \<times> 'm) res"

definition ksink :: "u8 list sink" where
  "ksink dst bs m = Inr (0, blit m (unat dst) bs)"

definition ksource :: "u8 list source" where
  "ksource src n m = Inr (0, slice m (unat src) n, m)"

definition IBLOCK :: "u32 \<Rightarrow> superblock \<Rightarrow> u32" where
  "IBLOCK i b = i div of_nat IPB + sb_inodestart b"

definition BBLOCK :: "u32 \<Rightarrow> superblock \<Rightarrow> u32" where
  "BBLOCK b s = b div of_nat BPB + sb_bmapstart s"

abbreviation inode_at :: "nat \<Rightarrow> 'a fsst_scheme \<Rightarrow> inode" where
  "inode_at ip s \<equiv> itable s ! ip"

definition upd_inode :: "nat \<Rightarrow> (inode \<Rightarrow> inode) \<Rightarrow> 'a fsst_scheme \<Rightarrow> 'a fsst_scheme" where
  "upd_inode ip f s = s\<lparr>itable := upd ip f (itable s)\<rparr>"

section \<open>Blocks\<close>

definition readsb :: "u32 \<Rightarrow> 'a fsst_scheme \<Rightarrow> 'a fsst_scheme res" where
  "readsb dev s =
     bindR (bread dev 1 s) (\<lambda>(bp, s1).
       let d = data_of bp s1
       in brelse bp (s1\<lparr>sb := \<lparr>sb_magic = get32 d 0, sb_size = get32 d 4, sb_nblocks = get32 d 8,
            sb_ninodes = get32 d 12, sb_nlog = get32 d 16, sb_logstart = get32 d 20,
            sb_inodestart = get32 d 24, sb_bmapstart = get32 d 28\<rparr>\<rparr>))"

definition bzero :: "u32 \<Rightarrow> u32 \<Rightarrow> 'a fsst_scheme \<Rightarrow> 'a fsst_scheme res" where
  "bzero dev bno s =
     bindR (bread dev bno s) (\<lambda>(bp, s1).
     bindR (log_write bp (set_data bp (\<lambda>d. replicate (length d) 0) s1)) (\<lambda>s2. brelse bp s2))"

text \<open>The bit of the free map for bit number \<open>bi\<close> of a bitmap block, and the block with it set or cleared.\<close>

definition bit_mask :: "nat \<Rightarrow> u8" where
  "bit_mask bi = push_bit (bi mod 8) 1"

definition bit_free :: "u8 list \<Rightarrow> nat \<Rightarrow> bool" where
  "bit_free d bi \<longleftrightarrow> (d ! (bi div 8)) AND bit_mask bi = 0"

definition mark_used :: "nat \<Rightarrow> u8 list \<Rightarrow> u8 list" where
  "mark_used bi d = d[bi div 8 := (d ! (bi div 8)) OR bit_mask bi]"

definition mark_free :: "nat \<Rightarrow> u8 list \<Rightarrow> u8 list" where
  "mark_free bi d = d[bi div 8 := (d ! (bi div 8)) AND NOT (bit_mask bi)]"

text \<open>The outer loop of \<^verbatim>\<open>balloc()\<close>, over the bitmap blocks: \<open>ks\<close> are the values of \<^verbatim>\<open>b / BPB\<close> to go.\<close>

primrec balloc_loop :: "nat list \<Rightarrow> u32 \<Rightarrow> 'a fsst_scheme \<Rightarrow> (u32 \<times> 'a fsst_scheme) res" where
  "balloc_loop [] dev s = Inr (0, s)"
| "balloc_loop (k # ks) dev s =
     (let b = BPB * k
      in bindR (bread dev (BBLOCK (of_nat b) (sb s)) s) (\<lambda>(bp, s1).
         case find (bit_free (data_of bp s1)) [0..<min BPB (unat (sb_size (sb s1)) - b)] of
           Some bi \<Rightarrow>
             bindR (log_write bp (set_data bp (mark_used bi) s1)) (\<lambda>s2.
             bindR (brelse bp s2) (\<lambda>s3.
             bindR (bzero dev (of_nat (b + bi)) s3) (\<lambda>s4. Inr (of_nat (b + bi), s4))))
         | None \<Rightarrow> bindR (brelse bp s1) (balloc_loop ks dev)))"

definition balloc :: "u32 \<Rightarrow> 'a fsst_scheme \<Rightarrow> (u32 \<times> 'a fsst_scheme) res" where
  "balloc dev s = balloc_loop [0..<(unat (sb_size (sb s)) + BPB - 1) div BPB] dev s"

definition bfree :: "u32 \<Rightarrow> u32 \<Rightarrow> 'a fsst_scheme \<Rightarrow> 'a fsst_scheme res" where
  "bfree dev b s =
     bindR (bread dev (BBLOCK b (sb s)) s) (\<lambda>(bp, s1).
       let bi = unat b mod BPB
       in if bit_free (data_of bp s1) bi then Inl (Panic ''freeing free block'')
          else bindR (log_write bp (set_data bp (mark_free bi) s1)) (\<lambda>s2. brelse bp s2))"

section \<open>Inodes\<close>

text \<open>Byte offset of the inode in its block, and the fields of \<^verbatim>\<open>struct dinode\<close>.\<close>

definition dip_off :: "u32 \<Rightarrow> nat" where
  "dip_off inum = 64 * (unat inum mod IPB)"

definition load_dinode :: "u8 list \<Rightarrow> nat \<Rightarrow> inode \<Rightarrow> inode" where
  "load_dinode d o1 ip = ip\<lparr>i_type := get16 d o1, i_major := get16 d (o1 + 2), i_minor := get16 d (o1 + 4),
     i_nlink := get16 d (o1 + 6), i_size := get32 d (o1 + 8),
     i_addrs := map (\<lambda>i. get32 d (o1 + 12 + 4 * i)) [0..<Suc NDIRECT]\<rparr>"

definition store_dinode :: "inode \<Rightarrow> nat \<Rightarrow> u8 list \<Rightarrow> u8 list" where
  "store_dinode ip o1 d =
     (let d1 = put32 (put16 (put16 (put16 (put16 d o1 (i_type ip)) (o1 + 2) (i_major ip))
                 (o1 + 4) (i_minor ip)) (o1 + 6) (i_nlink ip)) (o1 + 8) (i_size ip)
      in fold (\<lambda>i d. put32 d (o1 + 12 + 4 * i) (i_addrs ip ! i)) [0..<Suc NDIRECT] d1)"

definition iinit :: "'a fsst_scheme \<Rightarrow> 'a fsst_scheme" where
  "iinit s = s\<lparr>itable := map (\<lambda>x. x\<lparr>i_lock := initsleeplock ''inode''\<rparr>) (itable s)\<rparr>"

definition iget :: "u32 \<Rightarrow> u32 \<Rightarrow> 'a fsst_scheme \<Rightarrow> (nat \<times> 'a fsst_scheme) res" where
  "iget dev inum s =
     (case first_idx (\<lambda>x. 0 < i_ref x \<and> i_dev x = dev \<and> i_inum x = inum) (itable s) of
        Some ip \<Rightarrow> Inr (ip, upd_inode ip (\<lambda>x. x\<lparr>i_ref := i_ref x + 1\<rparr>) s)
      | None \<Rightarrow>
          (case first_idx (\<lambda>x. i_ref x = 0) (itable s) of
             None \<Rightarrow> Inl (Panic ''iget: no inodes'')
           | Some ip \<Rightarrow> Inr (ip, upd_inode ip (\<lambda>x. x\<lparr>i_dev := dev, i_inum := inum, i_ref := 1,
                                   i_valid := False\<rparr>) s)))"

primrec ialloc_loop :: "nat list \<Rightarrow> u32 \<Rightarrow> u16 \<Rightarrow> 'a fsst_scheme \<Rightarrow> (nat option \<times> 'a fsst_scheme) res" where
  "ialloc_loop [] dev ty s = Inr (None, s)"
| "ialloc_loop (k # ks) dev ty s =
     (let inum = of_nat k; o1 = dip_off inum
      in bindR (bread dev (IBLOCK inum (sb s)) s) (\<lambda>(bp, s1).
         if get16 (data_of bp s1) o1 = 0
         then bindR (log_write bp (set_data bp (\<lambda>d. put16 (blit d o1 (replicate 64 0)) o1 ty) s1)) (\<lambda>s2.
              bindR (brelse bp s2) (\<lambda>s3.
              bindR (iget dev inum s3) (\<lambda>(ip, s4). Inr (Some ip, s4))))
         else bindR (brelse bp s1) (ialloc_loop ks dev ty)))"

definition ialloc :: "u32 \<Rightarrow> u16 \<Rightarrow> 'a fsst_scheme \<Rightarrow> (nat option \<times> 'a fsst_scheme) res" where
  "ialloc dev ty s = ialloc_loop [1..<unat (sb_ninodes (sb s))] dev ty s"

definition iupdate :: "nat \<Rightarrow> 'a fsst_scheme \<Rightarrow> 'a fsst_scheme res" where
  "iupdate ip s =
     bindR (bread (i_dev (inode_at ip s)) (IBLOCK (i_inum (inode_at ip s)) (sb s)) s) (\<lambda>(bp, s1).
       let x = inode_at ip s1
       in bindR (log_write bp (set_data bp (store_dinode x (dip_off (i_inum x))) s1)) (\<lambda>s2. brelse bp s2))"

definition idup :: "nat \<Rightarrow> 'a fsst_scheme \<Rightarrow> 'a fsst_scheme" where
  "idup ip s = upd_inode ip (\<lambda>x. x\<lparr>i_ref := i_ref x + 1\<rparr>) s"

definition ilock :: "nat \<Rightarrow> 'a fsst_scheme \<Rightarrow> 'a fsst_scheme res" where
  "ilock ip s =
     (if i_ref (inode_at ip s) < 1 then Inl (Panic ''ilock'')
      else bindR (acquiresleep (InodeLockChan ip) (curpid s) (i_lock (inode_at ip s))) (\<lambda>lk.
        let s1 = upd_inode ip (\<lambda>x. x\<lparr>i_lock := lk\<rparr>) s
        in if \<not> i_valid (inode_at ip s1)
           then bindR (bread (i_dev (inode_at ip s1)) (IBLOCK (i_inum (inode_at ip s1)) (sb s1)) s1) (\<lambda>(bp, s2).
                  let s3 = upd_inode ip (load_dinode (data_of bp s2) (dip_off (i_inum (inode_at ip s2)))) s2
                  in bindR (brelse bp s3) (\<lambda>s4.
                     let s5 = upd_inode ip (\<lambda>x. x\<lparr>i_valid := True\<rparr>) s4
                     in if i_type (inode_at ip s5) = 0 then Inl (Panic ''ilock: no type'') else Inr s5))
           else Inr s1))"

definition iunlock :: "nat \<Rightarrow> 'a fsst_scheme \<Rightarrow> 'a fsst_scheme res" where
  "iunlock ip s =
     (if \<not> holdingsleep (curpid s) (i_lock (inode_at ip s)) \<or> i_ref (inode_at ip s) < 1
      then Inl (Panic ''iunlock'')
      else Inr ((upd_inode ip (\<lambda>x. x\<lparr>i_lock := releasesleep (i_lock x)\<rparr>) s)
             \<lparr>woken := InodeLockChan ip # woken s\<rparr>))"

subsection \<open>Content\<close>

text \<open>A direct block: the loop bodies of \<^verbatim>\<open>itrunc()\<close>.\<close>

definition trunc_direct :: "nat \<Rightarrow> nat \<Rightarrow> 'a fsst_scheme \<Rightarrow> 'a fsst_scheme res" where
  "trunc_direct ip i s =
     (let x = inode_at ip s
      in if i_addrs x ! i \<noteq> 0
         then bindR (bfree (i_dev x) (i_addrs x ! i) s) (\<lambda>s1.
                Inr (upd_inode ip (\<lambda>x. x\<lparr>i_addrs := (i_addrs x)[i := 0]\<rparr>) s1))
         else Inr s)"

definition trunc_indirect :: "nat \<Rightarrow> nat \<Rightarrow> nat \<Rightarrow> 'a fsst_scheme \<Rightarrow> 'a fsst_scheme res" where
  "trunc_indirect ip bp j s =
     (let a = get32 (data_of bp s) (4 * j)
      in if a \<noteq> 0 then bfree (i_dev (inode_at ip s)) a s else Inr s)"

definition itrunc :: "nat \<Rightarrow> 'a fsst_scheme \<Rightarrow> 'a fsst_scheme res" where
  "itrunc ip s =
     bindR (foldR (trunc_direct ip) [0..<NDIRECT] s) (\<lambda>s1.
     bindR (let x = inode_at ip s1
            in if i_addrs x ! NDIRECT \<noteq> 0
               then bindR (bread (i_dev x) (i_addrs x ! NDIRECT) s1) (\<lambda>(bp, s2).
                    bindR (foldR (trunc_indirect ip bp) [0..<NINDIRECT] s2) (\<lambda>s3.
                    bindR (brelse bp s3) (\<lambda>s4.
                    bindR (bfree (i_dev (inode_at ip s4)) (i_addrs (inode_at ip s4) ! NDIRECT) s4) (\<lambda>s5.
                      Inr (upd_inode ip (\<lambda>x. x\<lparr>i_addrs := (i_addrs x)[NDIRECT := 0]\<rparr>) s5)))))
               else Inr s1) (\<lambda>s6.
     iupdate ip (upd_inode ip (\<lambda>x. x\<lparr>i_size := 0\<rparr>) s6)))"

definition iput :: "nat \<Rightarrow> 'a fsst_scheme \<Rightarrow> 'a fsst_scheme res" where
  "iput ip s =
     bindR (let x = inode_at ip s
            in if i_ref x = 1 \<and> i_valid x \<and> i_nlink x = 0
               then bindR (acquiresleep (InodeLockChan ip) (curpid s) (i_lock x)) (\<lambda>lk.
                    bindR (itrunc ip (upd_inode ip (\<lambda>x. x\<lparr>i_lock := lk\<rparr>) s)) (\<lambda>s1.
                    bindR (iupdate ip (upd_inode ip (\<lambda>x. x\<lparr>i_type := 0\<rparr>) s1)) (\<lambda>s2.
                      Inr ((upd_inode ip (\<lambda>x. x\<lparr>i_valid := False, i_lock := releasesleep (i_lock x)\<rparr>) s2)
                             \<lparr>woken := InodeLockChan ip # woken s2\<rparr>))))
               else Inr s) (\<lambda>s3.
     Inr (upd_inode ip (\<lambda>x. x\<lparr>i_ref := i_ref x - 1\<rparr>) s3))"

definition iunlockput :: "nat \<Rightarrow> 'a fsst_scheme \<Rightarrow> 'a fsst_scheme res" where
  "iunlockput ip s = bindR (iunlock ip s) (iput ip)"

text \<open>The loop body of \<^verbatim>\<open>ireclaim()\<close> for inode \<open>k\<close>.\<close>

definition ireclaim_step :: "u32 \<Rightarrow> nat \<Rightarrow> 'a fsst_scheme \<Rightarrow> 'a fsst_scheme res" where
  "ireclaim_step dev k s =
     (let inum = of_nat k
      in bindR (bread dev (IBLOCK inum (sb s)) s) (\<lambda>(bp, s1).
         let d = data_of bp s1; o1 = dip_off inum
         in bindR (if get16 d o1 \<noteq> 0 \<and> get16 d (o1 + 6) = 0
                   then bindR (iget dev inum s1) (\<lambda>(ip, s2). Inr (Some ip, s2)) else Inr (None, s1)) (\<lambda>(ipo, s3).
            bindR (brelse bp s3) (\<lambda>s4.
              case ipo of None \<Rightarrow> Inr s4
              | Some ip \<Rightarrow> bindR (begin_op s4) (\<lambda>s5. bindR (ilock ip s5) (\<lambda>s6. bindR (iunlock ip s6) (\<lambda>s7.
                             bindR (iput ip s7) end_op)))))))"

definition ireclaim :: "u32 \<Rightarrow> 'a fsst_scheme \<Rightarrow> 'a fsst_scheme res" where
  "ireclaim dev s = foldR (ireclaim_step dev) [1..<unat (sb_ninodes (sb s))] s"

definition fsinit :: "u32 \<Rightarrow> 'a fsst_scheme \<Rightarrow> 'a fsst_scheme res" where
  "fsinit dev s =
     bindR (readsb dev s) (\<lambda>s1.
       if sb_magic (sb s1) \<noteq> FSMAGIC then Inl (Panic ''invalid file system'')
       else bindR (initlog dev (sb s1) s1) (ireclaim dev))"

definition bmap :: "nat \<Rightarrow> u32 \<Rightarrow> 'a fsst_scheme \<Rightarrow> (u32 \<times> 'a fsst_scheme) res" where
  "bmap ip bn s =
     (let x = inode_at ip s; n = unat bn
      in if n < NDIRECT then
           if i_addrs x ! n = 0
           then bindR (balloc (i_dev x) s) (\<lambda>(addr, s1).
                  if addr = 0 then Inr (0, s1)
                  else Inr (addr, upd_inode ip (\<lambda>x. x\<lparr>i_addrs := (i_addrs x)[n := addr]\<rparr>) s1))
           else Inr (i_addrs x ! n, s)
         else if n - NDIRECT < NINDIRECT then
           bindR (if i_addrs x ! NDIRECT = 0
                  then bindR (balloc (i_dev x) s) (\<lambda>(addr, s1).
                         if addr = 0 then Inr (0, s1)
                         else Inr (addr, upd_inode ip (\<lambda>x. x\<lparr>i_addrs := (i_addrs x)[NDIRECT := addr]\<rparr>) s1))
                  else Inr (i_addrs x ! NDIRECT, s)) (\<lambda>(addr, s2).
             if addr = 0 then Inr (0, s2)
             else bindR (bread (i_dev (inode_at ip s2)) addr s2) (\<lambda>(bp, s3).
                    let a = get32 (data_of bp s3) (4 * (n - NDIRECT))
                    in bindR (if a = 0
                              then bindR (balloc (i_dev (inode_at ip s3)) s3) (\<lambda>(addr, s4).
                                     if addr \<noteq> 0
                                     then bindR (log_write bp (set_data bp (\<lambda>d. put32 d (4 * (n - NDIRECT)) addr) s4))
                                            (\<lambda>s5. Inr (addr, s5))
                                     else Inr (0, s4))
                              else Inr (a, s3)) (\<lambda>(addr, s6).
                       bindR (brelse bp s6) (\<lambda>s7. Inr (addr, s7)))))
         else Inl (Panic ''bmap: out of range''))"

definition stati :: "nat \<Rightarrow> 'a fsst_scheme \<Rightarrow> stat" where
  "stati ip s =
     (let x = inode_at ip s
      in \<lparr>st_dev = i_dev x, st_ino = i_inum x, st_type = i_type x, st_nlink = i_nlink x, st_size = ucast (i_size x)\<rparr>)"

text \<open>
  The loops of \<^verbatim>\<open>readi()\<close> and \<^verbatim>\<open>writei()\<close>. The argument \<open>r\<close> is \<^verbatim>\<open>n - tot\<close>, the number of bytes to go;
  every round copies at least one.
\<close>

definition blk_bytes :: "u32 \<Rightarrow> nat \<Rightarrow> nat" where
  "blk_bytes off r = min r (BSIZE - unat off mod BSIZE)"

lemma blk_bytes_pos: "0 < r \<Longrightarrow> 0 < blk_bytes off r"
  by (simp add: blk_bytes_def)

function readi_loop ::
  "'m sink \<Rightarrow> nat \<Rightarrow> u64 \<Rightarrow> u32 \<Rightarrow> nat \<Rightarrow> u32 \<Rightarrow> 'a fsst_scheme \<Rightarrow> 'm \<Rightarrow> (i32 \<times> 'a fsst_scheme \<times> 'm) res" where
  "readi_loop out ip dst off r tot s m =
     (if r = 0 then Inr (tot, s, m)
      else bindR (bmap ip (off div of_nat BSIZE) s) (\<lambda>(addr, s1).
        if addr = 0 then Inr (tot, s1, m)
        else bindR (bread (i_dev (inode_at ip s1)) addr s1) (\<lambda>(bp, s2).
          let k = blk_bytes off r
          in bindR (out dst (slice (data_of bp s2) (unat off mod BSIZE) k) m) (\<lambda>(e, m1).
             if e = - 1 then bindR (brelse bp s2) (\<lambda>s3. Inr (- 1, s3, m1))
             else bindR (brelse bp s2) (\<lambda>s3.
               readi_loop out ip (dst + of_nat k) (off + of_nat k) (r - k) (tot + of_nat k) s3 m1)))))"
  by pat_completeness auto

termination
  by (relation "measure (\<lambda>(out, ip, dst, off, r, tot, s, m). r)") (auto simp: blk_bytes_pos)

declare readi_loop.simps [simp del]

definition readi ::
  "'m sink \<Rightarrow> nat \<Rightarrow> u64 \<Rightarrow> u32 \<Rightarrow> u32 \<Rightarrow> 'a fsst_scheme \<Rightarrow> 'm \<Rightarrow> (i32 \<times> 'a fsst_scheme \<times> 'm) res" where
  "readi out ip dst off n s m =
     (let sz = i_size (inode_at ip s)
      in if sz < off \<or> off + n < off then Inr (0, s, m)
         else let n' = (if sz < off + n then sz - off else n)
              in readi_loop out ip dst off (unat n') 0 s m)"

text \<open>
  \<open>writei_loop\<close> returns the bytes written and the final offset. A copy that fails may have stored
  some bytes into the buffer, which is then released without being logged.
\<close>

function writei_loop ::
  "'m source \<Rightarrow> nat \<Rightarrow> u64 \<Rightarrow> u32 \<Rightarrow> nat \<Rightarrow> u32 \<Rightarrow> 'a fsst_scheme \<Rightarrow> 'm \<Rightarrow> (u32 \<times> u32 \<times> 'a fsst_scheme \<times> 'm) res" where
  "writei_loop inp ip src off r tot s m =
     (if r = 0 then Inr (tot, off, s, m)
      else bindR (bmap ip (off div of_nat BSIZE) s) (\<lambda>(addr, s1).
        if addr = 0 then Inr (tot, off, s1, m)
        else bindR (bread (i_dev (inode_at ip s1)) addr s1) (\<lambda>(bp, s2).
          let k = blk_bytes off r
          in bindR (inp src k m) (\<lambda>(e, bs, m1).
             let s3 = set_data bp (\<lambda>d. blit d (unat off mod BSIZE) bs) s2
             in if e = - 1 then bindR (brelse bp s3) (\<lambda>s4. Inr (tot, off, s4, m1))
                else bindR (log_write bp s3) (\<lambda>s4. bindR (brelse bp s4) (\<lambda>s5.
                  writei_loop inp ip (src + of_nat k) (off + of_nat k) (r - k) (tot + of_nat k) s5 m1))))))"
  by pat_completeness auto

termination
  by (relation "measure (\<lambda>(inp, ip, src, off, r, tot, s, m). r)") (auto simp: blk_bytes_pos)

declare writei_loop.simps [simp del]

definition writei ::
  "'m source \<Rightarrow> nat \<Rightarrow> u64 \<Rightarrow> u32 \<Rightarrow> u32 \<Rightarrow> 'a fsst_scheme \<Rightarrow> 'm \<Rightarrow> (i32 \<times> 'a fsst_scheme \<times> 'm) res" where
  "writei inp ip src off n s m =
     (if i_size (inode_at ip s) < off \<or> off + n < off then Inr (- 1, s, m)
      else if of_nat (MAXFILE * BSIZE) < off + n then Inr (- 1, s, m)
      else bindR (writei_loop inp ip src off (unat n) 0 s m) (\<lambda>(tot, off', s1, m1).
        let s2 = (if i_size (inode_at ip s1) < off' then upd_inode ip (\<lambda>x. x\<lparr>i_size := off'\<rparr>) s1 else s1)
        in bindR (iupdate ip s2) (\<lambda>s3. Inr (tot, s3, m1))))"

section \<open>Directories\<close>

text \<open>\<^verbatim>\<open>strncmp()\<close> and \<^verbatim>\<open>strncpy()\<close> on byte lists; past the end of a list is a NUL.\<close>

definition byte_at :: "u8 list \<Rightarrow> nat \<Rightarrow> u8" where
  "byte_at xs i = (if i < length xs then xs ! i else 0)"

primrec strncmp_eq :: "nat \<Rightarrow> nat \<Rightarrow> u8 list \<Rightarrow> u8 list \<Rightarrow> bool" where
  "strncmp_eq 0 i p q = True"
| "strncmp_eq (Suc n) i p q =
     (if byte_at p i \<noteq> 0 \<and> byte_at p i = byte_at q i then strncmp_eq n (Suc i) p q
      else byte_at p i = byte_at q i)"

definition namecmp_eq :: "u8 list \<Rightarrow> u8 list \<Rightarrow> bool" where
  "namecmp_eq s t = strncmp_eq DIRSIZ 0 s t"

definition cstr :: "u8 list \<Rightarrow> u8 list" where
  "cstr xs = takeWhile (\<lambda>c. c \<noteq> 0) xs"

text \<open>The name field that \<^verbatim>\<open>strncpy(de.name, name, DIRSIZ)\<close> leaves: the string, padded with NULs.\<close>

definition pad_name :: "u8 list \<Rightarrow> u8 list" where
  "pad_name name = (let n = take DIRSIZ (cstr name) in n @ replicate (DIRSIZ - length n) 0)"

definition dirent_offs :: "nat \<Rightarrow> u32 list" where
  "dirent_offs sz = map (\<lambda>k. of_nat (16 * k)) [0..<(sz + 15) div 16]"

primrec dirlookup_loop ::
  "u32 list \<Rightarrow> nat \<Rightarrow> u8 list \<Rightarrow> 'a fsst_scheme \<Rightarrow> ((nat \<times> u32) option \<times> 'a fsst_scheme) res" where
  "dirlookup_loop [] dp name s = Inr (None, s)"
| "dirlookup_loop (off # offs) dp name s =
     bindR (readi ksink dp 0 off 16 s (replicate 16 0)) (\<lambda>(r, s1, de).
       if r \<noteq> 16 then Inl (Panic ''dirlookup read'')
       else if get16 de 0 = 0 then dirlookup_loop offs dp name s1
       else if namecmp_eq name (drop 2 de)
       then bindR (iget (i_dev (inode_at dp s1)) (ucast (get16 de 0)) s1) (\<lambda>(ip, s2). Inr (Some (ip, off), s2))
       else dirlookup_loop offs dp name s1)"

definition dirlookup :: "nat \<Rightarrow> u8 list \<Rightarrow> 'a fsst_scheme \<Rightarrow> ((nat \<times> u32) option \<times> 'a fsst_scheme) res" where
  "dirlookup dp name s =
     (if i_type (inode_at dp s) \<noteq> T_DIR then Inl (Panic ''dirlookup not DIR'')
      else dirlookup_loop (dirent_offs (unat (i_size (inode_at dp s)))) dp name s)"

text \<open>The loop of \<^verbatim>\<open>dirlink()\<close>: the offset of the first free entry, the end of the directory if there is none.\<close>

primrec empty_dirent :: "u32 list \<Rightarrow> u32 \<Rightarrow> nat \<Rightarrow> 'a fsst_scheme \<Rightarrow> (u32 \<times> 'a fsst_scheme) res" where
  "empty_dirent [] eoff dp s = Inr (eoff, s)"
| "empty_dirent (off # offs) eoff dp s =
     bindR (readi ksink dp 0 off 16 s (replicate 16 0)) (\<lambda>(r, s1, de).
       if r \<noteq> 16 then Inl (Panic ''dirlink read'')
       else if get16 de 0 = 0 then Inr (off, s1)
       else empty_dirent offs (off + 16) dp s1)"

definition dirlink :: "nat \<Rightarrow> u8 list \<Rightarrow> u32 \<Rightarrow> 'a fsst_scheme \<Rightarrow> (i32 \<times> 'a fsst_scheme) res" where
  "dirlink dp name inum s =
     bindR (dirlookup dp name s) (\<lambda>(r, s1).
       case r of
         Some (ip, _) \<Rightarrow> bindR (iput ip s1) (\<lambda>s2. Inr (- 1, s2))
       | None \<Rightarrow>
           bindR (empty_dirent (dirent_offs (unat (i_size (inode_at dp s1)))) 0 dp s1) (\<lambda>(off, s2).
           let de = put16 (replicate 2 0 @ pad_name name) 0 (ucast inum)
           in bindR (writei ksource dp 0 off 16 s2 de) (\<lambda>(r, s3, _).
                if r \<noteq> 16 then Inr (- 1, s3) else Inr (0, s3))))"

section \<open>Paths\<close>

abbreviation (input) SLASH :: u8 where "SLASH \<equiv> 47"

definition skipelem :: "u8 list \<Rightarrow> u8 list \<Rightarrow> (u8 list \<times> u8 list) option" where
  "skipelem path name =
     (let p = dropWhile (\<lambda>c. c = SLASH) path
      in if p = [] then None
         else let e = takeWhile (\<lambda>c. c \<noteq> SLASH) p; len = length e;
                  name' = (if DIRSIZ \<le> len then blit name 0 (take DIRSIZ e) else blit name 0 (e @ [0]))
              in Some (dropWhile (\<lambda>c. c = SLASH) (drop len p), name'))"

lemma skipelem_shorter: "skipelem path name = Some (path', name') \<Longrightarrow> length path' < length path"
proof -
  assume a: "skipelem path name = Some (path', name')"
  let ?p = "dropWhile (\<lambda>c. c = SLASH) path" and ?e = "takeWhile (\<lambda>c. c \<noteq> SLASH) (dropWhile (\<lambda>c. c = SLASH) path)"
  have p: "?p \<noteq> []" and p': "path' = dropWhile (\<lambda>c. c = SLASH) (drop (length ?e) ?p)"
    using a by (auto simp: skipelem_def Let_def split: if_splits)
  have "0 < length ?e" using p hd_dropWhile [OF p] by (cases ?p) auto
  moreover have "length ?p \<le> length path" by (rule length_dropWhile_le)
  moreover have "length path' \<le> length (drop (length ?e) ?p)" unfolding p' by (rule length_dropWhile_le)
  moreover have "length (drop (length ?e) ?p) = length ?p - length ?e" by simp
  moreover have "0 < length ?p" using p by blast
  ultimately show ?thesis by linarith
qed

text \<open>
  The loop of \<^verbatim>\<open>namex()\<close>: the inode, if any, the last path element in \<^verbatim>\<open>name\<close>, and the state.
\<close>

function namex_loop ::
  "bool \<Rightarrow> u8 list \<Rightarrow> u8 list \<Rightarrow> nat \<Rightarrow> 'a fsst_scheme \<Rightarrow> (nat option \<times> u8 list \<times> 'a fsst_scheme) res" where
  "namex_loop parent path name ip s =
     (case skipelem path name of
        None \<Rightarrow> if parent then bindR (iput ip s) (\<lambda>s1. Inr (None, name, s1)) else Inr (Some ip, name, s)
      | Some (path', name') \<Rightarrow>
          bindR (ilock ip s) (\<lambda>s1.
            if i_type (inode_at ip s1) \<noteq> T_DIR
            then bindR (iunlockput ip s1) (\<lambda>s2. Inr (None, name', s2))
            else if parent \<and> path' = []
            then bindR (iunlock ip s1) (\<lambda>s2. Inr (Some ip, name', s2))
            else bindR (dirlookup ip name' s1) (\<lambda>(r, s2).
                   case r of
                     None \<Rightarrow> bindR (iunlockput ip s2) (\<lambda>s3. Inr (None, name', s3))
                   | Some (nxt, _) \<Rightarrow> bindR (iunlockput ip s2) (\<lambda>s3. namex_loop parent path' name' nxt s3))))"
  by pat_completeness auto

termination
  by (relation "measure (\<lambda>(parent, path, name, ip, s). length path)") (auto simp: skipelem_shorter)

declare namex_loop.simps [simp del]

definition namex ::
  "u8 list \<Rightarrow> bool \<Rightarrow> u8 list \<Rightarrow> nat \<Rightarrow> 'a fsst_scheme \<Rightarrow> (nat option \<times> u8 list \<times> 'a fsst_scheme) res" where
  "namex path parent name cwd s =
     bindR (if byte_at path 0 = SLASH then iget ROOTDEV ROOTINO s else Inr (cwd, idup cwd s))
       (\<lambda>(ip, s1). namex_loop parent path name ip s1)"

definition namei :: "u8 list \<Rightarrow> nat \<Rightarrow> 'a fsst_scheme \<Rightarrow> (nat option \<times> 'a fsst_scheme) res" where
  "namei path cwd s = bindR (namex path False (replicate DIRSIZ 0) cwd s) (\<lambda>(ip, _, s1). Inr (ip, s1))"

definition nameiparent ::
  "u8 list \<Rightarrow> u8 list \<Rightarrow> nat \<Rightarrow> 'a fsst_scheme \<Rightarrow> (nat option \<times> u8 list \<times> 'a fsst_scheme) res" where
  "nameiparent path name cwd s = namex path True name cwd s"

end
