(* ===== verification/Pipe.thy ===== *)
theory Pipe
  imports Ring Fs
begin

text \<open>
  Pipes (\<^verbatim>\<open>kernel/pipe.c\<close>) between two users of one pipe; allocation, which involves the file table,
  is in theory File. The other side of \<^verbatim>\<open>copyin()\<close> and \<^verbatim>\<open>copyout()\<close> is a source or a sink as in theory
  Fs. The value of \<^verbatim>\<open>killed(myproc())\<close> is an argument; in \<^verbatim>\<open>pipewrite()\<close>, where another process can
  change it between two rounds of the loop, it is a function of the loop counter.

  \<^verbatim>\<open>pipewrite()\<close> and \<^verbatim>\<open>piperead()\<close> are run up to the point where they return or sleep: \<open>Done r\<close> is a
  return, \<open>Wait ch i\<close> a \<^verbatim>\<open>sleep()\<close> on \<open>ch\<close> with the loop counter at \<open>i\<close>. A thread that is woken up
  calls the same function again, with that \<open>i\<close>, on the pipe as it is then. The last component of a
  result are the channels passed to \<^verbatim>\<open>wakeup()\<close>.
\<close>

section \<open>Data and operations\<close>

abbreviation (input) PIPESIZE :: nat where "PIPESIZE \<equiv> 512"

record pipe =
  p_data :: "u8 list"
  nread :: u32
  nwrite :: u32
  readopen :: bool
  writeopen :: bool

datatype progress = Done i32 | Wait chan nat

definition pipeclose :: "u64 \<Rightarrow> bool \<Rightarrow> pipe \<Rightarrow> bool \<times> pipe \<times> chan list" where
  "pipeclose a writable p =
     (let (p1, ws) = (if writable then (p\<lparr>writeopen := False\<rparr>, [PipeReadChan a])
                      else (p\<lparr>readopen := False\<rparr>, [PipeWriteChan a]))
      in (\<not> readopen p1 \<and> \<not> writeopen p1, p1, ws))"

function pipewrite ::
  "'m source \<Rightarrow> u64 \<Rightarrow> (nat \<Rightarrow> bool) \<Rightarrow> u64 \<Rightarrow> int \<Rightarrow> nat \<Rightarrow> pipe \<Rightarrow> 'm \<Rightarrow> (progress \<times> pipe \<times> 'm \<times> chan list) res" where
  "pipewrite inp a kld addr n i p m =
     (if int i < n then
        if \<not> readopen p \<or> kld i then Inr (Done (- 1), p, m, [])
        else if nwrite p = nread p + of_nat PIPESIZE
        then Inr (Wait (PipeWriteChan a) i, p, m, [PipeReadChan a])
        else bindR (inp (addr + of_nat i) 1 m) (\<lambda>(e, bs, m1).
          if e = - 1 then Inr (Done (of_nat i), p, m1, [PipeReadChan a])
          else pipewrite inp a kld addr n (Suc i)
                 (p\<lparr>p_data := ring_put (p_data p) (nwrite p) (byte_at bs 0), nwrite := nwrite p + 1\<rparr>) m1)
      else Inr (Done (of_nat i), p, m, [PipeReadChan a]))"
  by pat_completeness auto

termination
  by (relation "measure (\<lambda>(inp, a, kld, addr, n, i, p, m). nat (n - int i))") auto

declare pipewrite.simps [simp del]

function piperead_loop ::
  "'m sink \<Rightarrow> u64 \<Rightarrow> int \<Rightarrow> nat \<Rightarrow> pipe \<Rightarrow> 'm \<Rightarrow> (i32 \<times> pipe \<times> 'm) res" where
  "piperead_loop out addr n i p m =
     (if int i < n then
        if nread p = nwrite p then Inr (of_nat i, p, m)
        else bindR (out (addr + of_nat i) [ring_get (p_data p) (nread p)] m) (\<lambda>(e, m1).
          if e = - 1 then Inr (if i = 0 then - 1 else of_nat i, p, m1)
          else piperead_loop out addr n (Suc i) (p\<lparr>nread := nread p + 1\<rparr>) m1)
      else Inr (of_nat i, p, m))"
  by pat_completeness auto

termination
  by (relation "measure (\<lambda>(out, addr, n, i, p, m). nat (n - int i))") auto

declare piperead_loop.simps [simp del]

definition piperead ::
  "'m sink \<Rightarrow> u64 \<Rightarrow> bool \<Rightarrow> u64 \<Rightarrow> int \<Rightarrow> pipe \<Rightarrow> 'm \<Rightarrow> (progress \<times> pipe \<times> 'm \<times> chan list) res" where
  "piperead out a kld addr n p m =
     (if nread p = nwrite p \<and> writeopen p
      then if kld then Inr (Done (- 1), p, m, []) else Inr (Wait (PipeReadChan a) 0, p, m, [])
      else bindR (piperead_loop out addr n 0 p m) (\<lambda>(i, p1, m1). Inr (Done i, p1, m1, [PipeWriteChan a])))"

section \<open>A pipe is a bounded queue\<close>

interpretation pipe_ring: ring "PIPESIZE"
  by unfold_locales simp_all

text \<open>The bytes in the pipe, and the invariant of its counters.\<close>

definition pipe_queue :: "pipe \<Rightarrow> u8 list" where
  "pipe_queue p = ring_list (p_data p) (nread p) (nwrite p)"

definition pipe_ok :: "pipe \<Rightarrow> bool" where
  "pipe_ok p \<longleftrightarrow> length (p_data p) = PIPESIZE \<and> unat (nwrite p - nread p) \<le> PIPESIZE"

lemma pipe_full_iff:
  assumes "pipe_ok p"
  shows "nwrite p = nread p + of_nat PIPESIZE \<longleftrightarrow> length (pipe_queue p) = PIPESIZE"
proof
  assume "nwrite p = nread p + of_nat PIPESIZE"
  then show "length (pipe_queue p) = PIPESIZE" by (simp add: pipe_queue_def)
next
  assume "length (pipe_queue p) = PIPESIZE"
  then have "unat (nwrite p - nread p) = unat (512 :: u32)" by (simp add: pipe_queue_def)
  then have "nwrite p - nread p = 512" by (simp only: word_unat_eq_iff)
  then show "nwrite p = nread p + of_nat PIPESIZE" by (simp add: algebra_simps)
qed

lemma pipe_push:
  assumes ok: "pipe_ok p" and nf: "nwrite p \<noteq> nread p + of_nat PIPESIZE"
    and p': "p' = p\<lparr>p_data := ring_put (p_data p) (nwrite p) c, nwrite := nwrite p + 1\<rparr>"
  shows "pipe_ok p'" "pipe_queue p' = pipe_queue p @ [c]"
proof -
  have lt: "unat (nwrite p - nread p) < PIPESIZE"
    using ok nf pipe_full_iff [OF ok] by (simp add: pipe_ok_def pipe_queue_def)
  have "unat (nwrite p + 1 - nread p) = Suc (unat (nwrite p - nread p))"
    using lt by (intro unat_diff_Suc) simp
  then show "pipe_ok p'" using ok lt by (simp add: pipe_ok_def p')
  show "pipe_queue p' = pipe_queue p @ [c]"
    using pipe_ring.ring_push [OF _ lt] ok by (simp add: pipe_queue_def p' pipe_ok_def)
qed

lemma pipe_pop:
  assumes ok: "pipe_ok p" and ne: "nread p \<noteq> nwrite p"
  shows "pipe_ok (p\<lparr>nread := nread p + 1\<rparr>)"
    "pipe_queue p = ring_get (p_data p) (nread p) # pipe_queue (p\<lparr>nread := nread p + 1\<rparr>)"
proof -
  show "pipe_ok (p\<lparr>nread := nread p + 1\<rparr>)"
    using ok unat_diff_pred [of "nwrite p" "nread p"] ne by (auto simp: pipe_ok_def)
  show "pipe_queue p = ring_get (p_data p) (nread p) # pipe_queue (p\<lparr>nread := nread p + 1\<rparr>)"
    using ring_pop [of "nwrite p" "nread p" "p_data p"] ne by (simp add: pipe_queue_def)
qed

lemma pipe_empty_iff: "pipe_queue p = [] \<longleftrightarrow> nread p = nwrite p"
  by (auto simp: pipe_queue_def ring_empty_iff)

section \<open>Properties\<close>

text \<open>
  User memory that can be read where \<open>f\<close> is defined, and written where \<open>g\<close> holds. Both keep the list
  of the bytes that went through.
\<close>

definition log_source :: "(u64 \<Rightarrow> u8 option) \<Rightarrow> u8 list source" where
  "log_source f addr n m = (case f addr of None \<Rightarrow> Inr (- 1, [], m) | Some c \<Rightarrow> Inr (0, [c], m @ [c]))"

definition log_sink :: "(u64 \<Rightarrow> bool) \<Rightarrow> u8 list sink" where
  "log_sink g addr bs m = (if g addr then Inr (0, m @ bs) else Inr (- 1, m))"

text \<open>Any number of readers and writers on one pipe, with all bytes sent and received so far.\<close>

inductive pipe_step :: "pipe \<times> u8 list \<times> u8 list \<Rightarrow> pipe \<times> u8 list \<times> u8 list \<Rightarrow> bool" where
  ps_write: "pipewrite (log_source f) a kld addr n i p sent = Inr (r, p', sent', ws) \<Longrightarrow>
     pipe_step (p, sent, rcvd) (p', sent', rcvd)"
| ps_read: "piperead (log_sink g) a kld addr n p rcvd = Inr (r, p', rcvd', ws) \<Longrightarrow>
     pipe_step (p, sent, rcvd) (p', sent, rcvd')"
| ps_close: "pipeclose a wr p = (fr, p', ws) \<Longrightarrow> pipe_step (p, sent, rcvd) (p', sent, rcvd)"

inductive pipe_reachable :: "pipe \<times> u8 list \<times> u8 list \<Rightarrow> bool" where
  pr_init: "pipe_ok p \<Longrightarrow> nread p = nwrite p \<Longrightarrow> pipe_reachable (p, [], [])"
| pr_step: "pipe_reachable s \<Longrightarrow> pipe_step s t \<Longrightarrow> pipe_reachable t"

lemma pipewrite_fifo:
  "pipe_ok p \<Longrightarrow> pipewrite (log_source f) a kld addr n i p sent = Inr (r, p', sent', ws) \<Longrightarrow>
   pipe_ok p' \<and> (\<exists>bs. sent' = sent @ bs \<and> pipe_queue p' = pipe_queue p @ bs)"
proof (induction "nat (n - int i)" arbitrary: i p sent)
  case 0
  then show ?case by (simp add: pipewrite.simps)
next
  case (Suc d)
  have i: "int i < n" using Suc.hyps(2) by linarith
  show ?case
  proof (cases "\<not> readopen p \<or> kld i \<or> nwrite p = nread p + of_nat PIPESIZE \<or> f (addr + of_nat i) = None")
    case True
    then show ?thesis
      using Suc.prems i by (auto simp: pipewrite.simps [of "log_source f" a kld addr n i] log_source_def split: if_splits)
  next
    case False
    then obtain c where c: "f (addr + of_nat i) = Some c" by auto
    let ?p = "p\<lparr>p_data := ring_put (p_data p) (nwrite p) c, nwrite := nwrite p + 1\<rparr>"
    have "pipewrite (log_source f) a kld addr n (Suc i) ?p (sent @ [c]) = Inr (r, p', sent', ws)"
      using Suc.prems(2) i False c
      by (simp add: pipewrite.simps [of "log_source f" a kld addr n i] log_source_def byte_at_def)
    moreover have "pipe_ok ?p" "pipe_queue ?p = pipe_queue p @ [c]"
      using pipe_push [OF Suc.prems(1) _ refl] False by auto
    moreover have "d = nat (n - int (Suc i))" using Suc.hyps(2) by simp
    ultimately show ?thesis using Suc.hyps(1) [of "Suc i" ?p "sent @ [c]"] by auto
  qed
qed

lemma piperead_loop_fifo:
  "pipe_ok p \<Longrightarrow> piperead_loop (log_sink g) addr n i p rcvd = Inr (r, p', rcvd') \<Longrightarrow>
   pipe_ok p' \<and> (\<exists>bs. rcvd' = rcvd @ bs \<and> pipe_queue p = bs @ pipe_queue p')"
proof (induction "nat (n - int i)" arbitrary: i p rcvd)
  case 0
  then show ?case by (simp add: piperead_loop.simps)
next
  case (Suc d)
  have i: "int i < n" using Suc.hyps(2) by linarith
  show ?case
  proof (cases "nread p = nwrite p \<or> \<not> g (addr + of_nat i)")
    case True
    then show ?thesis
      using Suc.prems i by (auto simp: piperead_loop.simps [of "log_sink g" addr n i] log_sink_def split: if_splits)
  next
    case False
    let ?c = "ring_get (p_data p) (nread p)" and ?p = "p\<lparr>nread := nread p + 1\<rparr>"
    have "piperead_loop (log_sink g) addr n (Suc i) ?p (rcvd @ [?c]) = Inr (r, p', rcvd')"
      using Suc.prems(2) i False by (simp add: piperead_loop.simps [of "log_sink g" addr n i] log_sink_def)
    moreover have "pipe_ok ?p" "pipe_queue p = ?c # pipe_queue ?p" using pipe_pop [OF Suc.prems(1)] False by auto
    moreover have "d = nat (n - int (Suc i))" using Suc.hyps(2) by simp
    ultimately show ?thesis using Suc.hyps(1) [of "Suc i" ?p "rcvd @ [?c]"] by auto
  qed
qed

lemma pipe_step_inv:
  "pipe_step s t \<Longrightarrow> pipe_ok (fst s) \<Longrightarrow> fst (snd s) = snd (snd s) @ pipe_queue (fst s) \<Longrightarrow>
   pipe_ok (fst t) \<and> fst (snd t) = snd (snd t) @ pipe_queue (fst t)"
proof (induction rule: pipe_step.induct)
  case (ps_write f a kld addr n i p sent r p' sent' ws rcvd)
  then show ?case using pipewrite_fifo [OF _ ps_write(1)] by auto
next
  case (ps_read g a kld addr n p rcvd r p' rcvd' ws sent)
  then show ?case
    using piperead_loop_fifo [of p g addr n 0 rcvd] by (fastforce simp: piperead_def split: if_splits)
next
  case (ps_close a wr p fr p' ws sent rcvd)
  then show ?case by (auto simp: pipeclose_def pipe_ok_def pipe_queue_def split: if_splits)
qed

text \<open>
  Claim C21. A pipe neither loses nor duplicates nor reorders bytes. In every interleaving of calls of
  \<^verbatim>\<open>pipewrite()\<close>, \<^verbatim>\<open>piperead()\<close> and \<^verbatim>\<open>pipeclose()\<close>, with any user memory behind them, the bytes sent so
  far are the bytes received so far followed by the at most \<^verbatim>\<open>PIPESIZE\<close> bytes in the buffer, whatever
  the counters are and also when they wrap around.
\<close>

theorem pipe_is_fifo:
  assumes "pipe_reachable (p, sent, rcvd)"
  shows "sent = rcvd @ pipe_queue p \<and> length (pipe_queue p) \<le> PIPESIZE"
proof -
  have "pipe_ok (fst s) \<and> fst (snd s) = snd (snd s) @ pipe_queue (fst s)" if "pipe_reachable s" for s
    using that
  proof (induction rule: pipe_reachable.induct)
    case (pr_init p)
    then show ?case using pipe_empty_iff [of p] by simp
  next
    case (pr_step s t)
    then show ?case using pipe_step_inv by blast
  qed
  from this [OF assms] show ?thesis by (auto simp: pipe_ok_def pipe_queue_def)
qed

text \<open>A pipe whose counters are about to wrap around.\<close>

definition wrap_pipe :: pipe where
  "wrap_pipe = \<lparr>p_data = replicate PIPESIZE 0, nread = - 1, nwrite = - 1, readopen = True, writeopen = True\<rparr>"

theorem pipe_is_fifo_witness:
  "\<exists>p. pipe_reachable (p, [7, 7], []) \<and> pipe_queue p = [7, 7]"
proof -
  let ?p = "wrap_pipe\<lparr>p_data := ring_put (ring_put (replicate PIPESIZE 0) (- 1) 7) 0 7, nwrite := 1\<rparr>"
  have "pipe_reachable (wrap_pipe, [], [])"
    by (rule pr_init) (simp_all add: wrap_pipe_def pipe_ok_def)
  moreover have "pipewrite (log_source (\<lambda>_. Some 7)) 0 (\<lambda>_. False) 0 2 0 wrap_pipe [] = Inr (Done 2, ?p, [7, 7], [PipeReadChan 0])"
    by (simp add: pipewrite.simps wrap_pipe_def log_source_def byte_at_def)
  ultimately have "pipe_reachable (?p, [7, 7], [])" by (blast intro: pr_step ps_write)
  then show ?thesis using pipe_is_fifo [of ?p "[7, 7]" "[]"] by auto
qed

text \<open>
  Claim C22. A process that is killed while it writes to a pipe returns without waking up the readers,
  although it has put bytes into the pipe: a reader that was asleep on the empty pipe stays asleep.
\<close>

theorem killed_writer_wakes_no_reader:
  assumes "pipe_ok p" "nread p = nwrite p" "readopen p" "f addr = Some c" "1 < n"
  shows "\<exists>p'. pipewrite (log_source f) a (\<lambda>i. i = 1) addr n 0 p [] = Inr (Done (- 1), p', [c], []) \<and> pipe_queue p' = [c]"
proof -
  let ?p = "p\<lparr>p_data := ring_put (p_data p) (nwrite p) c, nwrite := nwrite p + 1\<rparr>"
  have nf: "nwrite p \<noteq> nread p + of_nat PIPESIZE" using assms(2) by simp
  have "pipewrite (log_source f) a (\<lambda>i. i = 1) addr n 0 p [] = Inr (Done (- 1), ?p, [c], [])"
    using assms(2-5) by (simp add: pipewrite.simps [of _ _ _ _ _ 0] pipewrite.simps [of _ _ _ _ _ "Suc 0"] log_source_def byte_at_def)
  moreover have "pipe_queue ?p = [c]"
    using pipe_push(2) [OF assms(1) nf refl] pipe_empty_iff [of p] assms(2) by simp
  ultimately show ?thesis by blast
qed

theorem killed_writer_wakes_no_reader_witness:
  "\<exists>p'. pipewrite (log_source (\<lambda>_. Some 7)) 0 (\<lambda>i. i = 1) 0 2 0 wrap_pipe [] = Inr (Done (- 1), p', [7], []) \<and> pipe_queue p' = [7]"
  by (rule killed_writer_wakes_no_reader) (simp_all add: wrap_pipe_def pipe_ok_def)

end
