(* ===== verification/Console.thy ===== *)
theory Console
  imports Pipe
begin

text \<open>
  The console (\<^verbatim>\<open>kernel/console.c\<close>) and the UART driver under it (\<^verbatim>\<open>kernel/uart.c\<close>).

  Of the UART the model has the bytes written to its transmit register, in order (\<open>u_thr\<close>), the bytes
  that have arrived and were not read yet (\<open>u_rx\<close>), the transmitter-idle bit of its line status register
  (\<open>u_idle\<close>) and the values written to its control registers (\<open>u_ctl\<close>). The hardware sets \<open>u_rx\<close> and
  \<open>u_idle\<close>. \<^verbatim>\<open>uartputc_sync()\<close> polls until the transmitter is idle and then sends; the model has the
  send. As in theory Pipe, a function that may sleep is run up to the point where it returns or sleeps.
\<close>

section \<open>The UART driver\<close>

record uart =
  u_thr :: "u8 list"
  u_rx :: "u8 list"
  u_idle :: bool
  u_ctl :: "(nat \<times> u8) list"
  tx_busy :: bool
  panicked :: bool

definition uartinit :: "uart \<Rightarrow> uart" where
  "uartinit u = u\<lparr>u_ctl := u_ctl u @ [(1, 0x00), (3, 0x80), (0, 0x03), (1, 0x00), (3, 0x03), (2, 0x07), (1, 0x03)]\<rparr>"

text \<open>\<^verbatim>\<open>uartwrite()\<close>: the bytes not yet sent when it has to wait on \<^verbatim>\<open>tx_chan\<close>, none when it returns.\<close>

primrec uartwrite :: "u8 list \<Rightarrow> uart \<Rightarrow> u8 list \<times> uart" where
  "uartwrite [] u = ([], u)"
| "uartwrite (c # cs) u =
     (if tx_busy u then (c # cs, u) else uartwrite cs (u\<lparr>u_thr := u_thr u @ [c], tx_busy := True\<rparr>))"

definition uartputc_sync :: "u8 \<Rightarrow> uart \<Rightarrow> uart res" where
  "uartputc_sync c u = (if panicked u then Inl Spin else Inr (u\<lparr>u_thr := u_thr u @ [c]\<rparr>))"

definition uartgetc :: "uart \<Rightarrow> (u8 \<times> uart) option" where
  "uartgetc u = (case u_rx u of [] \<Rightarrow> None | c # cs \<Rightarrow> Some (c, u\<lparr>u_rx := cs\<rparr>))"

section \<open>The console\<close>

abbreviation (input) INPUT_BUF_SIZE :: nat where "INPUT_BUF_SIZE \<equiv> 128"
abbreviation (input) CTRL_D :: u8 where "CTRL_D \<equiv> 4"
abbreviation (input) CTRL_H :: u8 where "CTRL_H \<equiv> 8"
abbreviation (input) CTRL_P :: u8 where "CTRL_P \<equiv> 16"
abbreviation (input) CTRL_U :: u8 where "CTRL_U \<equiv> 21"
abbreviation (input) DELETE :: u8 where "DELETE \<equiv> 127"
abbreviation (input) NEWLINE :: u8 where "NEWLINE \<equiv> 10"
abbreviation (input) RETURN :: u8 where "RETURN \<equiv> 13"

record cons =
  c_buf :: "u8 list"
  c_r :: u32
  c_w :: u32
  c_e :: u32

text \<open>\<^verbatim>\<open>consputc()\<close>; \<open>None\<close> is the code \<^verbatim>\<open>BACKSPACE\<close>.\<close>

definition consputc :: "u8 option \<Rightarrow> uart \<Rightarrow> uart res" where
  "consputc c u =
     (case c of
        None \<Rightarrow> bindR (uartputc_sync 8 u) (\<lambda>u1. bindR (uartputc_sync 32 u1) (uartputc_sync 8))
      | Some c \<Rightarrow> uartputc_sync c u)"

lemma unat_pred_less: "e \<noteq> w \<Longrightarrow> unat (e - 1 - w :: u32) < unat (e - w)"
proof -
  assume "e \<noteq> w"
  then have "e - w \<noteq> 0" by simp
  then have u: "unat (e - w - 1) = unat (e - w) - 1" "0 < unat (e - w)" by (simp_all add: unat_minus_one unat_gt_0)
  have "e - 1 - w = e - w - 1" by simp
  then have "unat (e - 1 - w) = unat (e - w) - 1" using u(1) by (simp only:)
  then show ?thesis using u(2) by linarith
qed

function kill_line :: "cons \<Rightarrow> uart \<Rightarrow> (cons \<times> uart) res" where
  "kill_line k u =
     (if c_e k \<noteq> c_w k \<and> ring_get (c_buf k) (c_e k - 1) \<noteq> NEWLINE
      then bindR (consputc None u) (\<lambda>u1. kill_line (k\<lparr>c_e := c_e k - 1\<rparr>) u1)
      else Inr (k, u))"
  by pat_completeness auto

termination
  by (relation "measure (\<lambda>(k, u). unat (c_e k - c_w k))") (simp_all add: unat_pred_less)

declare kill_line.simps [simp del]

text \<open>\<^verbatim>\<open>consoleintr()\<close>: also the channels woken up. What \<^verbatim>\<open>procdump()\<close> prints on control-P is left out.\<close>

definition consoleintr :: "u8 \<Rightarrow> cons \<Rightarrow> uart \<Rightarrow> (cons \<times> uart \<times> chan list) res" where
  "consoleintr c k u =
     (if c = CTRL_P then Inr (k, u, [])
      else if c = CTRL_U then bindR (kill_line k u) (\<lambda>(k1, u1). Inr (k1, u1, []))
      else if c = CTRL_H \<or> c = DELETE then
        if c_e k \<noteq> c_w k
        then bindR (consputc None u) (\<lambda>u1. Inr (k\<lparr>c_e := c_e k - 1\<rparr>, u1, []))
        else Inr (k, u, [])
      else if c \<noteq> 0 \<and> c_e k - c_r k < of_nat INPUT_BUF_SIZE then
        let c = (if c = RETURN then NEWLINE else c)
        in bindR (consputc (Some c) u) (\<lambda>u1.
           let k1 = k\<lparr>c_buf := ring_put (c_buf k) (c_e k) c, c_e := c_e k + 1\<rparr>
           in if c = NEWLINE \<or> c = CTRL_D \<or> c_e k1 - c_r k1 = of_nat INPUT_BUF_SIZE
              then Inr (k1\<lparr>c_w := c_e k1\<rparr>, u1, [ConsChan])
              else Inr (k1, u1, []))
      else Inr (k, u, []))"

text \<open>The loop over the received characters at the end of \<^verbatim>\<open>uartintr()\<close>.\<close>

primrec rx_loop :: "u8 list \<Rightarrow> cons \<Rightarrow> uart \<Rightarrow> (cons \<times> uart \<times> chan list) res" where
  "rx_loop [] k u = Inr (k, u, [])"
| "rx_loop (c # cs) k u =
     bindR (consoleintr c k u) (\<lambda>(k1, u1, ws).
     bindR (rx_loop cs k1 u1) (\<lambda>(k2, u2, ws'). Inr (k2, u2, ws' @ ws)))"

definition uartintr :: "cons \<Rightarrow> uart \<Rightarrow> (cons \<times> uart \<times> chan list) res" where
  "uartintr k u =
     (let (u1, ws) = (if u_idle u then (u\<lparr>tx_busy := False\<rparr>, [TxChan]) else (u, []))
      in bindR (rx_loop (u_rx u1) k (u1\<lparr>u_rx := []\<rparr>)) (\<lambda>(k2, u2, ws'). Inr (k2, u2, ws' @ ws)))"

text \<open>
  \<^verbatim>\<open>consoleread()\<close> with \<open>n\<close> bytes to go of \<open>target\<close>: \<open>Wait ConsChan n\<close> when it has to sleep.
\<close>

function consoleread ::
  "'m sink \<Rightarrow> bool \<Rightarrow> nat \<Rightarrow> u64 \<Rightarrow> nat \<Rightarrow> cons \<Rightarrow> 'm \<Rightarrow> (progress \<times> cons \<times> 'm) res" where
  "consoleread out kld target dst n k m =
     (if 0 < n then
        if c_r k = c_w k then if kld then Inr (Done (- 1), k, m) else Inr (Wait ConsChan n, k, m)
        else let c = ring_get (c_buf k) (c_r k); k1 = k\<lparr>c_r := c_r k + 1\<rparr>
             in if c = CTRL_D
                then Inr (Done (of_nat (target - n)), if n < target then k else k1, m)
                else bindR (out dst [c] m) (\<lambda>(e, m1).
                  if e = - 1 then Inr (Done (of_nat (target - n)), k1, m1)
                  else if c = NEWLINE then Inr (Done (of_nat (target - (n - 1))), k1, m1)
                  else consoleread out kld target (dst + 1) (n - 1) k1 m1)
      else Inr (Done (of_nat (target - n)), k, m))"
  by pat_completeness auto

termination
  by (relation "measure (\<lambda>(out, kld, target, dst, n, k, m). n)") auto

declare consoleread.simps [simp del]

text \<open>
  \<^verbatim>\<open>consolewrite()\<close> copies batches of 32 bytes; \<open>CwWait i rest nn\<close> is a sleep of \<^verbatim>\<open>uartwrite()\<close> in the
  batch of \<open>nn\<close> bytes at \<open>i\<close>, with \<open>rest\<close> still to be sent.
\<close>

datatype cw_progress = CwDone i32 | CwWait nat "u8 list" nat

function consolewrite ::
  "'m source \<Rightarrow> u64 \<Rightarrow> nat \<Rightarrow> nat \<Rightarrow> uart \<Rightarrow> 'm \<Rightarrow> (cw_progress \<times> uart \<times> 'm) res" where
  "consolewrite inp src n i u m =
     (if i < n then
        let nn = min 32 (n - i)
        in bindR (inp (src + of_nat i) nn m) (\<lambda>(e, bs, m1).
           if e = - 1 then Inr (CwDone (of_nat i), u, m1)
           else let (rest, u1) = uartwrite bs u
                in if rest \<noteq> [] then Inr (CwWait i rest nn, u1, m1)
                   else consolewrite inp src n (i + nn) u1 m1)
      else Inr (CwDone (of_nat i), u, m))"
  by pat_completeness auto

termination
  by (relation "measure (\<lambda>(inp, src, n, i, u, m). n - i)") auto

declare consolewrite.simps [simp del]

text \<open>Going on after the transmitter has become free.\<close>

definition consolewrite_resume ::
  "'m source \<Rightarrow> u64 \<Rightarrow> nat \<Rightarrow> nat \<Rightarrow> u8 list \<Rightarrow> nat \<Rightarrow> uart \<Rightarrow> 'm \<Rightarrow> (cw_progress \<times> uart \<times> 'm) res" where
  "consolewrite_resume inp src n i rest nn u m =
     (let (rest', u1) = uartwrite rest u
      in if rest' \<noteq> [] then Inr (CwWait i rest' nn, u1, m) else consolewrite inp src n (i + nn) u1 m)"

text \<open>
  An entry of \<^verbatim>\<open>devsw\<close>: whether the read and the write function are set. The only ones there are are
  those of the console, under the major number \<^verbatim>\<open>CONSOLE\<close>.
\<close>

record devsw =
  dev_read :: bool
  dev_write :: bool

abbreviation (input) CONSOLE :: nat where "CONSOLE \<equiv> 1"

definition consoleinit :: "uart \<Rightarrow> devsw list \<Rightarrow> uart \<times> devsw list" where
  "consoleinit u dv = (uartinit u, dv[CONSOLE := \<lparr>dev_read = True, dev_write = True\<rparr>])"

section \<open>The line discipline\<close>

interpretation cons_ring: ring "INPUT_BUF_SIZE"
  by unfold_locales simp_all

text \<open>
  What the buffer holds: the committed input, which readers may take, and the line being edited.
\<close>

definition committed :: "cons \<Rightarrow> u8 list" where
  "committed k = ring_list (c_buf k) (c_r k) (c_w k)"

definition editing :: "cons \<Rightarrow> u8 list" where
  "editing k = ring_list (c_buf k) (c_w k) (c_e k)"

definition cons_ok :: "cons \<Rightarrow> bool" where
  "cons_ok k \<longleftrightarrow> length (c_buf k) = INPUT_BUF_SIZE \<and>
     unat (c_e k - c_r k) = unat (c_w k - c_r k) + unat (c_e k - c_w k) \<and> unat (c_e k - c_r k) \<le> INPUT_BUF_SIZE"

text \<open>The editor on the two lists.\<close>

definition edit :: "u8 \<Rightarrow> u8 list \<times> u8 list \<Rightarrow> u8 list \<times> u8 list" where
  "edit c st =
     (let (com, line) = st; c' = (if c = RETURN then NEWLINE else c)
      in if c = CTRL_P \<or> c = 0 then (com, line)
         else if c = CTRL_U then (com, rev (dropWhile (\<lambda>x. x \<noteq> NEWLINE) (rev line)))
         else if c = CTRL_H \<or> c = DELETE then (com, butlast line)
         else if length com + length line < INPUT_BUF_SIZE then
           if c' = NEWLINE \<or> c' = CTRL_D \<or> length com + length line + 1 = INPUT_BUF_SIZE
           then (com @ line @ [c'], []) else (com, line @ [c'])
         else (com, line))"

lemma cons_whole: "cons_ok k \<Longrightarrow> ring_list (c_buf k) (c_r k) (c_e k) = committed k @ editing k"
  by (simp add: cons_ok_def committed_def editing_def ring_split)

lemma cons_lengths:
  "length (committed k) = unat (c_w k - c_r k)" "length (editing k) = unat (c_e k - c_w k)"
  by (simp_all add: committed_def editing_def)

lemma editing_empty_iff: "editing k = [] \<longleftrightarrow> c_e k = c_w k"
  by (simp add: editing_def ring_empty_iff)

text \<open>Removing the last character of the line.\<close>

lemma cons_erase:
  assumes ok: "cons_ok k" and ne: "c_e k \<noteq> c_w k" and k': "k' = k\<lparr>c_e := c_e k - 1\<rparr>"
  shows "cons_ok k'" "committed k' = committed k" "editing k = editing k' @ [ring_get (c_buf k) (c_e k - 1)]"
proof -
  have nr: "c_e k \<noteq> c_r k"
  proof
    assume "c_e k = c_r k"
    then have "unat (c_e k - c_w k) = 0" using ok by (simp add: cons_ok_def)
    then show False using ne by (simp add: unat_eq_0)
  qed
  have u: "unat (c_e k - 1 - x) = unat (c_e k - x) - 1" "0 < unat (c_e k - x)" if "c_e k \<noteq> x" for x
  proof -
    have nz: "c_e k - x \<noteq> 0" using that by simp
    have "c_e k - 1 - x = c_e k - x - 1" by simp
    then show "unat (c_e k - 1 - x) = unat (c_e k - x) - 1" using unat_minus_one [OF nz] by (simp only:)
    show "0 < unat (c_e k - x)" using nz by (simp add: unat_gt_0)
  qed
  show "cons_ok k'" using ok u [OF nr] u [OF ne] by (auto simp: cons_ok_def k')
  show "committed k' = committed k" by (simp add: committed_def k')
  show "editing k = editing k' @ [ring_get (c_buf k) (c_e k - 1)]"
    using ring_last [OF ne] by (simp add: editing_def k')
qed

lemma consputc_ok:
  assumes "\<not> panicked u"
  obtains u' where "consputc c u = Inr u'" "\<not> panicked u'" "tx_busy u' = tx_busy u" "u_rx u' = u_rx u"
  using assms by (cases c) (auto simp: consputc_def uartputc_sync_def)

lemma kill_line_ok:
  "cons_ok k \<Longrightarrow> \<not> panicked u \<Longrightarrow>
   \<exists>k' u'. kill_line k u = Inr (k', u') \<and> cons_ok k' \<and> \<not> panicked u' \<and> committed k' = committed k \<and>
     editing k' = rev (dropWhile (\<lambda>x. x \<noteq> NEWLINE) (rev (editing k)))"
proof (induction k u rule: kill_line.induct)
  case (1 k u)
  show ?case
  proof (cases "c_e k \<noteq> c_w k \<and> ring_get (c_buf k) (c_e k - 1) \<noteq> NEWLINE")
    case True
    let ?k = "k\<lparr>c_e := c_e k - 1\<rparr>"
    obtain u1 where u1: "consputc None u = Inr u1" "\<not> panicked u1" by (rule consputc_ok [OF 1(3)])
    note er = cons_erase [OF 1(2) conjunct1 [OF True] refl]
    obtain k' u' where "kill_line ?k u1 = Inr (k', u')" "cons_ok k'" "\<not> panicked u'" "committed k' = committed ?k"
      "editing k' = rev (dropWhile (\<lambda>x. x \<noteq> NEWLINE) (rev (editing ?k)))"
      using 1(1) [OF True u1(1) er(1) u1(2)] by blast
    then show ?thesis
      using True er(2,3) u1(1) by (intro exI [of _ k'] exI [of _ u']) (simp add: kill_line.simps [of k u])
  next
    case False
    have "rev (dropWhile (\<lambda>x. x \<noteq> NEWLINE) (rev (editing k))) = editing k"
    proof (cases "c_e k = c_w k")
      case True
      then show ?thesis using editing_empty_iff [of k] by simp
    next
      case ne: False
      then show ?thesis using cons_erase(3) [OF 1(2) ne refl] False by simp
    qed
    moreover have "kill_line k u = Inr (k, u)" by (subst kill_line.simps) (simp only: if_not_P [OF False])
    ultimately show ?thesis using 1(2,3) by (intro exI [of _ k] exI [of _ u]) simp
  qed
qed

text \<open>Appending a character, when the buffer is not full.\<close>

lemma cons_append:
  assumes ok: "cons_ok k" and nf: "unat (c_e k - c_r k) < INPUT_BUF_SIZE"
    and k': "k' = k\<lparr>c_buf := ring_put (c_buf k) (c_e k) c, c_e := c_e k + 1\<rparr>"
  shows "cons_ok k'" "committed k' = committed k" "editing k' = editing k @ [c]"
proof -
  have len: "length (c_buf k) = INPUT_BUF_SIZE" using ok by (simp add: cons_ok_def)
  have e1: "unat (c_e k + 1 - c_r k) = Suc (unat (c_e k - c_r k))" using nf by (intro unat_diff_Suc) simp
  have e2: "unat (c_e k + 1 - c_w k) = Suc (unat (c_e k - c_w k))"
    using nf ok by (intro unat_diff_Suc) (simp add: cons_ok_def)
  show ok': "cons_ok k'" using ok nf e1 e2 by (simp add: cons_ok_def k')
  have "committed k' @ editing k' = committed k @ editing k @ [c]"
    using cons_ring.ring_push [OF len nf, of c] cons_whole [OF ok'] cons_whole [OF ok] by (simp add: k')
  moreover have "length (committed k') = length (committed k)" by (simp add: committed_def k')
  ultimately show "committed k' = committed k" "editing k' = editing k @ [c]" by auto
qed

lemma less_128: "x < 128 \<longleftrightarrow> unat (x :: u32) < INPUT_BUF_SIZE"
  by (simp add: word_less_nat_alt)

lemma eq_128: "x = 128 \<longleftrightarrow> unat (x :: u32) = INPUT_BUF_SIZE"
proof -
  have "x = 128 \<longleftrightarrow> unat x = unat (128 :: u32)" by (rule word_unat_eq_iff)
  then show ?thesis by simp
qed

text \<open>
  Claim C23. The console driver implements a line editor. On every character, whatever the counters of
  the circular buffer are, \<^verbatim>\<open>consoleintr()\<close> changes the committed input and the line being edited as
  \<open>edit\<close> does: backspace and kill-line never touch committed input, input that would overflow the
  buffer of \<^verbatim>\<open>INPUT_BUF_SIZE\<close> bytes is dropped, and a line is committed as a whole. It wakes up the
  readers whenever something was committed, and keeps the invariant of the counters.
\<close>

theorem consoleintr_is_line_editor:
  assumes ok: "cons_ok k" and np: "\<not> panicked u"
  shows "\<exists>k' u' ws. consoleintr c k u = Inr (k', u', ws) \<and> cons_ok k' \<and> \<not> panicked u' \<and>
    (committed k', editing k') = edit c (committed k, editing k) \<and>
    (ws = [ConsChan] \<or> ws = [] \<and> committed k' = committed k)"
proof -
  have sum: "unat (c_e k - c_r k) = length (committed k) + length (editing k)"
    using ok by (simp add: cons_ok_def cons_lengths)
  consider (nop) "c = CTRL_P" | (kill) "c = CTRL_U" | (bs) "c = CTRL_H \<or> c = DELETE"
    | (ch) "c \<noteq> CTRL_P" "c \<noteq> CTRL_U" "c \<noteq> CTRL_H" "c \<noteq> DELETE" by blast
  then show ?thesis
  proof cases
    case nop
    then show ?thesis using assms by (simp add: consoleintr_def edit_def)
  next
    case kill
    then show ?thesis using kill_line_ok [OF assms] by (auto simp: consoleintr_def edit_def)
  next
    case bs
    obtain u1 where u1: "consputc None u = Inr u1" "\<not> panicked u1" by (rule consputc_ok [OF np])
    show ?thesis
    proof (cases "c_e k = c_w k")
      case True
      then show ?thesis using assms bs editing_empty_iff [of k] by (auto simp: consoleintr_def edit_def)
    next
      case False
      then show ?thesis using assms bs u1 cons_erase [OF ok False refl] by (auto simp: consoleintr_def edit_def)
    qed
  next
    case ch
    let ?c = "if c = RETURN then NEWLINE else c"
    obtain u1 where u1: "consputc (Some ?c) u = Inr u1" "\<not> panicked u1" by (rule consputc_ok [OF np])
    show ?thesis
    proof (cases "c \<noteq> 0 \<and> unat (c_e k - c_r k) < INPUT_BUF_SIZE")
      case False
      then show ?thesis using assms ch sum by (auto simp: consoleintr_def edit_def less_128)
    next
      case True
      let ?k = "k\<lparr>c_buf := ring_put (c_buf k) (c_e k) ?c, c_e := c_e k + 1\<rparr>"
      note ap = cons_append [OF ok conjunct2 [OF True] refl, of ?c]
      have len: "unat (c_e k + 1 - c_r k) = length (committed k) + length (editing k) + 1"
        using ap(1) sum cons_lengths [of ?k] ap(2,3) by (simp add: cons_ok_def)
      let ?cm = "?c = NEWLINE \<or> ?c = CTRL_D \<or> length (committed k) + length (editing k) + 1 = INPUT_BUF_SIZE"
      have ci: "consoleintr c k u = Inr (if ?cm then (?k\<lparr>c_w := c_e k + 1\<rparr>, u1, [ConsChan]) else (?k, u1, []))"
        using ch True u1(1) len by (simp add: consoleintr_def Let_def less_128 eq_128)
      have ed: "edit c (committed k, editing k) =
          (if ?cm then (committed k @ editing k @ [?c], []) else (committed k, editing k @ [?c]))"
        using ch True sum by (simp add: edit_def)
      have cm: "cons_ok (?k\<lparr>c_w := c_e k + 1\<rparr>)" "committed (?k\<lparr>c_w := c_e k + 1\<rparr>) = committed k @ editing k @ [?c]"
        "editing (?k\<lparr>c_w := c_e k + 1\<rparr>) = []"
        using ap cons_whole [OF ap(1)] by (simp_all add: cons_ok_def committed_def editing_def ring_list_same)
      show ?thesis unfolding ci ed using ap cm u1(2) by (cases ?cm) (simp_all only: if_True if_False, auto)
    qed
  qed
qed

definition boot_cons :: cons where
  "boot_cons = \<lparr>c_buf = replicate INPUT_BUF_SIZE 0, c_r = 0, c_w = 0, c_e = 0\<rparr>"

definition idle_uart :: uart where
  "idle_uart = \<lparr>u_thr = [], u_rx = [], u_idle = True, u_ctl = [], tx_busy = False, panicked = False\<rparr>"

theorem consoleintr_is_line_editor_witness:
  "\<exists>k' u' ws. consoleintr 97 boot_cons idle_uart = Inr (k', u', ws) \<and> (committed k', editing k') = ([], [97])"
proof -
  have ok: "cons_ok boot_cons" "\<not> panicked idle_uart" and e: "committed boot_cons = []" "editing boot_cons = []"
    by (simp_all add: cons_ok_def boot_cons_def idle_uart_def committed_def editing_def ring_list_same)
  show ?thesis using consoleintr_is_line_editor [OF ok, of 97] by (auto simp: e edit_def)
qed

end
