(* ===== verification/Printk.thy ===== *)
theory Printk
  imports Console
begin

text \<open>
  Formatted output of the kernel (\<^verbatim>\<open>kernel/printk.c\<close>). A format is the list of its bytes, without the
  NUL. The variable arguments are a list of register values and strings; taking an argument that is not
  there, or of the other kind, is undefined in C. The lock \<^verbatim>\<open>pr.lock\<close> only keeps the output of two CPUs
  apart; a call is one step here.
\<close>

section \<open>Numbers\<close>

definition digits :: "u8 list" where
  "digits = [48, 49, 50, 51, 52, 53, 54, 55, 56, 57, 97, 98, 99, 100, 101, 102]"

text \<open>The bytes that the \<^verbatim>\<open>do ... while\<close> loop of \<^verbatim>\<open>printint()\<close> stores into \<^verbatim>\<open>buf\<close>; \<open>base\<close> is 10 or 16.\<close>

lemma div_base_less: "x div of_nat base \<noteq> 0 \<Longrightarrow> base \<in> {10, 16} \<Longrightarrow> unat (x div of_nat base :: u64) < unat x"
proof -
  assume a: "x div of_nat base \<noteq> 0" "base \<in> {10, 16}"
  then have b: "unat (of_nat base :: u64) = base" "2 \<le> base" by auto
  have "0 < unat (x div of_nat base)" using a(1) by (simp add: unat_gt_0)
  then have "0 < unat x div base" using b by (simp add: unat_div)
  then have "0 < unat x" by (cases "unat x") simp_all
  then have "unat x div base < unat x" using b by (intro div_less_dividend) simp_all
  then show ?thesis using b by (simp add: unat_div)
qed

function digit_loop :: "u64 \<Rightarrow> nat \<Rightarrow> u8 list" where
  "digit_loop x base =
     digits ! unat (x mod of_nat base) #
       (if x div of_nat base \<noteq> 0 \<and> base \<in> {10, 16} then digit_loop (x div of_nat base) base else [])"
  by pat_completeness auto

termination
  by (relation "measure (\<lambda>(x, base). unat x)") (auto simp: div_base_less)

declare digit_loop.simps [simp del]

text \<open>\<^verbatim>\<open>buf\<close> when the output starts, and what comes out.\<close>

definition printint_buf :: "u64 \<Rightarrow> nat \<Rightarrow> bool \<Rightarrow> u8 list" where
  "printint_buf xx base sign =
     (if sign \<and> sint xx < 0 then digit_loop (- xx) base @ [45] else digit_loop xx base)"

definition put_all :: "u8 list \<Rightarrow> uart \<Rightarrow> uart res" where
  "put_all cs u = foldR (\<lambda>c. consputc (Some c)) cs u"

definition printint :: "u64 \<Rightarrow> nat \<Rightarrow> bool \<Rightarrow> uart \<Rightarrow> uart res" where
  "printint xx base sign u = put_all (rev (printint_buf xx base sign)) u"

definition printptr :: "u64 \<Rightarrow> uart \<Rightarrow> uart res" where
  "printptr x u = put_all ([48, 120] @ map (\<lambda>i. digits ! unat (drop_bit 60 (push_bit (4 * i) x))) [0..<16]) u"

section \<open>Formats\<close>

datatype varg = AReg u64 | AStr "u8 list option"

datatype conv = CInt bool nat bool | CPtr | CChar | CString | CPercent | CStop | CUnknown

text \<open>
  The chain of tests on the characters after the percent sign: the conversion, and by how much \<^verbatim>\<open>i\<close> moves
  on. In \<open>CInt long base sign\<close> the argument has 64 bits if \<open>long\<close>, 32 otherwise.
\<close>

definition conversion :: "u8 \<Rightarrow> u8 \<Rightarrow> u8 \<Rightarrow> conv \<times> nat" where
  "conversion c0 c1 c2 =
     (if c0 = 100 then (CInt False 10 True, 0)
      else if c0 = 108 \<and> c1 = 100 then (CInt True 10 True, 1)
      else if c0 = 108 \<and> c1 = 108 \<and> c2 = 100 then (CInt True 10 True, 2)
      else if c0 = 117 then (CInt False 10 False, 0)
      else if c0 = 108 \<and> c1 = 117 then (CInt True 10 False, 1)
      else if c0 = 108 \<and> c1 = 108 \<and> c2 = 117 then (CInt True 10 False, 2)
      else if c0 = 120 then (CInt False 16 False, 0)
      else if c0 = 108 \<and> c1 = 120 then (CInt True 16 False, 1)
      else if c0 = 108 \<and> c1 = 108 \<and> c2 = 120 then (CInt True 16 False, 2)
      else if c0 = 112 then (CPtr, 0)
      else if c0 = 99 then (CChar, 0)
      else if c0 = 115 then (CString, 0)
      else if c0 = 37 then (CPercent, 0)
      else if c0 = 0 then (CStop, 0)
      else (CUnknown, 0))"

text \<open>\<^verbatim>\<open>va_arg(ap, int)\<close> and \<^verbatim>\<open>va_arg(ap, uint32)\<close> as the \<^verbatim>\<open>long long\<close> that \<^verbatim>\<open>printint()\<close> takes.\<close>

definition int_arg :: "bool \<Rightarrow> bool \<Rightarrow> u64 \<Rightarrow> u64" where
  "int_arg long sign v = (if long then v else if sign then scast (ucast v :: i32) else ucast (ucast v :: u32))"

fun print_conv :: "conv \<Rightarrow> u8 \<Rightarrow> varg list \<Rightarrow> uart \<Rightarrow> (varg list \<times> uart) res" where
  "print_conv (CInt long base sign) c0 (AReg v # ap) u =
     bindR (printint (int_arg long sign v) base sign u) (\<lambda>u1. Inr (ap, u1))"
| "print_conv CPtr c0 (AReg v # ap) u = bindR (printptr v u) (\<lambda>u1. Inr (ap, u1))"
| "print_conv CChar c0 (AReg v # ap) u =
     bindR (consputc (if (ucast v :: u32) = 0x100 then None else Some (ucast v)) u) (\<lambda>u1. Inr (ap, u1))"
| "print_conv CString c0 (AStr s # ap) u =
     bindR (put_all (case s of None \<Rightarrow> [40, 110, 117, 108, 108, 41] | Some s \<Rightarrow> cstr s) u) (\<lambda>u1. Inr (ap, u1))"
| "print_conv CPercent c0 ap u = bindR (put_all [37] u) (\<lambda>u1. Inr (ap, u1))"
| "print_conv CUnknown c0 ap u = bindR (put_all [37, c0] u) (\<lambda>u1. Inr (ap, u1))"
| "print_conv cv c0 ap u = Inl Undef"

lemma byte_at_nonzero: "byte_at xs 0 \<noteq> 0 \<Longrightarrow> 0 < length xs"
  by (auto simp: byte_at_def split: if_splits)

lemma byte_at_eq_nonzero: "byte_at xs 0 = c \<Longrightarrow> c \<noteq> 0 \<Longrightarrow> 0 < length xs"
  by (auto simp: byte_at_def split: if_splits)

function printk_loop :: "u8 list \<Rightarrow> varg list \<Rightarrow> uart \<Rightarrow> uart res" where
  "printk_loop fmt ap u =
     (let cx = byte_at fmt 0
      in if cx = 0 then Inr u
         else if cx \<noteq> 37 then bindR (consputc (Some cx) u) (\<lambda>u1. printk_loop (drop 1 fmt) ap u1)
         else let c0 = byte_at fmt 1; c1 = (if c0 \<noteq> 0 then byte_at fmt 2 else 0);
                  c2 = (if c1 \<noteq> 0 then byte_at fmt 3 else 0); cv = conversion c0 c1 c2
              in if fst cv = CStop then Inr u
                 else bindR (print_conv (fst cv) c0 ap u) (\<lambda>r. printk_loop (drop (2 + snd cv) fmt) (fst r) (snd r)))"
  by pat_completeness auto

termination
  by (relation "measure (\<lambda>(fmt, ap, u). length fmt)") (auto dest: byte_at_eq_nonzero byte_at_nonzero)

declare printk_loop.simps [simp del]

definition printk :: "u8 list \<Rightarrow> varg list \<Rightarrow> uart \<Rightarrow> uart res" where
  "printk fmt ap u = printk_loop fmt ap u"

text \<open>A string literal of the source as bytes.\<close>

definition bytes :: "string \<Rightarrow> u8 list" where
  "bytes s = map (\<lambda>c. of_nat (of_char c)) s"

text \<open>\<^verbatim>\<open>panic()\<close> up to its endless loop.\<close>

definition panic :: "u8 list \<Rightarrow> uart \<Rightarrow> uart res" where
  "panic s u =
     bindR (printk (bytes ''panic: '') [] u) (\<lambda>u1.
     bindR (printk (bytes ''%s'' @ [10]) [AStr (Some s)] u1) (\<lambda>u2. Inr (u2\<lparr>panicked := True\<rparr>)))"

section \<open>What is printed\<close>

text \<open>The number a string of digits stands for, most significant digit first.\<close>

definition digit_val :: "u8 \<Rightarrow> nat" where
  "digit_val c = (if c < 58 then unat c - 48 else unat c - 87)"

definition number :: "nat \<Rightarrow> u8 list \<Rightarrow> nat" where
  "number base cs = foldl (\<lambda>v c. base * v + digit_val c) 0 cs"

lemma number_snoc [simp]: "number base (cs @ [c]) = base * number base cs + digit_val c"
  by (simp add: number_def)

lemma digit_val_digits: "n < 16 \<Longrightarrow> digit_val (digits ! n) = n"
proof -
  have "list_all (\<lambda>n. digit_val (digits ! n) = n) [0..<16]" by code_simp
  then show "n < 16 \<Longrightarrow> digit_val (digits ! n) = n" by (simp add: list_all_iff del: upt_rec_numeral)
qed

text \<open>The loop leaves the digits of \<^verbatim>\<open>x\<close>, and no more of them than \<^verbatim>\<open>x\<close> has.\<close>

lemma digit_loop_number:
  assumes "base \<in> {10, 16}"
  shows "number base (rev (digit_loop x base)) = unat x"
  using assms
proof (induction x base rule: digit_loop.induct)
  case (1 x base)
  have b: "unat (of_nat base :: u64) = base" "0 < base" "base \<le> 16" using 1(2) by auto
  have d: "digit_val (digits ! unat (x mod of_nat base)) = unat x mod base"
    using b less_le_trans [OF mod_less_divisor [of base "unat x"]] by (subst digit_val_digits) (simp_all add: unat_mod)
  have q: "unat (x div of_nat base) = unat x div base" using b by (simp add: unat_div)
  show ?case
  proof (cases "x div of_nat base \<noteq> 0")
    case True
    then show ?thesis using 1 d q by (subst digit_loop.simps) simp
  next
    case False
    then have "unat x div base = 0" using q by simp
    then have "unat x = unat x mod base" using div_mult_mod_eq [of "unat x" base] by simp
    then show ?thesis using False d by (subst digit_loop.simps) (simp add: number_def)
  qed
qed

lemma digit_loop_nonempty [simp]: "digit_loop x base \<noteq> []"
  by (subst digit_loop.simps) simp

lemma digit_loop_length:
  assumes "base \<in> {10, 16}" "2 \<le> length (digit_loop x base)"
  shows "base ^ (length (digit_loop x base) - 1) \<le> unat x"
  using assms
proof (induction x base rule: digit_loop.induct)
  case (1 x base)
  have b: "unat (of_nat base :: u64) = base" "0 < base" using 1(2) by auto
  have q: "unat (x div of_nat base) = unat x div base" using b by (simp add: unat_div)
  have nz: "x div of_nat base \<noteq> 0" using 1(3) by (subst (asm) digit_loop.simps) (auto split: if_splits)
  let ?k = "length (digit_loop (x div of_nat base) base)"
  have len: "length (digit_loop x base) = Suc ?k" using nz 1(2) by (subst digit_loop.simps) simp
  have pos: "0 < unat x div base" using nz q by (metis neq0_conv unat_eq_zero)
  have "base ^ (?k - 1) \<le> unat x div base"
  proof (cases "2 \<le> ?k")
    case True
    then show ?thesis using 1(1) 1(2) nz q by simp
  next
    case False
    then have "?k - 1 = 0" by simp
    then show ?thesis using pos by simp
  qed
  then have "base * base ^ (?k - 1) \<le> base * (unat x div base)" by simp
  also have "\<dots> \<le> unat x" by simp
  finally have "base ^ Suc (?k - 1) \<le> unat x" by (simp only: power_Suc)
  moreover have "Suc (?k - 1) = ?k" using length_greater_0_conv [of "digit_loop (x div of_nat base) base"] by simp
  ultimately show ?case using len by (simp only: diff_Suc_1)
qed

lemma digit_loop_short:
  assumes "base \<in> {10, 16}" "unat x < 10 ^ k" "0 < k"
  shows "length (digit_loop x base) \<le> k"
proof (rule ccontr)
  assume n: "\<not> ?thesis"
  then have "base ^ (length (digit_loop x base) - 1) \<le> unat x"
    using digit_loop_length [OF assms(1), of x] assms(3) by simp
  moreover have "(10 :: nat) ^ k \<le> 10 ^ (length (digit_loop x base) - 1)"
    by (rule power_increasing) (use n in auto)
  moreover have "(10 :: nat) ^ (length (digit_loop x base) - 1) \<le> base ^ (length (digit_loop x base) - 1)"
    by (rule power_mono) (use assms(1) in auto)
  ultimately show False using assms(2) by linarith
qed

lemma put_all_ok: "\<not> panicked u \<Longrightarrow> put_all cs u = Inr (u\<lparr>u_thr := u_thr u @ cs\<rparr>)"
  by (induction cs arbitrary: u) (simp_all add: put_all_def consputc_def uartputc_sync_def)

lemma unat_uminus_negative:
  fixes x :: u64
  assumes "sint x < 0"
  shows "int (unat (- x)) = - sint x"
proof -
  have "- (2 ^ 63) \<le> sint x" using sint_ge [of x] by simp
  then have "take_bit 64 (- sint x) = - sint x" using assms by (intro take_bit_int_eq_self) simp_all
  moreover have "- x = word_of_int (- sint x)" by simp
  then have "uint (- x) = take_bit 64 (- sint x)" by (simp only: uint_word_of_int_eq) simp
  ultimately show ?thesis by simp
qed

lemma sint_nonneg_unat:
  fixes x :: u64
  assumes "0 \<le> sint x"
  shows "nat (sint x) = unat x"
proof -
  have "sint x < 2 ^ 63" using sint_lt [of x] by simp
  then have "take_bit 64 (sint x) = sint x" using assms by (intro take_bit_int_eq_self) simp_all
  moreover have "uint x = take_bit 64 (sint x)" using uint_word_of_int_eq [of "sint x", where 'a = 64] by simp
  ultimately show ?thesis by (simp add: unat_eq_nat_uint)
qed

text \<open>
  Claim C24. \<^verbatim>\<open>printint()\<close> prints the value of its argument, in decimal with a minus sign if it is
  signed and negative, or in hexadecimal, and the digits never overflow the 20 bytes of \<^verbatim>\<open>buf\<close>, also for
  the most negative number and the largest unsigned one.
\<close>

theorem printint_prints_value:
  assumes "base \<in> {10, 16}" "sign \<longrightarrow> base = 10" "\<not> panicked u"
  shows "length (printint_buf xx base sign) \<le> 20 \<and>
    (\<exists>ds. printint xx base sign u =
         Inr (u\<lparr>u_thr := u_thr u @ (if sign \<and> sint xx < 0 then [45] else []) @ ds\<rparr>) \<and>
       number base ds = (if sign then nat \<bar>sint xx\<bar> else unat xx))"
proof -
  have out: "printint xx base sign u = Inr (u\<lparr>u_thr := u_thr u @ rev (printint_buf xx base sign)\<rparr>)"
    using put_all_ok [OF assms(3)] by (simp add: printint_def)
  show ?thesis
  proof (cases "sign \<and> sint xx < 0")
    case True
    have u: "int (unat (- xx)) = - sint xx" using True by (intro unat_uminus_negative) simp
    then have v: "unat (- xx) = nat \<bar>sint xx\<bar>" using True by linarith
    have "- (2 ^ 63) \<le> sint xx" using sint_ge [of xx] by simp
    moreover have "(2 :: int) ^ 63 < 10 ^ 19" by simp
    ultimately have "int (unat (- xx)) < 10 ^ 19" using u by linarith
    then have "unat (- xx) < 10 ^ 19" by (metis of_nat_less_iff of_nat_numeral of_nat_power)
    then have len: "length (digit_loop (- xx) base) \<le> 19" by (intro digit_loop_short assms(1)) simp_all
    show ?thesis
      using out True len v digit_loop_number [OF assms(1), of "- xx"]
      by (auto simp: printint_buf_def intro!: exI [of _ "rev (digit_loop (- xx) base)"])
  next
    case False
    have "unat xx < 10 ^ 20" using unat_bound [of xx] by simp
    then have len: "length (digit_loop xx base) \<le> 20" by (intro digit_loop_short assms(1)) simp_all
    have v: "unat xx = nat \<bar>sint xx\<bar>" if sign using False that by (simp add: sint_nonneg_unat)
    show ?thesis
      using out False len v digit_loop_number [OF assms(1), of xx]
      by (auto simp: printint_buf_def intro!: exI [of _ "rev (digit_loop xx base)"])
  qed
qed

theorem printint_prints_value_witness:
  "length (printint_buf (- (2 ^ 63)) 10 True) \<le> 20 \<and>
    (\<exists>ds. printint (- (2 ^ 63)) 10 True idle_uart = Inr (idle_uart\<lparr>u_thr := 45 # ds\<rparr>) \<and>
       number 10 ds = 9223372036854775808)"
  using printint_prints_value [of 10 True idle_uart "- (2 ^ 63)"] by (simp add: idle_uart_def)

end
