(* ===== verification/Virtio.thy ===== *)
theory Virtio
  imports BioInv Kalloc
begin

text \<open>
  The driver of the virtio disk (\<^verbatim>\<open>kernel/virtio_disk.c\<close>, \<^verbatim>\<open>kernel/virtio.h\<close>). \<open>vdisk\<close> is
  \<^verbatim>\<open>struct disk\<close> with the three shared structures it points to: descriptor table, available ring and used
  ring. A descriptor holds the address of a kernel object: a request header, the data of a buffer, or a
  status byte.

  \<^verbatim>\<open>virtio_disk_rw()\<close> sleeps up to twice. \<open>virtio_submit\<close> is its first part, up to the wait for the
  interrupt, or up to the sleep when there are not three free descriptors; \<open>virtio_finish\<close> is the part
  after the wait. A buffer is its index in \<^verbatim>\<open>bcache.buf\<close>, as in theory Bio. Register writes are recorded in
  order in \<open>v_mmio\<close>, the channels passed to \<^verbatim>\<open>wakeup()\<close> in \<open>v_woken\<close>, latest first. The device is not
  part of the sources; what it promises is stated where a theorem uses it.
\<close>

section \<open>Data\<close>

abbreviation (input) NUM :: nat where "NUM \<equiv> 8"
abbreviation (input) VRING_DESC_F_NEXT :: u16 where "VRING_DESC_F_NEXT \<equiv> 1"
abbreviation (input) VRING_DESC_F_WRITE :: u16 where "VRING_DESC_F_WRITE \<equiv> 2"
abbreviation (input) VIRTIO_BLK_T_IN :: u32 where "VIRTIO_BLK_T_IN \<equiv> 0"
abbreviation (input) VIRTIO_BLK_T_OUT :: u32 where "VIRTIO_BLK_T_OUT \<equiv> 1"

datatype vaddr = VNull | VReq nat | VData nat | VStatus nat

record virtq_desc =
  d_addr :: vaddr
  d_len :: u32
  d_flags :: u16
  d_next :: u16

record virtio_blk_req =
  req_type :: u32
  req_reserved :: u32
  req_sector :: u64

record vdisk =
  v_desc :: "virtq_desc list"
  avail_idx :: u16
  avail_ring :: "u16 list"
  used_idx_dev :: u16
  used_ring :: "u32 list"
  v_free :: "bool list"
  used_idx :: u16
  info_b :: "nat option list"
  info_status :: "u8 list"
  v_ops :: "virtio_blk_req list"
  v_isr :: u32
  v_mmio :: "(nat \<times> u32) list"
  v_woken :: "chan list"

definition zero_desc :: virtq_desc where
  "zero_desc = \<lparr>d_addr = VNull, d_len = 0, d_flags = 0, d_next = 0\<rparr>"

text \<open>\<^verbatim>\<open>disk\<close> as the kernel is loaded, with the pages that \<^verbatim>\<open>virtio_disk_init()\<close> clears.\<close>

definition zero_vdisk :: vdisk where
  "zero_vdisk = \<lparr>v_desc = replicate NUM zero_desc, avail_idx = 0, avail_ring = replicate NUM 0, used_idx_dev = 0,
     used_ring = replicate NUM 0, v_free = replicate NUM False, used_idx = 0, info_b = replicate NUM None,
     info_status = replicate NUM 0, v_ops = replicate NUM \<lparr>req_type = 0, req_reserved = 0, req_sector = 0\<rparr>,
     v_isr = 0, v_mmio = [], v_woken = []\<rparr>"

section \<open>Initialisation\<close>

text \<open>The feature bits that the driver turns off: 5, 7, 11, 12, 27, 29 and 28.\<close>

definition drop_features :: "u64 \<Rightarrow> u64" where
  "drop_features f = fold (\<lambda>k f. f AND NOT (push_bit k 1)) [5, 7, 11, 12, 27, 29, 28] f"

definition mmio_write :: "nat \<Rightarrow> u32 \<Rightarrow> vdisk \<Rightarrow> vdisk" where
  "mmio_write r x v = v\<lparr>v_mmio := v_mmio v @ [(r, x)]\<rparr>"

definition addr_lo :: "u64 \<Rightarrow> u32" where
  "addr_lo a = ucast a"

definition addr_hi :: "u64 \<Rightarrow> u32" where
  "addr_hi a = ucast (drop_bit 32 a)"

text \<open>
  \<^verbatim>\<open>virtio_disk_init()\<close>; \<open>rd\<close> are the values the device gives when a register is read.
\<close>

definition virtio_disk_init :: "(nat \<Rightarrow> u32) \<Rightarrow> vdisk \<Rightarrow> pmem \<Rightarrow> (vdisk \<times> pmem) res" where
  "virtio_disk_init rd v m =
     (if rd 0x000 \<noteq> 0x74726976 \<or> rd 0x004 \<noteq> 2 \<or> rd 0x008 \<noteq> 2 \<or> rd 0x00c \<noteq> 0x554d4551
      then Inl (Panic ''could not find virtio disk'')
      else
        let v1 = mmio_write 0x070 3 (mmio_write 0x070 1 (mmio_write 0x070 0 v));
            v2 = mmio_write 0x020 (ucast (drop_features (ucast (rd 0x010)))) v1;
            v3 = mmio_write 0x070 11 v2;
            status = rd 0x070
        in if status AND 8 = 0 then Inl (Panic ''virtio disk FEATURES_OK unset'')
           else let v4 = mmio_write 0x030 0 v3
           in if rd 0x044 \<noteq> 0 then Inl (Panic ''virtio disk should not be ready'')
           else if rd 0x034 = 0 then Inl (Panic ''virtio disk has no queue 0'')
           else if rd 0x034 < of_nat NUM then Inl (Panic ''virtio disk max queue too short'')
           else let (desc, m1) = kalloc m; (avail, m2) = kalloc m1; (used, m3) = kalloc m2
           in if desc = 0 \<or> avail = 0 \<or> used = 0 then Inl (Panic ''virtio disk kalloc'')
           else let m4 = m3\<lparr>mem := memset (memset (memset (mem m3) desc 0 (ucast PGSIZE)) avail 0 (ucast PGSIZE))
                                   used 0 (ucast PGSIZE)\<rparr>;
                    v5 = v4\<lparr>v_desc := replicate NUM zero_desc, avail_idx := 0, avail_ring := replicate NUM 0,
                           used_idx_dev := 0, used_ring := replicate NUM 0\<rparr>;
                    v6 = fold (\<lambda>(r, x). mmio_write r x)
                           [(0x038, of_nat NUM), (0x080, addr_lo desc), (0x084, addr_hi desc), (0x090, addr_lo avail),
                            (0x094, addr_hi avail), (0x0a0, addr_lo used), (0x0a4, addr_hi used), (0x044, 1)] v5;
                    v7 = v6\<lparr>v_free := replicate NUM True\<rparr>
                in Inr (mmio_write 0x070 (status OR 4) v7, m4))"

section \<open>Descriptors\<close>

definition alloc_desc :: "vdisk \<Rightarrow> nat option \<times> vdisk" where
  "alloc_desc v =
     (case first_idx (\<lambda>f. f) (v_free v) of
        Some i \<Rightarrow> (Some i, v\<lparr>v_free := (v_free v)[i := False]\<rparr>)
      | None \<Rightarrow> (None, v))"

definition free_desc :: "nat \<Rightarrow> vdisk \<Rightarrow> vdisk res" where
  "free_desc i v =
     (if NUM \<le> i then Inl (Panic ''free_desc 1'')
      else if v_free v ! i then Inl (Panic ''free_desc 2'')
      else Inr (v\<lparr>v_desc := (v_desc v)[i := zero_desc], v_free := (v_free v)[i := True],
                  v_woken := DiskFreeChan # v_woken v\<rparr>))"

text \<open>
  \<^verbatim>\<open>free_chain()\<close> ends, whatever the links are: \<^verbatim>\<open>free_desc()\<close> panics on a descriptor that is free already,
  so that every round makes one more of them free.
\<close>

definition busy :: "vdisk \<Rightarrow> nat" where
  "busy v = length (filter Not (take NUM (v_free v)))"

lemma busy_update:
  assumes "i < NUM" "i < length fs" "\<not> fs ! i"
  shows "length (filter Not (take NUM (fs[i := True]))) < length (filter Not (take NUM fs))"
proof -
  define ts where "ts = take NUM fs"
  have i: "i < length ts" and f: "ts ! i = False" using assms by (simp_all add: ts_def)
  have old: "ts = take i ts @ False # drop (Suc i) ts" using id_take_nth_drop [OF i] f by simp
  have new: "ts[i := True] = take i ts @ True # drop (Suc i) ts" by (rule upd_conv_take_nth_drop [OF i])
  have "length (filter Not ts) = Suc (length (filter Not (take i ts)) + length (filter Not (drop (Suc i) ts)))"
    by (subst old) simp
  moreover have "length (filter Not (ts[i := True])) = length (filter Not (take i ts)) + length (filter Not (drop (Suc i) ts))"
    by (subst new) simp
  moreover have "take NUM (fs[i := True]) = ts[i := True]" by (simp add: ts_def take_update_swap)
  ultimately show ?thesis by (simp add: ts_def)
qed

lemma free_desc_busy:
  assumes "free_desc i v = Inr v'" "i < length (v_free v)"
  shows "busy v' < busy v"
proof -
  have "i < NUM" "\<not> v_free v ! i" "v_free v' = (v_free v)[i := True]"
    using assms by (auto simp: free_desc_def split: if_splits)
  then show ?thesis using busy_update [of i "v_free v"] assms(2) by (simp add: busy_def)
qed

function free_chain :: "nat \<Rightarrow> vdisk \<Rightarrow> vdisk res" where
  "free_chain i v =
     (if length (v_free v) \<le> i then Inl (Panic ''free_desc 1'')
      else let flag = d_flags (v_desc v ! i); nxt = d_next (v_desc v ! i)
           in bindR (free_desc i v) (\<lambda>v1.
                if flag AND VRING_DESC_F_NEXT \<noteq> 0 then free_chain (unat nxt) v1 else Inr v1))"
  by pat_completeness auto

termination
  by (relation "measure (\<lambda>(i, v). busy v)") (auto simp: free_desc_busy)

declare free_chain.simps [simp del]

definition alloc3_desc :: "vdisk \<Rightarrow> ((nat \<times> nat \<times> nat) option \<times> vdisk) res" where
  "alloc3_desc v =
     (case alloc_desc v of
        (None, v1) \<Rightarrow> Inr (None, v1)
      | (Some i0, v1) \<Rightarrow>
          (case alloc_desc v1 of
             (None, v2) \<Rightarrow> bindR (free_desc i0 v2) (\<lambda>v3. Inr (None, v3))
           | (Some i1, v2) \<Rightarrow>
               (case alloc_desc v2 of
                  (None, v3) \<Rightarrow> bindR (free_desc i0 v3) (\<lambda>v4. bindR (free_desc i1 v4) (\<lambda>v5. Inr (None, v5)))
                | (Some i2, v3) \<Rightarrow> Inr (Some (i0, i1, i2), v3))))"

section \<open>Transfers\<close>

text \<open>The three descriptors of a request and the request header.\<close>

definition format_request :: "nat \<times> nat \<times> nat \<Rightarrow> nat \<Rightarrow> bool \<Rightarrow> u64 \<Rightarrow> vdisk \<Rightarrow> vdisk" where
  "format_request idx b write sector v =
     (case idx of (i0, i1, i2) \<Rightarrow>
       let v1 = v\<lparr>v_ops := (v_ops v)[i0 := \<lparr>req_type = (if write then VIRTIO_BLK_T_OUT else VIRTIO_BLK_T_IN),
                                         req_reserved = 0, req_sector = sector\<rparr>]\<rparr>;
           d0 = \<lparr>d_addr = VReq i0, d_len = 16, d_flags = VRING_DESC_F_NEXT, d_next = of_nat i1\<rparr>;
           d1 = \<lparr>d_addr = VData b, d_len = of_nat BSIZE,
                  d_flags = (if write then 0 else VRING_DESC_F_WRITE) OR VRING_DESC_F_NEXT, d_next = of_nat i2\<rparr>;
           d2 = \<lparr>d_addr = VStatus i0, d_len = 1, d_flags = VRING_DESC_F_WRITE, d_next = 0\<rparr>
       in v1\<lparr>info_status := (info_status v1)[i0 := 0xff],
             v_desc := (v_desc v1)[i0 := d0, i1 := d1, i2 := d2]\<rparr>)"

text \<open>
  \<^verbatim>\<open>virtio_disk_rw()\<close> up to the wait: the head of the chain, or \<open>None\<close> for a sleep on the free descriptors.
\<close>

definition virtio_submit :: "nat \<Rightarrow> bool \<Rightarrow> buf list \<Rightarrow> vdisk \<Rightarrow> (nat option \<times> buf list \<times> vdisk) res" where
  "virtio_submit b write bs v =
     (let sector = ucast (b_blockno (bs ! b) * 2 :: u32)
      in bindR (alloc3_desc v) (\<lambda>(idx, v1).
        case idx of
          None \<Rightarrow> Inr (None, bs, v1)
        | Some (i0, i1, i2) \<Rightarrow>
            let v2 = format_request (i0, i1, i2) b write sector v1;
                bs1 = upd b (\<lambda>x. x\<lparr>b_disk := True\<rparr>) bs;
                v3 = v2\<lparr>info_b := (info_b v2)[i0 := Some b],
                        avail_ring := (avail_ring v2)[unat (avail_idx v2) mod NUM := of_nat i0],
                        avail_idx := avail_idx v2 + 1\<rparr>
            in Inr (Some i0, bs1, mmio_write 0x050 0 v3)))"

definition virtio_finish :: "nat \<Rightarrow> vdisk \<Rightarrow> vdisk res" where
  "virtio_finish i0 v = free_chain i0 (v\<lparr>info_b := (info_b v)[i0 := None]\<rparr>)"

text \<open>The loop of \<^verbatim>\<open>virtio_disk_intr()\<close> over the entries of the used ring.\<close>

lemma unat_succ_less16: "x \<noteq> y \<Longrightarrow> unat (y - (x + 1) :: u16) < unat (y - x)"
proof -
  assume "x \<noteq> y"
  then have "y - x \<noteq> 0" by simp
  then have u: "unat (y - x - 1) = unat (y - x) - 1" "0 < unat (y - x)" by (simp_all add: unat_minus_one unat_gt_0)
  have "y - (x + 1) = y - x - 1" by simp
  then have "unat (y - (x + 1)) = unat (y - x) - 1" using u(1) by (simp only:)
  then show ?thesis using u(2) by linarith
qed

function intr_loop :: "buf list \<Rightarrow> vdisk \<Rightarrow> (buf list \<times> vdisk) res" where
  "intr_loop bs v =
     (if used_idx v \<noteq> used_idx_dev v
      then let id = unat (used_ring v ! (unat (used_idx v) mod NUM))
           in if NUM \<le> id then Inl Undef
              else if info_status v ! id \<noteq> 0 then Inl (Panic ''virtio_disk_intr status'')
              else case info_b v ! id of
                None \<Rightarrow> Inl (Panic ''kerneltrap'')
              | Some b \<Rightarrow> intr_loop (upd b (\<lambda>x. x\<lparr>b_disk := False\<rparr>) bs)
                           (v\<lparr>v_woken := BufChan b # v_woken v, used_idx := used_idx v + 1\<rparr>)
      else Inr (bs, v))"
  by pat_completeness auto

termination
  by (relation "measure (\<lambda>(bs, v). unat (used_idx_dev v - used_idx v))") (auto simp: unat_succ_less16)

declare intr_loop.simps [simp del]

text \<open>\<open>v_isr\<close> is the interrupt status register, which the device sets.\<close>

definition virtio_disk_intr :: "buf list \<Rightarrow> vdisk \<Rightarrow> (buf list \<times> vdisk) res" where
  "virtio_disk_intr bs v = intr_loop bs (mmio_write 0x064 (v_isr v AND 3) v)"

end
