(* ===== verification/FsFrame.thy ===== *)
theory FsFrame
  imports Fs
begin

text \<open>
  What the file system does not touch. The operations of the buffer cache, the log and the file system
  keep the fields of any record that extends their state: \<open>bio.more\<close>, \<open>logst.more\<close> and \<open>fsst.more\<close> stay
  the same. The kernel state of theory File extends \<open>fsst\<close>, so these lemmas say that no file system
  operation changes processes, memory, descriptors or devices.
\<close>

section \<open>The buffer cache\<close>

lemma bio_more_logst: "bio.more s' = bio.more (s :: 'a logst_scheme) \<Longrightarrow> logst.more s' = logst.more s"
  by (cases s; cases s') simp

lemma logst_more_fsst: "logst.more s' = logst.more (s :: 'a fsst_scheme) \<Longrightarrow> fsst.more s' = fsst.more s"
  by (cases s; cases s') simp

lemma lock_buf_bio: "lock_buf b s = Inr (i, s') \<Longrightarrow> bio.more s' = bio.more s"
  by (auto simp: lock_buf_def)

lemma bget_bio: "bget dev b s = Inr (i, s') \<Longrightarrow> bio.more s' = bio.more s"
  unfolding bget_def bindR_eq_Inr
  by (elim exE conjE) (simp only: split: option.splits; auto simp del: scan.simps split: option.splits dest!: lock_buf_bio)

lemma bread_bio: "bread dev b s = Inr (i, s') \<Longrightarrow> bio.more s' = bio.more s"
  by (auto simp: bread_def disk_rw_def Let_def split: if_splits dest!: bget_bio)

lemma bwrite_bio: "bwrite b s = Inr s' \<Longrightarrow> bio.more s' = bio.more s"
  by (auto simp: bwrite_def disk_rw_def Let_def split: if_splits)

lemma brelse_bio: "brelse b s = Inr s' \<Longrightarrow> bio.more s' = bio.more s"
  by (auto simp: brelse_def Let_def split: if_splits)

lemma set_data_bio: "bio.more (set_data b f s) = bio.more s"
  by (simp add: set_data_def)

lemma foldR_frame:
  assumes "\<And>x s s'. f x s = Inr s' \<Longrightarrow> F s' = F s" "foldR f xs s = Inr s'"
  shows "F s' = F s"
  using assms(2) by (induction xs arbitrary: s) (auto dest!: assms(1))

section \<open>The log\<close>

lemma bread_logst: "bread dev b (s :: 'a logst_scheme) = Inr (i, s') \<Longrightarrow> logst.more s' = logst.more s"
  by (blast dest: bread_bio bio_more_logst)

lemma bwrite_logst: "bwrite b (s :: 'a logst_scheme) = Inr s' \<Longrightarrow> logst.more s' = logst.more s"
  by (blast dest: bwrite_bio bio_more_logst)

lemma brelse_logst: "brelse b (s :: 'a logst_scheme) = Inr s' \<Longrightarrow> logst.more s' = logst.more s"
  by (blast dest: brelse_bio bio_more_logst)

lemma set_data_logst: "logst.more (set_data b f s) = logst.more s"
  by (simp add: set_data_def)

lemma bpin_logst: "logst.more (bpin b s) = logst.more s" "logst.more (bunpin b s) = logst.more s"
  by (simp_all add: bpin_def bunpin_def)

lemmas log_frames = bread_logst bwrite_logst brelse_logst

lemma install_block_logst: "install_block r t s = Inr s' \<Longrightarrow> logst.more s' = logst.more s"
  by (auto simp: install_block_def Let_def set_data_logst bpin_logst split: if_splits dest!: log_frames)

lemma write_log_block_logst: "write_log_block t s = Inr s' \<Longrightarrow> logst.more s' = logst.more s"
  by (auto simp: write_log_block_def Let_def set_data_logst dest!: log_frames)

lemma read_head_logst: "read_head s = Inr s' \<Longrightarrow> logst.more s' = logst.more s"
  by (auto simp: read_head_def Let_def split: if_splits dest!: log_frames)

lemma write_head_logst: "write_head s = Inr s' \<Longrightarrow> logst.more s' = logst.more s"
  by (auto simp: write_head_def Let_def set_data_logst dest!: log_frames)

lemma install_trans_logst: "install_trans r s = Inr s' \<Longrightarrow> logst.more s' = logst.more s"
  unfolding install_trans_def by (rule foldR_frame [where F = logst.more]) (auto dest: install_block_logst)

lemma write_log_logst: "write_log s = Inr s' \<Longrightarrow> logst.more s' = logst.more s"
  unfolding write_log_def by (rule foldR_frame [where F = logst.more]) (auto dest: write_log_block_logst)

lemma commit_logst: "commit s = Inr s' \<Longrightarrow> logst.more s' = logst.more s"
  by (auto simp: commit_def split: if_splits dest!: write_log_logst write_head_logst install_trans_logst)

lemma recover_logst: "recover_from_log s = Inr s' \<Longrightarrow> logst.more s' = logst.more s"
  by (auto simp: recover_from_log_def dest!: read_head_logst write_head_logst install_trans_logst)

lemma initlog_logst: "initlog dev b s = Inr s' \<Longrightarrow> logst.more s' = logst.more s"
  by (auto simp: initlog_def split: if_splits dest!: recover_logst)

lemma begin_op_logst: "begin_op s = Inr s' \<Longrightarrow> logst.more s' = logst.more s"
  by (auto simp: begin_op_def split: if_splits)

lemma end_op_logst: "end_op s = Inr s' \<Longrightarrow> logst.more s' = logst.more s"
  by (auto simp: end_op_def Let_def split: if_splits dest!: commit_logst)

lemma log_write_logst: "log_write b s = Inr s' \<Longrightarrow> logst.more s' = logst.more s"
  by (auto simp: log_write_def Let_def bpin_logst split: if_splits option.splits)

section \<open>The file system\<close>

lemma fs_log_frames:
  fixes s :: "'a fsst_scheme"
  shows "bread dev b s = Inr (i, s') \<Longrightarrow> fsst.more s' = fsst.more s"
    "bwrite i s = Inr s' \<Longrightarrow> fsst.more s' = fsst.more s"
    "brelse i s = Inr s' \<Longrightarrow> fsst.more s' = fsst.more s"
    "log_write i s = Inr s' \<Longrightarrow> fsst.more s' = fsst.more s"
    "begin_op s = Inr s' \<Longrightarrow> fsst.more s' = fsst.more s"
    "end_op s = Inr s' \<Longrightarrow> fsst.more s' = fsst.more s"
    "initlog dev x s = Inr s' \<Longrightarrow> fsst.more s' = fsst.more s"
  by (blast dest: logst_more_fsst bread_logst bwrite_logst brelse_logst log_write_logst begin_op_logst end_op_logst
        initlog_logst)+

lemma fs_upd_frames [simp]:
  "fsst.more (set_data b f s) = fsst.more s"
  "fsst.more (upd_inode ip g s) = fsst.more s"
  by (simp_all add: set_data_def upd_inode_def)

lemma readsb_fsst: "readsb dev s = Inr s' \<Longrightarrow> fsst.more s' = fsst.more s"
  by (auto simp: readsb_def Let_def dest!: fs_log_frames)

lemma bzero_fsst: "bzero dev b s = Inr s' \<Longrightarrow> fsst.more s' = fsst.more s"
  by (auto simp: bzero_def dest!: fs_log_frames)

lemma balloc_loop_fsst: "balloc_loop ks dev s = Inr (a, s') \<Longrightarrow> fsst.more s' = fsst.more s"
  by (induction ks arbitrary: s) (fastforce simp: Let_def split: option.splits dest!: fs_log_frames bzero_fsst)+

lemma balloc_fsst: "balloc dev s = Inr (a, s') \<Longrightarrow> fsst.more s' = fsst.more s"
  unfolding balloc_def by (rule balloc_loop_fsst)

lemma bfree_fsst: "bfree dev b s = Inr s' \<Longrightarrow> fsst.more s' = fsst.more s"
  by (auto simp: bfree_def Let_def split: if_splits dest!: fs_log_frames)

lemma iget_fsst: "iget dev inum s = Inr (ip, s') \<Longrightarrow> fsst.more s' = fsst.more s"
  by (auto simp: iget_def split: option.splits)

lemma ialloc_loop_fsst: "ialloc_loop ks dev ty s = Inr (r, s') \<Longrightarrow> fsst.more s' = fsst.more s"
proof (induction ks arbitrary: s)
  case (Cons k ks)
  obtain bp s1 where b: "bread dev (IBLOCK (of_nat k) (sb s)) s = Inr (bp, s1)" using Cons.prems by (auto simp: Let_def)
  have m: "fsst.more s1 = fsst.more s" using b by (rule fs_log_frames)
  show ?case
    using Cons.prems m by (cases "get16 (data_of bp s1) (dip_off (of_nat k)) = 0")
      (auto simp: Let_def b dest!: fs_log_frames iget_fsst Cons.IH)
qed simp

lemma ialloc_fsst: "ialloc dev ty s = Inr (r, s') \<Longrightarrow> fsst.more s' = fsst.more s"
  unfolding ialloc_def by (rule ialloc_loop_fsst)

lemma iupdate_fsst: "iupdate ip s = Inr s' \<Longrightarrow> fsst.more s' = fsst.more s"
  by (auto simp: iupdate_def Let_def dest!: fs_log_frames)

lemma idup_fsst [simp]: "fsst.more (idup ip s) = fsst.more s"
  by (simp add: idup_def)

lemma ilock_fsst: "ilock ip s = Inr s' \<Longrightarrow> fsst.more s' = fsst.more s"
proof -
  assume a: "ilock ip s = Inr s'"
  then obtain lk where b: "acquiresleep (InodeLockChan ip) (curpid s) (i_lock (inode_at ip s)) = Inr lk"
    by (auto simp: ilock_def split: if_splits)
  define s1 where "s1 = upd_inode ip (\<lambda>x. x\<lparr>i_lock := lk\<rparr>) s"
  have m: "fsst.more s1 = fsst.more s" by (simp add: s1_def)
  show ?thesis
  proof (cases "i_valid (inode_at ip s1)")
    case True
    then have "s' = s1" using a b by (simp add: ilock_def Let_def flip: s1_def split: if_splits)
    then show ?thesis using m by simp
  next
    case False
    then show ?thesis using a b m
      by (auto simp: ilock_def Let_def simp flip: s1_def split: if_splits dest!: fs_log_frames)
  qed
qed

lemma iunlock_fsst: "iunlock ip s = Inr s' \<Longrightarrow> fsst.more s' = fsst.more s"
  by (auto simp: iunlock_def split: if_splits)

lemma trunc_fsst:
  "trunc_direct ip i s = Inr s' \<Longrightarrow> fsst.more s' = fsst.more s"
  "trunc_indirect ip bp i s = Inr s' \<Longrightarrow> fsst.more s' = fsst.more s"
  by (auto simp: trunc_direct_def trunc_indirect_def Let_def split: if_splits dest!: bfree_fsst)

lemma trunc_folds_fsst:
  "foldR (trunc_direct ip) xs s = Inr s' \<Longrightarrow> fsst.more s' = fsst.more s"
  "foldR (trunc_indirect ip bp) xs s = Inr s' \<Longrightarrow> fsst.more s' = fsst.more s"
  by (erule foldR_frame [rotated], erule trunc_fsst)+

lemma itrunc_fsst: "itrunc ip s = Inr s' \<Longrightarrow> fsst.more s' = fsst.more s"
  by (auto simp: itrunc_def Let_def split: if_splits
        dest!: fs_log_frames trunc_folds_fsst bfree_fsst iupdate_fsst)

lemma iput_fsst: "iput ip s = Inr s' \<Longrightarrow> fsst.more s' = fsst.more s"
  by (auto simp: iput_def Let_def split: if_splits dest!: itrunc_fsst iupdate_fsst)

lemma iunlockput_fsst: "iunlockput ip s = Inr s' \<Longrightarrow> fsst.more s' = fsst.more s"
  by (auto simp: iunlockput_def dest!: iunlock_fsst iput_fsst)

lemma ireclaim_step_fsst: "ireclaim_step dev k s = Inr s' \<Longrightarrow> fsst.more s' = fsst.more s"
  by (auto simp: ireclaim_step_def Let_def split: if_splits option.splits
        dest!: fs_log_frames iget_fsst ilock_fsst iunlock_fsst iput_fsst)

lemma ireclaim_fsst: "ireclaim dev s = Inr s' \<Longrightarrow> fsst.more s' = fsst.more s"
  unfolding ireclaim_def by (rule foldR_frame [where F = fsst.more]) (auto dest: ireclaim_step_fsst)

lemma fsinit_fsst: "fsinit dev s = Inr s' \<Longrightarrow> fsst.more s' = fsst.more s"
  by (auto simp: fsinit_def split: if_splits dest!: readsb_fsst fs_log_frames ireclaim_fsst)

text \<open>The two allocations of the indirect case.\<close>

lemma bmap_alloc_frames:
  "bindR (balloc dev s) (\<lambda>(addr, s1). if addr = 0 then Inr (0, s1) else Inr (addr, upd_inode ip (g addr) s1))
     = Inr (a, s') \<Longrightarrow> fsst.more s' = fsst.more s"
  "bindR (balloc dev s) (\<lambda>(addr, s4).
        if addr \<noteq> 0 then bindR (log_write bp (set_data bp (h addr) s4)) (\<lambda>s5. Inr (addr, s5)) else Inr (0, s4))
     = Inr (a, s') \<Longrightarrow> fsst.more s' = fsst.more s"
  by (auto split: if_splits dest!: balloc_fsst fs_log_frames)

lemma bmap_fsst: "bmap ip bn s = Inr (a, s') \<Longrightarrow> fsst.more s' = fsst.more s"
proof -
  assume a: "bmap ip bn s = Inr (a, s')"
  consider "unat bn < NDIRECT" | "\<not> unat bn < NDIRECT" "unat bn - NDIRECT < NINDIRECT" | "\<not> unat bn - NDIRECT < NINDIRECT" "\<not> unat bn < NDIRECT"
    by blast
  then show ?thesis
  proof cases
    case 1
    then show ?thesis using a by (auto simp: bmap_def Let_def split: if_splits dest!: balloc_fsst)
  next
    case 2
    obtain addr s2 where i: "(if i_addrs (inode_at ip s) ! NDIRECT = 0
        then bindR (balloc (i_dev (inode_at ip s)) s) (\<lambda>(addr, s1). if addr = 0 then Inr (0, s1)
               else Inr (addr, upd_inode ip (\<lambda>x. x\<lparr>i_addrs := (i_addrs x)[NDIRECT := addr]\<rparr>) s1))
        else Inr (i_addrs (inode_at ip s) ! NDIRECT, s)) = Inr (addr, s2)"
      using a 2 unfolding bmap_def Let_def by (simp only: if_False if_True bindR_eq_Inr) auto
    have m: "fsst.more s2 = fsst.more s"
    proof (cases "i_addrs (inode_at ip s) ! NDIRECT = 0")
      case True
      show ?thesis by (rule bmap_alloc_frames(1) [OF i [unfolded if_P [OF True]]])
    next
      case False
      then show ?thesis using i by simp
    qed
    show ?thesis
    proof (cases "addr = 0")
      case True
      then show ?thesis using a 2 m unfolding bmap_def Let_def by (simp only: if_False if_True i bindR_simps) simp
    next
      case False
      then obtain bp s3 where b: "bread (i_dev (inode_at ip s2)) addr s2 = Inr (bp, s3)"
        using a 2 unfolding bmap_def Let_def by (simp only: if_False if_True i bindR_simps) auto
      have m3: "fsst.more s3 = fsst.more s" using fs_log_frames(1) [OF b] m by simp
      let ?x = "get32 (data_of bp s3) (4 * (unat bn - NDIRECT))"
      obtain s6 where s6: "(if ?x = 0 then bindR (balloc (i_dev (inode_at ip s3)) s3) (\<lambda>(addr, s4).
          if addr \<noteq> 0 then bindR (log_write bp (set_data bp (\<lambda>d. put32 d (4 * (unat bn - NDIRECT)) addr) s4)) (\<lambda>s5. Inr (addr, s5))
          else Inr (0, s4)) else Inr (?x, s3)) = Inr (a, s6)" "brelse bp s6 = Inr s'"
        using a 2 False unfolding bmap_def Let_def by (simp only: if_False if_True i b bindR_simps prod.case bindR_eq_Inr) auto
      have "fsst.more s6 = fsst.more s3"
      proof (cases "?x = 0")
        case True
        show ?thesis by (rule bmap_alloc_frames(2) [OF s6(1) [unfolded if_P [OF True]]])
      next
        case False
        then show ?thesis using s6(1) by (simp only: if_False) simp
      qed
      then show ?thesis using fs_log_frames(3) [OF s6(2)] m3 by simp
    qed
  next
    case 3
    then show ?thesis using a by (simp add: bmap_def)
  qed
qed

lemma blk_bytes_less: "0 < r \<Longrightarrow> r - blk_bytes off r < r"
  using blk_bytes_pos [of r off] by simp

lemma readi_loop_fsst: "readi_loop out ip dst off r tot s m = Inr (t, s', m') \<Longrightarrow> fsst.more s' = fsst.more s"
proof (induction r arbitrary: dst off tot s m rule: less_induct)
  case (less r)
  show ?case
    using less.prems by (subst (asm) readi_loop.simps)
      (auto simp: Let_def blk_bytes_less split: if_splits dest!: less.IH [rotated] fs_log_frames bmap_fsst)
qed

lemma readi_fsst: "readi out ip dst off n s m = Inr (t, s', m') \<Longrightarrow> fsst.more s' = fsst.more s"
  by (auto simp: readi_def Let_def split: if_splits dest!: readi_loop_fsst)

lemma writei_loop_fsst: "writei_loop inp ip src off r tot s m = Inr (t, o', s', m') \<Longrightarrow> fsst.more s' = fsst.more s"
proof (induction r arbitrary: src off tot s m rule: less_induct)
  case (less r)
  show ?case
    using less.prems by (subst (asm) writei_loop.simps)
      (auto simp: Let_def blk_bytes_less split: if_splits dest!: less.IH [rotated] fs_log_frames bmap_fsst)
qed

lemma writei_fsst: "writei inp ip src off n s m = Inr (t, s', m') \<Longrightarrow> fsst.more s' = fsst.more s"
  by (auto simp: writei_def Let_def split: if_splits dest!: writei_loop_fsst iupdate_fsst)

lemma dirlookup_loop_fsst: "dirlookup_loop offs dp name s = Inr (r, s') \<Longrightarrow> fsst.more s' = fsst.more s"
  by (induction offs arbitrary: s) (fastforce split: if_splits dest!: readi_fsst iget_fsst)+

lemma dirlookup_fsst: "dirlookup dp name s = Inr (r, s') \<Longrightarrow> fsst.more s' = fsst.more s"
  by (auto simp: dirlookup_def split: if_splits dest!: dirlookup_loop_fsst)

lemma empty_dirent_fsst: "empty_dirent offs e dp s = Inr (r, s') \<Longrightarrow> fsst.more s' = fsst.more s"
  by (induction offs arbitrary: e s) (fastforce split: if_splits dest!: readi_fsst)+

lemma dirlink_fsst: "dirlink dp name inum s = Inr (r, s') \<Longrightarrow> fsst.more s' = fsst.more s"
  by (auto simp: dirlink_def Let_def split: option.splits if_splits
        dest!: dirlookup_fsst iput_fsst empty_dirent_fsst writei_fsst)

lemma namex_loop_fsst: "namex_loop par path name ip s = Inr (r, n', s') \<Longrightarrow> fsst.more s' = fsst.more s"
proof (induction "length path" arbitrary: path name ip s rule: less_induct)
  case less
  show ?case
  proof (cases "skipelem path name")
    case None
    then show ?thesis using less.prems by (subst (asm) namex_loop.simps) (auto split: if_splits dest!: iput_fsst)
  next
    case (Some e)
    obtain path' name' where e: "e = (path', name')" by fastforce
    have IH: "namex_loop par path' name' i t = Inr (r, n', s') \<Longrightarrow> fsst.more s' = fsst.more t" for i t
      by (rule less.hyps) (use Some e skipelem_shorter in auto)
    show ?thesis using less.prems Some e
      by (subst (asm) namex_loop.simps) (auto split: option.splits if_splits
        dest!: IH ilock_fsst iunlock_fsst iunlockput_fsst iput_fsst dirlookup_fsst)
  qed
qed

lemma namex_fsst: "namex path par name c s = Inr (r, n', s') \<Longrightarrow> fsst.more s' = fsst.more s"
  by (auto simp: namex_def split: if_splits dest!: iget_fsst namex_loop_fsst)

lemma namei_fsst:
  "namei path c s = Inr (r, s') \<Longrightarrow> fsst.more s' = fsst.more s"
  "nameiparent path name c s = Inr (r, n', s') \<Longrightarrow> fsst.more s' = fsst.more s"
  by (auto simp: namei_def nameiparent_def dest!: namex_fsst)

lemmas fs_frames = fs_log_frames iget_fsst ialloc_fsst iupdate_fsst ilock_fsst iunlock_fsst itrunc_fsst iput_fsst
  iunlockput_fsst fsinit_fsst readi_fsst writei_fsst dirlookup_fsst dirlink_fsst namei_fsst

end
