(* ===== verification/File.thy ===== *)
theory File
  imports Sched VmInv Printk Virtio FsFrame
begin

text \<open>
  The state of the kernel as a whole, and the file table (\<^verbatim>\<open>kernel/file.c\<close>, \<^verbatim>\<open>kernel/file.h\<close>), with
  the allocation of pipes (\<^verbatim>\<open>kernel/pipe.c\<close>) and the copies between the kernel and the current process
  (\<^verbatim>\<open>either_copyout()\<close> and \<^verbatim>\<open>either_copyin()\<close> of \<^verbatim>\<open>kernel/proc.c\<close>).

  The record \<open>kern\<close> extends the state of the file system (and so of the log, the buffer cache and the disk)
  with physical memory, the process table, the console, the disk driver, the file table and the pipes. A
  pipe is found under the address of its page. \<open>hart\<close> is the CPU the current thread runs on. The current
  process, \<^verbatim>\<open>myproc()\<close>, is the argument \<open>p\<close> of the operations, as its slot number; \<open>curpid\<close> is its pid.

  The critical sections of \<^verbatim>\<open>ftable.lock\<close> are single steps. The channels that an operation passes to
  \<^verbatim>\<open>wakeup()\<close> collect in \<open>woken\<close>; they take effect on the process table at the end of the system call or
  trap (\<open>deliver\<close>), which is where another process can next run on this CPU.

  An operation that may sleep before it is done gives an \<open>outcome\<close>: a result, a sleep with what is needed
  to go on, or no return at all. An operation of the file system that would have to wait for another
  process gives \<open>Inl (Sleep ch)\<close>.
\<close>

section \<open>The state of the kernel\<close>

abbreviation (input) NFILE :: nat where "NFILE \<equiv> 100"
abbreviation (input) NOFILE :: nat where "NOFILE \<equiv> 16"
abbreviation (input) NDEV :: nat where "NDEV \<equiv> 10"

datatype fdtype = FD_NONE | FD_PIPE | FD_INODE | FD_DEVICE

text \<open>\<open>f_pipe\<close> is meaningful for pipes only, \<open>f_ip\<close> for inodes and devices only.\<close>

record kfile =
  f_type :: fdtype
  f_ref :: int
  f_readable :: bool
  f_writable :: bool
  f_pipe :: u64
  f_ip :: nat
  f_off :: u32
  f_major :: u16

text \<open>Addresses that the linker chooses, and the control registers of the current CPU.\<close>

record kimage =
  a_trampoline :: u64
  a_uservec :: u64
  a_userret :: u64
  a_forkret :: u64
  a_usertrap :: u64
  a_kernelvec :: u64
  a_etext :: u64

record csrs =
  sstatus :: u64
  stvec :: u64
  sepc :: u64
  scause :: u64
  stval :: u64
  satp :: u64
  time :: u64
  stimecmp :: u64

record kern = fsst +
  kpm :: pmem
  ks :: ksched
  hart :: nat
  kcons :: cons
  kuart :: uart
  devsws :: "devsw list"
  vdisk :: vdisk
  ftable :: "kfile list"
  pipes :: "u64 \<Rightarrow> pipe"
  kimg :: kimage
  csr :: csrs
  plic :: "u32 list \<times> (u64 \<times> u32) list"
  first :: bool
  kpagetable :: u64
  stack_junk :: "nat \<Rightarrow> u8"

datatype 'r outcome = Ret 'r | Block chan nat | BlockTx nat "u8 list" nat | Gone

abbreviation proc_at :: "nat \<Rightarrow> kern \<Rightarrow> proc" where
  "proc_at p s \<equiv> procs (ks s) ! p"

definition upd_file :: "nat \<Rightarrow> (kfile \<Rightarrow> kfile) \<Rightarrow> kern \<Rightarrow> kern" where
  "upd_file f g s = s\<lparr>ftable := upd f g (ftable s)\<rparr>"

definition upd_pr :: "nat \<Rightarrow> (proc \<Rightarrow> proc) \<Rightarrow> kern \<Rightarrow> kern" where
  "upd_pr p g s = s\<lparr>ks := upd_proc p g (ks s)\<rparr>"

definition wake :: "chan list \<Rightarrow> kern \<Rightarrow> kern" where
  "wake chs s = s\<lparr>woken := chs @ woken s\<rparr>"

definition deliver :: "kern \<Rightarrow> kern" where
  "deliver s = s\<lparr>ks := fold (wakeup (hart s)) (rev (woken s)) (ks s), woken := []\<rparr>"

text \<open>Lifting an operation on physical memory or the UART to the kernel.\<close>

definition on_pm :: "(pmem \<Rightarrow> ('a \<times> pmem) res) \<Rightarrow> kern \<Rightarrow> ('a \<times> kern) res" where
  "on_pm f s = bindR (f (kpm s)) (\<lambda>(x, m). Inr (x, s\<lparr>kpm := m\<rparr>))"

definition on_uart :: "(uart \<Rightarrow> uart res) \<Rightarrow> kern \<Rightarrow> kern res" where
  "on_uart f s = bindR (f (kuart s)) (\<lambda>u. Inr (s\<lparr>kuart := u\<rparr>))"

section \<open>Copies to and from the current process\<close>

text \<open>
  The page table and size are those of the current process; an address of the kernel is a physical
  address.
\<close>

definition either_copyout :: "bool \<Rightarrow> u64 \<Rightarrow> u64 \<Rightarrow> pmem sink" where
  "either_copyout user_dst psz pt dst bs m =
     (if user_dst then copyout psz pt pt dst bs m
      else Inr (0, m\<lparr>mem := write_bytes (mem m) dst bs\<rparr>))"

definition either_copyin :: "bool \<Rightarrow> u64 \<Rightarrow> u64 \<Rightarrow> pmem source" where
  "either_copyin user_src psz pt src n m =
     (if user_src then copyin psz pt pt src n m
      else Inr (0, read_bytes (mem m) src n, m))"

definition user_sink :: "nat \<Rightarrow> kern \<Rightarrow> pmem sink" where
  "user_sink p s = either_copyout True (sz (proc_at p s)) (pagetable (proc_at p s))"

definition user_source :: "nat \<Rightarrow> kern \<Rightarrow> pmem source" where
  "user_source p s = either_copyin True (sz (proc_at p s)) (pagetable (proc_at p s))"

definition copyout_p :: "nat \<Rightarrow> u64 \<Rightarrow> u8 list \<Rightarrow> kern \<Rightarrow> (i32 \<times> kern) res" where
  "copyout_p p dst bs s = on_pm (user_sink p s dst bs) s"

section \<open>The file table\<close>

definition filealloc :: "kern \<Rightarrow> nat option \<times> kern" where
  "filealloc s =
     (case first_idx (\<lambda>f. f_ref f = 0) (ftable s) of
        Some f \<Rightarrow> (Some f, upd_file f (\<lambda>x. x\<lparr>f_ref := 1\<rparr>) s)
      | None \<Rightarrow> (None, s))"

definition filedup :: "nat \<Rightarrow> kern \<Rightarrow> kern res" where
  "filedup f s =
     (if f_ref (ftable s ! f) < 1 then Inl (Panic ''filedup'')
      else Inr (upd_file f (\<lambda>x. x\<lparr>f_ref := f_ref x + 1\<rparr>) s))"

text \<open>\<^verbatim>\<open>pipeclose()\<close> in the kernel: the page of a pipe that both sides have closed is freed.\<close>

definition pipeclose_k :: "u64 \<Rightarrow> bool \<Rightarrow> kern \<Rightarrow> kern res" where
  "pipeclose_k a writable s =
     (let (dead, q, chs) = pipeclose a writable (pipes s a);
          s1 = wake chs (s\<lparr>pipes := (pipes s)(a := q)\<rparr>)
      in if dead then bindR (kfree a (kpm s1)) (\<lambda>m. Inr (s1\<lparr>kpm := m\<rparr>)) else Inr s1)"

definition fileclose :: "nat \<Rightarrow> kern \<Rightarrow> kern res" where
  "fileclose f s =
     (let ff = ftable s ! f
      in if f_ref ff < 1 then Inl (Panic ''fileclose'')
         else if 0 < f_ref ff - 1 then Inr (upd_file f (\<lambda>x. x\<lparr>f_ref := f_ref x - 1\<rparr>) s)
         else let s1 = upd_file f (\<lambda>x. x\<lparr>f_ref := 0, f_type := FD_NONE\<rparr>) s
              in case f_type ff of
                   FD_PIPE \<Rightarrow> pipeclose_k (f_pipe ff) (f_writable ff) s1
                 | FD_INODE \<Rightarrow> bindR (begin_op s1) (\<lambda>s2. bindR (iput (f_ip ff) s2) end_op)
                 | FD_DEVICE \<Rightarrow> bindR (begin_op s1) (\<lambda>s2. bindR (iput (f_ip ff) s2) end_op)
                 | FD_NONE \<Rightarrow> Inr s1)"

text \<open>
  The bytes of a \<^verbatim>\<open>struct stat\<close>: the four bytes of padding before \<^verbatim>\<open>size\<close> are what was on the stack.
\<close>

definition stat_bytes :: "(nat \<Rightarrow> u8) \<Rightarrow> stat \<Rightarrow> u8 list" where
  "stat_bytes junk st =
     (let b0 = map junk [0..<24]
      in put64 (put16 (put16 (put32 (put32 b0 0 (st_dev st)) 4 (st_ino st)) 8 (st_type st)) 10 (st_nlink st))
           16 (st_size st))"

definition filestat :: "nat \<Rightarrow> nat \<Rightarrow> u64 \<Rightarrow> kern \<Rightarrow> (i32 \<times> kern) res" where
  "filestat p f addr s =
     (let ff = ftable s ! f
      in if f_type ff = FD_INODE \<or> f_type ff = FD_DEVICE
         then bindR (ilock (f_ip ff) s) (\<lambda>s1.
              let st = stati (f_ip ff) s1
              in bindR (iunlock (f_ip ff) s1) (\<lambda>s2.
                 bindR (copyout_p p addr (stat_bytes (stack_junk s2) st) s2) (\<lambda>(r, s3).
                   if sint r < 0 then Inr (- 1, s3) else Inr (0, s3))))
         else Inr (- 1, s))"

definition bad_major :: "u16 \<Rightarrow> bool" where
  "bad_major m \<longleftrightarrow> sint m < 0 \<or> int NDEV \<le> sint m"

definition is_killed :: "nat \<Rightarrow> kern \<Rightarrow> bool" where
  "is_killed p s \<longleftrightarrow> killed p (ks s) \<noteq> 0"

text \<open>The outcome of a pipe or console operation.\<close>

fun outcome_of :: "progress \<Rightarrow> i32 outcome" where
  "outcome_of (Done r) = Ret r"
| "outcome_of (Wait ch i) = Block ch i"

fun outcome_of_cw :: "cw_progress \<Rightarrow> i32 outcome" where
  "outcome_of_cw (CwDone r) = Ret r"
| "outcome_of_cw (CwWait i rest nn) = BlockTx i rest nn"

definition fileread :: "nat \<Rightarrow> nat \<Rightarrow> u64 \<Rightarrow> i32 \<Rightarrow> kern \<Rightarrow> (i32 outcome \<times> kern) res" where
  "fileread p f addr n s =
     (let ff = ftable s ! f
      in if \<not> f_readable ff then Inr (Ret (- 1), s)
         else case f_type ff of
           FD_PIPE \<Rightarrow>
             bindR (piperead (user_sink p s) (f_pipe ff) (is_killed p s) addr (sint n) (pipes s (f_pipe ff)) (kpm s))
               (\<lambda>(r, q, m, chs). Inr (outcome_of r, wake chs (s\<lparr>pipes := (pipes s)(f_pipe ff := q), kpm := m\<rparr>)))
         | FD_DEVICE \<Rightarrow>
             if bad_major (f_major ff) \<or> \<not> dev_read (devsws s ! unat (f_major ff)) then Inr (Ret (- 1), s)
             else bindR (consoleread (user_sink p s) (is_killed p s) (nat (sint n)) addr (nat (sint n)) (kcons s) (kpm s))
                    (\<lambda>(r, k, m). Inr (outcome_of r, s\<lparr>kcons := k, kpm := m\<rparr>))
         | FD_INODE \<Rightarrow>
             bindR (ilock (f_ip ff) s) (\<lambda>s1.
             bindR (readi (user_sink p s1) (f_ip ff) addr (f_off ff) n s1 (kpm s1)) (\<lambda>(r, s2, m).
               let s3 = s2\<lparr>kpm := m\<rparr>;
                   s4 = (if 0 < sint r then upd_file f (\<lambda>x. x\<lparr>f_off := f_off x + r\<rparr>) s3 else s3)
               in bindR (iunlock (f_ip ff) s4) (\<lambda>s5. Inr (Ret r, s5))))
         | FD_NONE \<Rightarrow> Inl (Panic ''fileread''))"

text \<open>
  The loop of \<^verbatim>\<open>filewrite()\<close> for an inode, which gives the bytes written. One transaction writes at most
  \<^verbatim>\<open>max\<close>, 3 blocks.
\<close>

abbreviation (input) MAXWRITE :: int where "MAXWRITE \<equiv> ((10 - 1 - 1 - 2) div 2) * 1024"

function filewrite_loop :: "nat \<Rightarrow> nat \<Rightarrow> u64 \<Rightarrow> int \<Rightarrow> int \<Rightarrow> kern \<Rightarrow> (int \<times> kern) res" where
  "filewrite_loop p f addr n i s =
     (if i < n then
        let n1 = min (n - i) MAXWRITE; ip = f_ip (ftable s ! f)
        in bindR (begin_op s) (\<lambda>s1.
           bindR (ilock ip s1) (\<lambda>s2.
           bindR (writei (user_source p s2) ip (addr + of_int i) (f_off (ftable s2 ! f)) (of_int n1) s2 (kpm s2))
             (\<lambda>(r, s3, m).
               let s4 = s3\<lparr>kpm := m\<rparr>;
                   s5 = (if 0 < sint r then upd_file f (\<lambda>x. x\<lparr>f_off := f_off x + r\<rparr>) s4 else s4)
               in bindR (iunlock ip s5) (\<lambda>s6.
                  bindR (end_op s6) (\<lambda>s7.
                    if sint r \<noteq> n1 then Inr (i, s7)
                    else filewrite_loop p f addr n (i + n1) s7)))))
      else Inr (i, s))"
  by pat_completeness auto

termination
  by (relation "measure (\<lambda>(p, f, addr, n, i, s). nat (n - i))") auto

declare filewrite_loop.simps [simp del]

definition filewrite :: "nat \<Rightarrow> nat \<Rightarrow> u64 \<Rightarrow> i32 \<Rightarrow> kern \<Rightarrow> (i32 outcome \<times> kern) res" where
  "filewrite p f addr n s =
     (let ff = ftable s ! f
      in if \<not> f_writable ff then Inr (Ret (- 1), s)
         else case f_type ff of
           FD_PIPE \<Rightarrow>
             bindR (pipewrite (user_source p s) (f_pipe ff) (\<lambda>_. is_killed p s) addr (sint n) 0
                      (pipes s (f_pipe ff)) (kpm s))
               (\<lambda>(r, q, m, chs). Inr (outcome_of r, wake chs (s\<lparr>pipes := (pipes s)(f_pipe ff := q), kpm := m\<rparr>)))
         | FD_DEVICE \<Rightarrow>
             if bad_major (f_major ff) \<or> \<not> dev_write (devsws s ! unat (f_major ff)) then Inr (Ret (- 1), s)
             else bindR (consolewrite (user_source p s) addr (nat (sint n)) 0 (kuart s) (kpm s))
                    (\<lambda>(r, u, m). Inr (outcome_of_cw r, s\<lparr>kuart := u, kpm := m\<rparr>))
         | FD_INODE \<Rightarrow>
             bindR (filewrite_loop p f addr (sint n) 0 s) (\<lambda>(i, s1).
               Inr (Ret (if i = sint n then n else - 1), s1))
         | FD_NONE \<Rightarrow> Inl (Panic ''filewrite''))"

section \<open>Allocating a pipe\<close>

text \<open>The error path of \<^verbatim>\<open>pipealloc()\<close>; when it is taken, no page has been allocated.\<close>

definition pipealloc_bad :: "nat option \<Rightarrow> nat option \<Rightarrow> kern \<Rightarrow> ((nat \<times> nat) option \<times> kern) res" where
  "pipealloc_bad f0 f1 s =
     bindR (case f0 of Some f \<Rightarrow> fileclose f s | None \<Rightarrow> Inr s) (\<lambda>s1.
     bindR (case f1 of Some f \<Rightarrow> fileclose f s1 | None \<Rightarrow> Inr s1) (\<lambda>s2. Inr (None, s2)))"

definition pipealloc :: "kern \<Rightarrow> ((nat \<times> nat) option \<times> kern) res" where
  "pipealloc s =
     (case filealloc s of
        (None, s1) \<Rightarrow> pipealloc_bad None None s1
      | (Some f0, s1) \<Rightarrow>
          (case filealloc s1 of
             (None, s2) \<Rightarrow> pipealloc_bad (Some f0) None s2
           | (Some f1, s2) \<Rightarrow>
               let (pi, m) = kalloc (kpm s2); s3 = s2\<lparr>kpm := m\<rparr>
               in if pi = 0 then pipealloc_bad (Some f0) (Some f1) s3
                  else let q = \<lparr>p_data = read_bytes (mem m) (pi + 24) PIPESIZE, nread = 0, nwrite = 0,
                                readopen = True, writeopen = True\<rparr>;
                           s4 = s3\<lparr>pipes := (pipes s3)(pi := q)\<rparr>;
                           s5 = upd_file f0 (\<lambda>x. x\<lparr>f_type := FD_PIPE, f_readable := True, f_writable := False,
                                  f_pipe := pi\<rparr>) s4
                       in Inr (Some (f0, f1), upd_file f1 (\<lambda>x. x\<lparr>f_type := FD_PIPE, f_readable := False,
                                  f_writable := True, f_pipe := pi\<rparr>) s5)))"

end
