(* ===== verification/Syscall.thy ===== *)
theory Syscall
  imports File
begin

text \<open>
  Arguments of system calls (the first part of \<^verbatim>\<open>kernel/syscall.c\<close>) and the life of a process
  (\<^verbatim>\<open>kernel/proc.c\<close>: allocation, fork, exit, wait), now with memory, files and directories.

  The registers of a process are the 64-bit fields of its trap frame, in physical memory. The lock of a
  process that is being set up or taken down is held by the caller throughout; it is left out here, and so
  is \<^verbatim>\<open>wait_lock\<close> in \<^verbatim>\<open>kwait()\<close>, which runs without a switch up to its \<^verbatim>\<open>sleep()\<close>. The end of
  \<^verbatim>\<open>kexit()\<close>, where the locks are handed to the scheduler, is \<open>kexit_sched\<close> of theory Proc.
\<close>

section \<open>Arguments\<close>

abbreviation (input) TF_KERNEL_SATP :: u64 where "TF_KERNEL_SATP \<equiv> 0"
abbreviation (input) TF_KERNEL_SP :: u64 where "TF_KERNEL_SP \<equiv> 8"
abbreviation (input) TF_KERNEL_TRAP :: u64 where "TF_KERNEL_TRAP \<equiv> 16"
abbreviation (input) TF_EPC :: u64 where "TF_EPC \<equiv> 24"
abbreviation (input) TF_KERNEL_HARTID :: u64 where "TF_KERNEL_HARTID \<equiv> 32"
abbreviation (input) TF_SP :: u64 where "TF_SP \<equiv> 48"
abbreviation (input) TF_A0 :: u64 where "TF_A0 \<equiv> 112"
abbreviation (input) TF_A1 :: u64 where "TF_A1 \<equiv> 120"
abbreviation (input) TF_A7 :: u64 where "TF_A7 \<equiv> 168"

definition tf_get :: "nat \<Rightarrow> u64 \<Rightarrow> kern \<Rightarrow> u64" where
  "tf_get p off s = load64 (mem (kpm s)) (trapframe (proc_at p s) + off)"

definition tf_set :: "nat \<Rightarrow> u64 \<Rightarrow> u64 \<Rightarrow> kern \<Rightarrow> kern" where
  "tf_set p off x s =
     s\<lparr>kpm := (kpm s)\<lparr>mem := store64 (mem (kpm s)) (trapframe (proc_at p s) + off) x\<rparr>\<rparr>"

definition argraw :: "nat \<Rightarrow> nat \<Rightarrow> kern \<Rightarrow> u64 res" where
  "argraw p n s = (if n \<le> 5 then Inr (tf_get p (TF_A0 + 8 * of_nat n) s) else Inl (Panic ''argraw''))"

definition argint :: "nat \<Rightarrow> nat \<Rightarrow> kern \<Rightarrow> i32 res" where
  "argint p n s = bindR (argraw p n s) (\<lambda>x. Inr (ucast x))"

definition argaddr :: "nat \<Rightarrow> nat \<Rightarrow> kern \<Rightarrow> u64 res" where
  "argaddr p n s = argraw p n s"

text \<open>\<^verbatim>\<open>fetchaddr()\<close>: whether it succeeded, and the value.\<close>

definition fetchaddr :: "nat \<Rightarrow> u64 \<Rightarrow> kern \<Rightarrow> (i32 \<times> u64 \<times> kern) res" where
  "fetchaddr p addr s =
     (let q = proc_at p s
      in if sz q \<le> addr \<or> sz q < addr + 8 then Inr (- 1, 0, s)
         else bindR (on_pm (\<lambda>m. bindR (copyin (sz q) (pagetable q) (pagetable q) addr 8 m)
                                  (\<lambda>(r, bs, m1). Inr ((r, bs), m1))) s) (\<lambda>((r, bs), s1).
                if r \<noteq> 0 then Inr (- 1, 0, s1) else Inr (0, get64 bs 0, s1)))"

text \<open>\<^verbatim>\<open>fetchstr()\<close> and \<^verbatim>\<open>argstr()\<close>: the length or -1, and the string without its NUL.\<close>

definition fetchstr :: "nat \<Rightarrow> u64 \<Rightarrow> nat \<Rightarrow> kern \<Rightarrow> (i32 \<times> u8 list) res" where
  "fetchstr p addr mx s =
     bindR (copyinstr (pagetable (proc_at p s)) addr mx (kpm s)) (\<lambda>(r, bs).
       if sint r < 0 then Inr (- 1, cstr bs) else Inr (of_nat (length (cstr bs)), cstr bs))"

definition argstr :: "nat \<Rightarrow> nat \<Rightarrow> nat \<Rightarrow> kern \<Rightarrow> (i32 \<times> u8 list) res" where
  "argstr p n mx s = bindR (argaddr p n s) (\<lambda>addr. fetchstr p addr mx s)"

section \<open>Making and removing a process\<close>

definition freeproc :: "nat \<Rightarrow> kern \<Rightarrow> kern res" where
  "freeproc p s =
     (let q = proc_at p s
      in bindR (if trapframe q \<noteq> 0 then kfree (trapframe q) (kpm s) else Inr (kpm s)) (\<lambda>m1.
         bindR (if pagetable q \<noteq> 0 then proc_freepagetable (pagetable q) (sz q) m1 else Inr m1) (\<lambda>m2.
           Inr (s\<lparr>kpm := m2, ks := free_slot p (ks s)\<rparr>))))"

definition allocproc :: "kern \<Rightarrow> (nat option \<times> kern) res" where
  "allocproc s =
     (case alloc_slot (ks s) of
        None \<Rightarrow> Inr (None, s)
      | Some (np, k) \<Rightarrow>
          let (tf, m) = kalloc (kpm s);
              s1 = upd_pr np (\<lambda>q. q\<lparr>trapframe := tf\<rparr>) (s\<lparr>ks := k, kpm := m\<rparr>)
          in if tf = 0 then bindR (freeproc np s1) (\<lambda>s2. Inr (None, s2))
             else bindR (on_pm (proc_pagetable (a_trampoline (kimg s1)) tf) s1) (\<lambda>(pt, s2).
                    let s3 = upd_pr np (\<lambda>q. q\<lparr>pagetable := pt\<rparr>) s2
                    in if pt = 0 then bindR (freeproc np s3) (\<lambda>s4. Inr (None, s4))
                       else Inr (Some np, s3\<lparr>ks := alloc_context (a_forkret (kimg s3)) np (ks s3)\<rparr>)))"

text \<open>
  The directory that a relative path starts from; a null pointer there ends in a kernel page fault.
\<close>

definition namei_p :: "nat \<Rightarrow> u8 list \<Rightarrow> kern \<Rightarrow> (nat option \<times> kern) res" where
  "namei_p p path s =
     (case cwd (proc_at p s) of
        Some c \<Rightarrow> namei path c s
      | None \<Rightarrow> if byte_at path 0 = SLASH then namei path 0 s else Inl (Panic ''kerneltrap''))"

definition nameiparent_p :: "nat \<Rightarrow> u8 list \<Rightarrow> kern \<Rightarrow> (nat option \<times> u8 list \<times> kern) res" where
  "nameiparent_p p path s =
     (case cwd (proc_at p s) of
        Some c \<Rightarrow> nameiparent path (map (stack_junk s) [0..<DIRSIZ]) c s
      | None \<Rightarrow> if byte_at path 0 = SLASH then nameiparent path (map (stack_junk s) [0..<DIRSIZ]) 0 s
                else Inl (Panic ''kerneltrap''))"

definition userinit :: "kern \<Rightarrow> kern res" where
  "userinit s =
     bindR (allocproc s) (\<lambda>(po, s1).
       let s2 = s1\<lparr>ks := (ks s1)\<lparr>initproc := po\<rparr>\<rparr>
       in case po of
            None \<Rightarrow> Inl (Panic ''kerneltrap'')
          | Some p \<Rightarrow> bindR (namei [SLASH] 0 s2) (\<lambda>(ip, s3).
                        Inr (upd_pr p (\<lambda>q. q\<lparr>cwd := ip, p_state := RUNNABLE\<rparr>) s3)))"

text \<open>
  \<^verbatim>\<open>safestrcpy()\<close> into a field of \<open>n\<close> bytes: what follows the NUL keeps its value.
\<close>

definition str_field :: "u8 list \<Rightarrow> nat \<Rightarrow> u8 list \<Rightarrow> u8 list" where
  "str_field old n src = blit old 0 (take (n - 1) (cstr src) @ [0])"

definition dup_file :: "nat \<Rightarrow> nat \<Rightarrow> nat \<Rightarrow> kern \<Rightarrow> kern res" where
  "dup_file p np i s =
     (case ofile (proc_at p s) ! i of
        None \<Rightarrow> Inr s
      | Some f \<Rightarrow> bindR (filedup f s) (\<lambda>s1. Inr (upd_pr np (\<lambda>q. q\<lparr>ofile := (ofile q)[i := Some f]\<rparr>) s1)))"

definition kfork :: "nat \<Rightarrow> kern \<Rightarrow> (i32 \<times> kern) res" where
  "kfork p s =
     bindR (allocproc s) (\<lambda>(npo, s1).
       case npo of
         None \<Rightarrow> Inr (- 1, s1)
       | Some np \<Rightarrow>
           bindR (on_pm (uvmcopy (pagetable (proc_at p s1)) (pagetable (proc_at np s1)) (sz (proc_at p s1))) s1) (\<lambda>(r, s2).
             if sint r < 0 then bindR (freeproc np s2) (\<lambda>s3. Inr (- 1, s3))
             else let s3 = upd_pr np (\<lambda>q. q\<lparr>sz := sz (proc_at p s2)\<rparr>) s2;
                      m = mem (kpm s3);
                      s4 = s3\<lparr>kpm := (kpm s3)\<lparr>mem := write_bytes m (trapframe (proc_at np s3))
                                               (read_bytes m (trapframe (proc_at p s3)) 288)\<rparr>\<rparr>;
                      s5 = tf_set np TF_A0 0 s4
                  in bindR (foldR (dup_file p np) [0..<NOFILE] s5) (\<lambda>s6.
                     bindR (case cwd (proc_at p s6) of
                              Some c \<Rightarrow> Inr (upd_pr np (\<lambda>q. q\<lparr>cwd := Some c\<rparr>) (idup c s6))
                            | None \<Rightarrow> Inl (Panic ''kerneltrap'')) (\<lambda>s7.
                       let s8 = upd_pr np (\<lambda>q. q\<lparr>p_name := str_field (p_name q) 16 (p_name (proc_at p s7))\<rparr>) s7;
                           pid = p_pid (proc_at np s8)
                       in Inr (pid, s8\<lparr>ks := fork_runnable np (fork_parent np p (ks s8))\<rparr>)))))"

definition close_file :: "nat \<Rightarrow> nat \<Rightarrow> kern \<Rightarrow> kern res" where
  "close_file p i s =
     (case ofile (proc_at p s) ! i of
        None \<Rightarrow> Inr s
      | Some f \<Rightarrow> bindR (fileclose f s) (\<lambda>s1. Inr (upd_pr p (\<lambda>q. q\<lparr>ofile := (ofile q)[i := None]\<rparr>) s1)))"

text \<open>\<^verbatim>\<open>kexit()\<close> does not return: the state is the one in which the CPU is back in the scheduler.\<close>

definition kexit :: "nat \<Rightarrow> i32 \<Rightarrow> kern \<Rightarrow> kern res" where
  "kexit p status s =
     (if initproc (ks s) = Some p then Inl (Panic ''init exiting'')
      else bindR (foldR (close_file p) [0..<NOFILE] s) (\<lambda>s1.
           bindR (begin_op s1) (\<lambda>s2.
           bindR (case cwd (proc_at p s2) of Some c \<Rightarrow> iput c s2 | None \<Rightarrow> Inl (Panic ''kerneltrap'')) (\<lambda>s3.
           bindR (end_op s3) (\<lambda>s4.
             let s5 = deliver (upd_pr p (\<lambda>q. q\<lparr>cwd := None\<rparr>) s4)
             in bindR (kexit_sched (hart s5) status (ks s5)) (\<lambda>k. Inr (s5\<lparr>ks := k\<rparr>)))))))"

text \<open>One round of the loop of \<^verbatim>\<open>kwait()\<close>; a process that is woken up starts another one.\<close>

definition kwait :: "nat \<Rightarrow> u64 \<Rightarrow> kern \<Rightarrow> (i32 outcome \<times> kern) res" where
  "kwait p addr s =
     (case zombie_child p (procs (ks s)) of
        Some pp \<Rightarrow>
          let pid = p_pid (proc_at pp s)
          in bindR (if addr \<noteq> 0 then copyout_p p addr (put32 (replicate 4 0) 0 (xstate (proc_at pp s))) s
                    else Inr (0, s)) (\<lambda>(r, s1).
               if sint r < 0 then Inr (Ret (- 1), s1)
               else bindR (freeproc pp s1) (\<lambda>s2. Inr (Ret pid, s2)))
      | None \<Rightarrow>
          if \<not> havekids p (procs (ks s)) \<or> is_killed p s then Inr (Ret (- 1), s)
          else Inr (Block (ProcChan p) 0, s))"

end
