(* ===== verification/Exec.thy ===== *)
theory Exec
  imports Syscall
begin

text \<open>
  Loading a program (\<^verbatim>\<open>kernel/exec.c\<close>, \<^verbatim>\<open>kernel/elf.h\<close>). The ELF headers are read at the offsets of their
  fields. The argument strings are lists of bytes, without the NULs. Every failure leads to the label
  \<^verbatim>\<open>bad\<close>, which is \<open>kexec_bad\<close>.
\<close>

abbreviation (input) ELF_MAGIC :: u32 where "ELF_MAGIC \<equiv> 0x464C457F"
abbreviation (input) ELF_PROG_LOAD :: u32 where "ELF_PROG_LOAD \<equiv> 1"
abbreviation (input) MAXARG :: nat where "MAXARG \<equiv> 32"
abbreviation (input) USERSTACK :: u64 where "USERSTACK \<equiv> 1"

record elfhdr =
  e_magic :: u32
  e_entry :: u64
  e_phoff :: u64
  e_phnum :: u16

record proghdr =
  ph_type :: u32
  ph_flags :: u32
  ph_off :: u64
  ph_vaddr :: u64
  ph_filesz :: u64
  ph_memsz :: u64

definition get_elfhdr :: "u8 list \<Rightarrow> elfhdr" where
  "get_elfhdr d = \<lparr>e_magic = get32 d 0, e_entry = get64 d 24, e_phoff = get64 d 32, e_phnum = get16 d 56\<rparr>"

definition get_proghdr :: "u8 list \<Rightarrow> proghdr" where
  "get_proghdr d = \<lparr>ph_type = get32 d 0, ph_flags = get32 d 4, ph_off = get64 d 8, ph_vaddr = get64 d 16,
     ph_filesz = get64 d 32, ph_memsz = get64 d 40\<rparr>"

definition flags2perm :: "u32 \<Rightarrow> u64" where
  "flags2perm flags = (if flags AND 1 \<noteq> 0 then PTE_X else 0) OR (if flags AND 2 \<noteq> 0 then PTE_W else 0)"

text \<open>
  The loop of \<^verbatim>\<open>loadseg()\<close> over the values of \<^verbatim>\<open>i\<close>. The counter could wrap around only in a segment of
  almost 4 GB, and \<^verbatim>\<open>readi()\<close> stops at the end of the file, at most 268 KB.
\<close>

primrec loadseg_loop :: "u32 list \<Rightarrow> u64 \<Rightarrow> u64 \<Rightarrow> nat \<Rightarrow> u32 \<Rightarrow> u32 \<Rightarrow> kern \<Rightarrow> (i32 \<times> kern) res" where
  "loadseg_loop [] pt va ip offset len s = Inr (0, s)"
| "loadseg_loop (i # is) pt va ip offset len s =
     bindR (walkaddr pt (va + ucast i) (kpm s)) (\<lambda>pa.
       if pa = 0 then Inl (Panic ''loadseg: address should exist'')
       else let n = (if len - i < ucast PGSIZE then len - i else ucast PGSIZE)
            in bindR (readi (either_copyout False 0 0) ip pa (offset + i) n s (kpm s)) (\<lambda>(r, s1, m).
                 let s2 = s1\<lparr>kpm := m\<rparr>
                 in if r \<noteq> n then Inr (- 1, s2) else loadseg_loop is pt va ip offset len s2))"

definition loadseg :: "u64 \<Rightarrow> u64 \<Rightarrow> nat \<Rightarrow> u32 \<Rightarrow> u32 \<Rightarrow> kern \<Rightarrow> (i32 \<times> kern) res" where
  "loadseg pt va ip offset len s =
     loadseg_loop (map (\<lambda>k. of_nat (4096 * k)) [0..<(unat len + 4095) div 4096]) pt va ip offset len s"

text \<open>The loop over the program headers: whether it went through, and the size reached.\<close>

primrec load_segments :: "nat \<Rightarrow> u32 \<Rightarrow> nat \<Rightarrow> u64 \<Rightarrow> u64 \<Rightarrow> kern \<Rightarrow> (bool \<times> u64 \<times> kern) res" where
  "load_segments 0 off ip pt len s = Inr (True, len, s)"
| "load_segments (Suc n) off ip pt len s =
     bindR (readi ksink ip 0 off 56 s (replicate 56 0)) (\<lambda>(r, s1, bs).
       let ph = get_proghdr bs
       in if r \<noteq> 56 then Inr (False, len, s1)
          else if ph_type ph \<noteq> ELF_PROG_LOAD then load_segments n (off + 56) ip pt len s1
          else if ph_memsz ph < ph_filesz ph \<or> ph_vaddr ph + ph_memsz ph < ph_vaddr ph \<or> ph_vaddr ph mod PGSIZE \<noteq> 0
          then Inr (False, len, s1)
          else bindR (on_pm (uvmalloc pt len (ph_vaddr ph + ph_memsz ph) (flags2perm (ph_flags ph))) s1) (\<lambda>(sz1, s2).
                 if sz1 = 0 then Inr (False, len, s2)
                 else bindR (loadseg pt (ph_vaddr ph) ip (ucast (ph_off ph)) (ucast (ph_filesz ph)) s2) (\<lambda>(e, s3).
                        if sint e < 0 then Inr (False, sz1, s3) else load_segments n (off + 56) ip pt sz1 s3)))"

text \<open>
  The loop that copies the argument strings: \<open>ustack\<close> are the addresses so far. \<open>psz\<close> and \<open>ppt\<close> are size
  and page table of the process before the exec.
\<close>

primrec push_args ::
  "u8 list list \<Rightarrow> u64 \<Rightarrow> u64 \<Rightarrow> u64 \<Rightarrow> u64 \<Rightarrow> u64 \<Rightarrow> u64 list \<Rightarrow> pmem \<Rightarrow> ((u64 \<times> u64 list) option \<times> pmem) res" where
  "push_args [] psz ppt pt stackbase sp ustack m = Inr (Some (sp, ustack), m)"
| "push_args (a # as) psz ppt pt stackbase sp ustack m =
     (if MAXARG \<le> length ustack then Inr (None, m)
      else let sp1 = sp - of_nat (length a + 1); sp2 = sp1 - sp1 mod 16
           in if sp2 < stackbase then Inr (None, m)
              else bindR (copyout psz ppt pt sp2 (a @ [0]) m) (\<lambda>(r, m1).
                     if sint r < 0 then Inr (None, m1)
                     else push_args as psz ppt pt stackbase sp2 (ustack @ [sp2]) m1))"

definition word_bytes :: "u64 list \<Rightarrow> u8 list" where
  "word_bytes ws = concat (map (put64 (replicate 8 0) 0) ws)"

definition last_elem :: "u8 list \<Rightarrow> u8 list" where
  "last_elem path = rev (takeWhile (\<lambda>c. c \<noteq> SLASH) (rev path))"

definition kexec_bad :: "u64 \<Rightarrow> u64 \<Rightarrow> nat option \<Rightarrow> kern \<Rightarrow> (i32 \<times> kern) res" where
  "kexec_bad pt len ip s =
     bindR (if pt \<noteq> 0 then bindR (proc_freepagetable pt len (kpm s)) (\<lambda>m. Inr (s\<lparr>kpm := m\<rparr>)) else Inr s) (\<lambda>s1.
     bindR (case ip of Some i \<Rightarrow> bindR (iunlockput i s1) end_op | None \<Rightarrow> Inr s1) (\<lambda>s2. Inr (- 1, s2)))"

text \<open>From \<^verbatim>\<open>p = myproc()\<close> on: the stack, the arguments, and the switch to the new image.\<close>

definition kexec_image :: "nat \<Rightarrow> u8 list \<Rightarrow> u8 list list \<Rightarrow> elfhdr \<Rightarrow> u64 \<Rightarrow> u64 \<Rightarrow> kern \<Rightarrow> (i32 \<times> kern) res" where
  "kexec_image p path argv elf pt len s =
     (let q = proc_at p s; oldsz = sz q; len = PGROUNDUP len
      in bindR (on_pm (uvmalloc pt len (len + (USERSTACK + 1) * PGSIZE) PTE_W) s) (\<lambda>(sz1, s1).
         if sz1 = 0 then kexec_bad pt len None s1
         else bindR (uvmclear pt (sz1 - (USERSTACK + 1) * PGSIZE) (kpm s1)) (\<lambda>m2.
           let stackbase = sz1 - USERSTACK * PGSIZE
           in bindR (push_args argv oldsz (pagetable q) pt stackbase sz1 [] m2) (\<lambda>(r, m3).
              case r of
                None \<Rightarrow> kexec_bad pt sz1 None (s1\<lparr>kpm := m3\<rparr>)
              | Some (sp, ustack) \<Rightarrow>
                  let sp1 = sp - of_nat (length ustack + 1) * 8; sp2 = sp1 - sp1 mod 16
                  in if sp2 < stackbase then kexec_bad pt sz1 None (s1\<lparr>kpm := m3\<rparr>)
                     else bindR (copyout oldsz (pagetable q) pt sp2 (word_bytes (ustack @ [0])) m3) (\<lambda>(e, m4).
                       if sint e < 0 then kexec_bad pt sz1 None (s1\<lparr>kpm := m4\<rparr>)
                       else let s5 = tf_set p TF_A1 sp2 (s1\<lparr>kpm := m4\<rparr>);
                                s6 = upd_pr p (\<lambda>q. q\<lparr>p_name := str_field (p_name q) 16 (last_elem (cstr path)),
                                                     pagetable := pt, sz := sz1\<rparr>) s5;
                                s7 = tf_set p TF_SP sp2 (tf_set p TF_EPC (e_entry elf) s6)
                            in bindR (proc_freepagetable (pagetable q) oldsz (kpm s7)) (\<lambda>m8.
                                 Inr (of_nat (length argv), s7\<lparr>kpm := m8\<rparr>)))))))"

definition kexec :: "nat \<Rightarrow> u8 list \<Rightarrow> u8 list list \<Rightarrow> kern \<Rightarrow> (i32 \<times> kern) res" where
  "kexec p path argv s =
     bindR (begin_op s) (\<lambda>s1.
     bindR (namei_p p path s1) (\<lambda>(ipo, s2).
       case ipo of
         None \<Rightarrow> bindR (end_op s2) (\<lambda>s3. Inr (- 1, s3))
       | Some ip \<Rightarrow>
           bindR (ilock ip s2) (\<lambda>s3.
           bindR (readi ksink ip 0 0 64 s3 (replicate 64 0)) (\<lambda>(r, s4, bs).
             let elf = get_elfhdr bs
             in if r \<noteq> 64 \<or> e_magic elf \<noteq> ELF_MAGIC then kexec_bad 0 0 (Some ip) s4
                else bindR (on_pm (proc_pagetable (a_trampoline (kimg s4)) (trapframe (proc_at p s4))) s4) (\<lambda>(pt, s5).
                  if pt = 0 then kexec_bad 0 0 (Some ip) s5
                  else bindR (load_segments (unat (e_phnum elf)) (ucast (e_phoff elf)) ip pt 0 s5) (\<lambda>(ok, len, s6).
                    if \<not> ok then kexec_bad pt len (Some ip) s6
                    else bindR (iunlockput ip s6) (\<lambda>s7.
                         bindR (end_op s7) (kexec_image p path argv elf pt len))))))))"

end
