(* ===== verification/Sysfile.thy ===== *)
theory Sysfile
  imports Exec
begin

text \<open>
  The system calls on files (\<^verbatim>\<open>kernel/sysfile.c\<close>). A call of the process in slot \<open>p\<close> takes its arguments
  from the trap frame and gives an outcome; a result is the value for register \<^verbatim>\<open>a0\<close>.
\<close>

abbreviation (input) MAXPATH :: nat where "MAXPATH \<equiv> 128"
abbreviation (input) O_WRONLY :: i32 where "O_WRONLY \<equiv> 0x001"
abbreviation (input) O_RDWR :: i32 where "O_RDWR \<equiv> 0x002"
abbreviation (input) O_CREATE :: i32 where "O_CREATE \<equiv> 0x200"
abbreviation (input) O_TRUNC :: i32 where "O_TRUNC \<equiv> 0x400"

type_synonym sysret = "(u64 outcome \<times> kern) res"

definition fail :: "kern \<Rightarrow> sysret" where
  "fail s = Inr (Ret (- 1), s)"

definition fail_op :: "kern \<Rightarrow> sysret" where
  "fail_op s = bindR (end_op s) fail"

section \<open>Descriptors\<close>

definition argfd :: "nat \<Rightarrow> nat \<Rightarrow> kern \<Rightarrow> (nat \<times> nat) option res" where
  "argfd p n s =
     bindR (argint p n s) (\<lambda>fd.
       if sint fd < 0 \<or> int NOFILE \<le> sint fd then Inr None
       else Inr (map_option (Pair (nat (sint fd))) (ofile (proc_at p s) ! nat (sint fd))))"

definition fdalloc :: "nat \<Rightarrow> nat \<Rightarrow> kern \<Rightarrow> nat option \<times> kern" where
  "fdalloc p f s =
     (case first_idx (\<lambda>x. x = None) (ofile (proc_at p s)) of
        Some fd \<Rightarrow> (Some fd, upd_pr p (\<lambda>q. q\<lparr>ofile := (ofile q)[fd := Some f]\<rparr>) s)
      | None \<Rightarrow> (None, s))"

definition clear_fd :: "nat \<Rightarrow> nat \<Rightarrow> kern \<Rightarrow> kern" where
  "clear_fd p fd s = upd_pr p (\<lambda>q. q\<lparr>ofile := (ofile q)[fd := None]\<rparr>) s"

definition sys_dup :: "nat \<Rightarrow> kern \<Rightarrow> sysret" where
  "sys_dup p s =
     bindR (argfd p 0 s) (\<lambda>r.
       case r of None \<Rightarrow> fail s
       | Some (_, f) \<Rightarrow>
           (case fdalloc p f s of
              (None, s1) \<Rightarrow> fail s1
            | (Some fd, s1) \<Rightarrow> bindR (filedup f s1) (\<lambda>s2. Inr (Ret (of_nat fd), s2))))"

text \<open>The conversion of an \<^verbatim>\<open>int\<close> result to \<^verbatim>\<open>uint64\<close>.\<close>

definition sx :: "(i32 outcome \<times> kern) res \<Rightarrow> sysret" where
  "sx r = bindR r (\<lambda>(x, s). Inr (map_outcome scast x, s))"

definition ret_int :: "(i32 \<times> kern) res \<Rightarrow> sysret" where
  "ret_int r = bindR r (\<lambda>(x, s). Inr (Ret (scast x), s))"

definition sys_read :: "nat \<Rightarrow> kern \<Rightarrow> sysret" where
  "sys_read p s =
     bindR (argaddr p 1 s) (\<lambda>a. bindR (argint p 2 s) (\<lambda>n. bindR (argfd p 0 s) (\<lambda>r.
       case r of None \<Rightarrow> fail s | Some (_, f) \<Rightarrow> sx (fileread p f a n s))))"

definition sys_write :: "nat \<Rightarrow> kern \<Rightarrow> sysret" where
  "sys_write p s =
     bindR (argaddr p 1 s) (\<lambda>a. bindR (argint p 2 s) (\<lambda>n. bindR (argfd p 0 s) (\<lambda>r.
       case r of None \<Rightarrow> fail s | Some (_, f) \<Rightarrow> sx (filewrite p f a n s))))"

definition sys_close :: "nat \<Rightarrow> kern \<Rightarrow> sysret" where
  "sys_close p s =
     bindR (argfd p 0 s) (\<lambda>r.
       case r of None \<Rightarrow> fail s
       | Some (fd, f) \<Rightarrow> bindR (fileclose f (clear_fd p fd s)) (\<lambda>s1. Inr (Ret 0, s1)))"

definition sys_fstat :: "nat \<Rightarrow> kern \<Rightarrow> sysret" where
  "sys_fstat p s =
     bindR (argaddr p 1 s) (\<lambda>st. bindR (argfd p 0 s) (\<lambda>r.
       case r of None \<Rightarrow> fail s | Some (_, f) \<Rightarrow> ret_int (filestat p f st s)))"

section \<open>Links\<close>

definition add_nlink :: "nat \<Rightarrow> u16 \<Rightarrow> kern \<Rightarrow> kern res" where
  "add_nlink ip d s = iupdate ip (upd_inode ip (\<lambda>x. x\<lparr>i_nlink := i_nlink x + d\<rparr>) s)"

definition link_bad :: "nat \<Rightarrow> kern \<Rightarrow> sysret" where
  "link_bad ip s =
     bindR (ilock ip s) (\<lambda>s1. bindR (add_nlink ip (- 1) s1) (\<lambda>s2. bindR (iunlockput ip s2) fail_op))"

definition sys_link :: "nat \<Rightarrow> kern \<Rightarrow> sysret" where
  "sys_link p s =
     bindR (argstr p 0 MAXPATH s) (\<lambda>(r0, old).
       if sint r0 < 0 then fail s
       else bindR (argstr p 1 MAXPATH s) (\<lambda>(r1, new).
       if sint r1 < 0 then fail s
       else bindR (begin_op s) (\<lambda>s1. bindR (namei_p p old s1) (\<lambda>(ipo, s2).
         case ipo of
           None \<Rightarrow> fail_op s2
         | Some ip \<Rightarrow>
             bindR (ilock ip s2) (\<lambda>s3.
               if i_type (inode_at ip s3) = T_DIR then bindR (iunlockput ip s3) fail_op
               else bindR (add_nlink ip 1 s3) (\<lambda>s4. bindR (iunlock ip s4) (\<lambda>s5.
                    bindR (nameiparent_p p new s5) (\<lambda>(dpo, name, s6).
                      case dpo of
                        None \<Rightarrow> link_bad ip s6
                      | Some dp \<Rightarrow>
                          bindR (ilock dp s6) (\<lambda>s7.
                          bindR (if i_dev (inode_at dp s7) \<noteq> i_dev (inode_at ip s7) then Inr (- 1, s7)
                                 else dirlink dp name (i_inum (inode_at ip s7)) s7) (\<lambda>(e, s8).
                            if sint e < 0 then bindR (iunlockput dp s8) (link_bad ip)
                            else bindR (iunlockput dp s8) (\<lambda>s9. bindR (iput ip s9) (\<lambda>s10.
                                 bindR (end_op s10) (\<lambda>s11. Inr (Ret 0, s11))))))))))))))"

primrec isdirempty_loop :: "u32 list \<Rightarrow> nat \<Rightarrow> kern \<Rightarrow> (bool \<times> kern) res" where
  "isdirempty_loop [] dp s = Inr (True, s)"
| "isdirempty_loop (off # offs) dp s =
     bindR (readi ksink dp 0 off 16 s (replicate 16 0)) (\<lambda>(r, s1, de).
       if r \<noteq> 16 then Inl (Panic ''isdirempty: readi'')
       else if get16 de 0 \<noteq> 0 then Inr (False, s1)
       else isdirempty_loop offs dp s1)"

definition isdirempty :: "nat \<Rightarrow> kern \<Rightarrow> (bool \<times> kern) res" where
  "isdirempty dp s = isdirempty_loop (drop 2 (dirent_offs (unat (i_size (inode_at dp s))))) dp s"

definition unlink_bad :: "nat \<Rightarrow> kern \<Rightarrow> sysret" where
  "unlink_bad dp s = bindR (iunlockput dp s) fail_op"

definition sys_unlink :: "nat \<Rightarrow> kern \<Rightarrow> sysret" where
  "sys_unlink p s =
     bindR (argstr p 0 MAXPATH s) (\<lambda>(r0, path).
       if sint r0 < 0 then fail s
       else bindR (begin_op s) (\<lambda>s1. bindR (nameiparent_p p path s1) (\<lambda>(dpo, name, s2).
         case dpo of
           None \<Rightarrow> fail_op s2
         | Some dp \<Rightarrow>
             bindR (ilock dp s2) (\<lambda>s3.
               if namecmp_eq name (bytes ''.'') \<or> namecmp_eq name (bytes ''..'') then unlink_bad dp s3
               else bindR (dirlookup dp name s3) (\<lambda>(r, s4).
                 case r of
                   None \<Rightarrow> unlink_bad dp s4
                 | Some (ip, off) \<Rightarrow>
                     bindR (ilock ip s4) (\<lambda>s5.
                       if sint (i_nlink (inode_at ip s5)) < 1 then Inl (Panic ''unlink: nlink < 1'')
                       else bindR (if i_type (inode_at ip s5) = T_DIR then isdirempty ip s5 else Inr (True, s5)) (\<lambda>(emp, s6).
                         if \<not> emp then bindR (iunlockput ip s6) (unlink_bad dp)
                         else bindR (writei ksource dp 0 off 16 s6 (replicate 16 0)) (\<lambda>(w, s7, _).
                           if w \<noteq> 16 then Inl (Panic ''unlink: writei'')
                           else bindR (if i_type (inode_at ip s7) = T_DIR then add_nlink dp (- 1) s7 else Inr s7) (\<lambda>s8.
                                bindR (iunlockput dp s8) (\<lambda>s9.
                                bindR (add_nlink ip (- 1) s9) (\<lambda>s10.
                                bindR (iunlockput ip s10) (\<lambda>s11.
                                bindR (end_op s11) (\<lambda>s12. Inr (Ret 0, s12))))))))))))))"

section \<open>Creating and opening\<close>

definition create_fail :: "nat \<Rightarrow> nat \<Rightarrow> kern \<Rightarrow> (nat option \<times> kern) res" where
  "create_fail ip dp s =
     bindR (iupdate ip (upd_inode ip (\<lambda>x. x\<lparr>i_nlink := 0\<rparr>) s)) (\<lambda>s1.
     bindR (iunlockput ip s1) (\<lambda>s2. bindR (iunlockput dp s2) (\<lambda>s3. Inr (None, s3))))"

text \<open>The entries \<^verbatim>\<open>.\<close> and \<^verbatim>\<open>..\<close> of a new directory; the second is not tried if the first fails.\<close>

definition dot_entries :: "nat \<Rightarrow> nat \<Rightarrow> kern \<Rightarrow> (i32 \<times> kern) res" where
  "dot_entries ip dp s =
     bindR (dirlink ip (bytes ''.'') (i_inum (inode_at ip s)) s) (\<lambda>(e, s1).
       if sint e < 0 then Inr (e, s1) else dirlink ip (bytes ''..'') (i_inum (inode_at dp s1)) s1)"

definition create :: "nat \<Rightarrow> u8 list \<Rightarrow> u16 \<Rightarrow> u16 \<Rightarrow> u16 \<Rightarrow> kern \<Rightarrow> (nat option \<times> kern) res" where
  "create p path type major minor s =
     bindR (nameiparent_p p path s) (\<lambda>(dpo, name, s1).
       case dpo of
         None \<Rightarrow> Inr (None, s1)
       | Some dp \<Rightarrow>
           bindR (ilock dp s1) (\<lambda>s2.
           bindR (dirlookup dp name s2) (\<lambda>(r, s3).
             case r of
               Some (ip, _) \<Rightarrow>
                 bindR (iunlockput dp s3) (\<lambda>s4.
                 bindR (ilock ip s4) (\<lambda>s5.
                   if type = T_FILE \<and> (i_type (inode_at ip s5) = T_FILE \<or> i_type (inode_at ip s5) = T_DEVICE)
                   then Inr (Some ip, s5)
                   else bindR (iunlockput ip s5) (\<lambda>s6. Inr (None, s6))))
             | None \<Rightarrow>
                 bindR (ialloc (i_dev (inode_at dp s3)) type s3) (\<lambda>(ipo, s4).
                   case ipo of
                     None \<Rightarrow> bindR (iunlockput dp s4) (\<lambda>s5. Inr (None, s5))
                   | Some ip \<Rightarrow>
                       bindR (ilock ip s4) (\<lambda>s5.
                       bindR (iupdate ip (upd_inode ip (\<lambda>x. x\<lparr>i_major := major, i_minor := minor, i_nlink := 1\<rparr>) s5)) (\<lambda>s6.
                       bindR (if type = T_DIR then dot_entries ip dp s6 else Inr (0, s6)) (\<lambda>(e, s7).
                         if sint e < 0 then create_fail ip dp s7
                         else bindR (dirlink dp name (i_inum (inode_at ip s7)) s7) (\<lambda>(e', s8).
                           if sint e' < 0 then create_fail ip dp s8
                           else bindR (if type = T_DIR then add_nlink dp 1 s8 else Inr s8) (\<lambda>s9.
                                bindR (iunlockput dp s9) (\<lambda>s10. Inr (Some ip, s10)))))))))))"

text \<open>The inode to open, locked: the first half of \<^verbatim>\<open>sys_open()\<close>.\<close>

definition open_inode :: "nat \<Rightarrow> u8 list \<Rightarrow> i32 \<Rightarrow> kern \<Rightarrow> (nat option \<times> kern) res" where
  "open_inode p path omode s =
     (if omode AND O_CREATE \<noteq> 0 then create p path T_FILE 0 0 s
      else bindR (namei_p p path s) (\<lambda>(ipo, s1).
        case ipo of
          None \<Rightarrow> Inr (None, s1)
        | Some ip \<Rightarrow> bindR (ilock ip s1) (\<lambda>s2.
            if i_type (inode_at ip s2) = T_DIR \<and> omode \<noteq> 0
            then bindR (iunlockput ip s2) (\<lambda>s3. Inr (None, s3)) else Inr (Some ip, s2))))"

definition sys_open :: "nat \<Rightarrow> kern \<Rightarrow> sysret" where
  "sys_open p s =
     bindR (argint p 1 s) (\<lambda>omode. bindR (argstr p 0 MAXPATH s) (\<lambda>(n, path).
       if sint n < 0 then fail s
       else bindR (begin_op s) (\<lambda>s1. bindR (open_inode p path omode s1) (\<lambda>(ipo, s2).
         case ipo of
           None \<Rightarrow> fail_op s2
         | Some ip \<Rightarrow>
             if i_type (inode_at ip s2) = T_DEVICE \<and> bad_major (i_major (inode_at ip s2))
             then bindR (iunlockput ip s2) fail_op
             else case filealloc s2 of
               (None, s3) \<Rightarrow> bindR (iunlockput ip s3) fail_op
             | (Some f, s3) \<Rightarrow>
                 (case fdalloc p f s3 of
                    (None, s4) \<Rightarrow> bindR (fileclose f s4) (\<lambda>s5. bindR (iunlockput ip s5) fail_op)
                  | (Some fd, s4) \<Rightarrow>
                      let s5 = (if i_type (inode_at ip s4) = T_DEVICE
                                then upd_file f (\<lambda>x. x\<lparr>f_type := FD_DEVICE, f_major := i_major (inode_at ip s4)\<rparr>) s4
                                else upd_file f (\<lambda>x. x\<lparr>f_type := FD_INODE, f_off := 0\<rparr>) s4);
                          s6 = upd_file f (\<lambda>x. x\<lparr>f_ip := ip, f_readable := (omode AND O_WRONLY = 0),
                                 f_writable := (omode AND O_WRONLY \<noteq> 0 \<or> omode AND O_RDWR \<noteq> 0)\<rparr>) s5
                      in bindR (if omode AND O_TRUNC \<noteq> 0 \<and> i_type (inode_at ip s6) = T_FILE
                                then itrunc ip s6 else Inr s6) (\<lambda>s7.
                         bindR (iunlock ip s7) (\<lambda>s8. bindR (end_op s8) (\<lambda>s9. Inr (Ret (of_nat fd), s9)))))))))"

text \<open>The tail of \<^verbatim>\<open>sys_mkdir()\<close> and \<^verbatim>\<open>sys_mknod()\<close>.\<close>

definition create_done :: "(nat option \<times> kern) res \<Rightarrow> sysret" where
  "create_done r =
     bindR r (\<lambda>(ipo, s).
       case ipo of None \<Rightarrow> fail_op s
       | Some ip \<Rightarrow> bindR (iunlockput ip s) (\<lambda>s1. bindR (end_op s1) (\<lambda>s2. Inr (Ret 0, s2))))"

definition sys_mkdir :: "nat \<Rightarrow> kern \<Rightarrow> sysret" where
  "sys_mkdir p s =
     bindR (begin_op s) (\<lambda>s1. bindR (argstr p 0 MAXPATH s1) (\<lambda>(r, path).
       if sint r < 0 then fail_op s1 else create_done (create p path T_DIR 0 0 s1)))"

definition sys_mknod :: "nat \<Rightarrow> kern \<Rightarrow> sysret" where
  "sys_mknod p s =
     bindR (begin_op s) (\<lambda>s1. bindR (argint p 1 s1) (\<lambda>major. bindR (argint p 2 s1) (\<lambda>minor.
     bindR (argstr p 0 MAXPATH s1) (\<lambda>(r, path).
       if sint r < 0 then fail_op s1
       else create_done (create p path T_DEVICE (ucast major) (ucast minor) s1)))))"

definition sys_chdir :: "nat \<Rightarrow> kern \<Rightarrow> sysret" where
  "sys_chdir p s =
     bindR (begin_op s) (\<lambda>s1. bindR (argstr p 0 MAXPATH s1) (\<lambda>(r, path).
       if sint r < 0 then fail_op s1
       else bindR (namei_p p path s1) (\<lambda>(ipo, s2).
         case ipo of
           None \<Rightarrow> fail_op s2
         | Some ip \<Rightarrow>
             bindR (ilock ip s2) (\<lambda>s3.
               if i_type (inode_at ip s3) \<noteq> T_DIR then bindR (iunlockput ip s3) fail_op
               else bindR (iunlock ip s3) (\<lambda>s4.
                    bindR (case cwd (proc_at p s4) of Some c \<Rightarrow> iput c s4 | None \<Rightarrow> Inl (Panic ''kerneltrap'')) (\<lambda>s5.
                    bindR (end_op s5) (\<lambda>s6. Inr (Ret 0, upd_pr p (\<lambda>q. q\<lparr>cwd := Some ip\<rparr>) s6))))))))"

section \<open>Exec and pipe\<close>

text \<open>
  The loop of \<^verbatim>\<open>sys_exec()\<close> that fetches \<^verbatim>\<open>argv[i]\<close>, with \<open>k\<close> of the \<^verbatim>\<open>MAXARG\<close> places left: the strings, if
  it succeeds, and the pages allocated for them.
\<close>

primrec fetch_args :: "nat \<Rightarrow> nat \<Rightarrow> u64 \<Rightarrow> nat \<Rightarrow> kern \<Rightarrow> (u8 list list option \<times> u64 list \<times> kern) res" where
  "fetch_args 0 p uargv i s = Inr (None, [], s)"
| "fetch_args (Suc k) p uargv i s =
     bindR (fetchaddr p (uargv + 8 * of_nat i) s) (\<lambda>(e, uarg, s1).
       if sint e < 0 then Inr (None, [], s1)
       else if uarg = 0 then Inr (Some [], [], s1)
       else let (pa, m) = kalloc (kpm s1); s2 = s1\<lparr>kpm := m\<rparr>
            in if pa = 0 then Inr (None, [], s2)
               else bindR (fetchstr p uarg 4096 s2) (\<lambda>(r, a).
                 let s3 = s2\<lparr>kpm := (kpm s2)\<lparr>mem := write_bytes (mem (kpm s2)) pa (if sint r < 0 then a else a @ [0])\<rparr>\<rparr>
                 in if sint r < 0 then Inr (None, [pa], s3)
                    else bindR (fetch_args k p uargv (Suc i) s3) (\<lambda>(as, pas, s4).
                           Inr (map_option (Cons a) as, pa # pas, s4))))"

definition free_pages :: "u64 list \<Rightarrow> kern \<Rightarrow> kern res" where
  "free_pages pas s = bindR (foldR kfree pas (kpm s)) (\<lambda>m. Inr (s\<lparr>kpm := m\<rparr>))"

definition sys_exec :: "nat \<Rightarrow> kern \<Rightarrow> sysret" where
  "sys_exec p s =
     bindR (argaddr p 1 s) (\<lambda>uargv. bindR (argstr p 0 MAXPATH s) (\<lambda>(r, path).
       if sint r < 0 then fail s
       else bindR (fetch_args MAXARG p uargv 0 s) (\<lambda>(argv, pas, s1).
         case argv of
           None \<Rightarrow> bindR (free_pages pas s1) fail
         | Some argv \<Rightarrow> bindR (kexec p path argv s1) (\<lambda>(ret, s2).
                          bindR (free_pages pas s2) (\<lambda>s3. Inr (Ret (scast ret), s3))))))"

definition close_both :: "nat \<Rightarrow> nat \<Rightarrow> kern \<Rightarrow> sysret" where
  "close_both rf wfl s = bindR (fileclose rf s) (\<lambda>s1. bindR (fileclose wfl s1) fail)"

definition sys_pipe :: "nat \<Rightarrow> kern \<Rightarrow> sysret" where
  "sys_pipe p s =
     bindR (argaddr p 0 s) (\<lambda>fdarray. bindR (pipealloc s) (\<lambda>(r, s1).
       case r of
         None \<Rightarrow> fail s1
       | Some (rf, wfl) \<Rightarrow>
           (case fdalloc p rf s1 of
              (None, s2) \<Rightarrow> close_both rf wfl s2
            | (Some fd0, s2) \<Rightarrow>
                (case fdalloc p wfl s2 of
                   (None, s3) \<Rightarrow> close_both rf wfl (clear_fd p fd0 s3)
                 | (Some fd1, s3) \<Rightarrow>
                     bindR (copyout_p p fdarray (put32 (replicate 4 0) 0 (of_nat fd0)) s3) (\<lambda>(e0, s4).
                     bindR (if sint e0 < 0 then Inr (e0, s4)
                            else copyout_p p (fdarray + 4) (put32 (replicate 4 0) 0 (of_nat fd1)) s4) (\<lambda>(e1, s5).
                       if sint e1 < 0 then close_both rf wfl (clear_fd p fd1 (clear_fd p fd0 s5))
                       else Inr (Ret 0, s5)))))))"

end
