(* ===== verification/Sysproc.thy ===== *)
theory Sysproc
  imports Sysfile
begin

text \<open>
  The system calls on processes and time (\<^verbatim>\<open>kernel/sysproc.c\<close>) and the dispatch of system calls (the end
  of \<^verbatim>\<open>kernel/syscall.c\<close>).
\<close>

section \<open>Processes\<close>

definition sys_exit :: "nat \<Rightarrow> kern \<Rightarrow> sysret" where
  "sys_exit p s = bindR (argint p 0 s) (\<lambda>n. bindR (kexit p n s) (\<lambda>s1. Inr (Gone, s1)))"

definition sys_getpid :: "nat \<Rightarrow> kern \<Rightarrow> sysret" where
  "sys_getpid p s = Inr (Ret (scast (p_pid (proc_at p s))), s)"

definition sys_fork :: "nat \<Rightarrow> kern \<Rightarrow> sysret" where
  "sys_fork p s = ret_int (kfork p s)"

definition sys_wait :: "nat \<Rightarrow> kern \<Rightarrow> sysret" where
  "sys_wait p s = bindR (argaddr p 0 s) (\<lambda>addr. sx (kwait p addr s))"

definition sys_kill :: "nat \<Rightarrow> kern \<Rightarrow> sysret" where
  "sys_kill p s = bindR (argint p 0 s) (\<lambda>pid. let (r, k) = kkill pid (ks s) in Inr (Ret (scast r), s\<lparr>ks := k\<rparr>))"

abbreviation (input) SBRK_EAGER :: i32 where "SBRK_EAGER \<equiv> 1"

definition sys_sbrk :: "nat \<Rightarrow> kern \<Rightarrow> sysret" where
  "sys_sbrk p s =
     bindR (argint p 0 s) (\<lambda>n. bindR (argint p 1 s) (\<lambda>t.
       let addr = sz (proc_at p s)
       in if t = SBRK_EAGER \<or> sint n < 0
          then bindR (growproc n addr (pagetable (proc_at p s)) (kpm s)) (\<lambda>(r, sz', m).
                 let s1 = upd_pr p (\<lambda>q. q\<lparr>sz := sz'\<rparr>) (s\<lparr>kpm := m\<rparr>)
                 in if sint r < 0 then fail s1 else Inr (Ret addr, s1))
          else if addr + scast n < addr then fail s
          else if TRAPFRAME < addr + scast n then fail s
          else Inr (Ret addr, upd_pr p (\<lambda>q. q\<lparr>sz := sz q + scast n\<rparr>) s)))"

section \<open>Time\<close>

text \<open>
  The loop \<^verbatim>\<open>while (ticks - ticks0 < n)\<close>, up to a return or a \<^verbatim>\<open>sleep()\<close>; a process that is woken up tests
  again, with the same \<^verbatim>\<open>ticks0\<close>. The comparison is between unsigned numbers.
\<close>

definition tick_wait :: "nat \<Rightarrow> u32 \<Rightarrow> i32 \<Rightarrow> kern \<Rightarrow> u64 outcome" where
  "tick_wait p ticks0 n s =
     (if ticks (ks s) - ticks0 < n then if is_killed p s then Ret (- 1) else Block TicksChan (unat ticks0)
      else Ret 0)"

definition sys_pause :: "nat \<Rightarrow> kern \<Rightarrow> sysret" where
  "sys_pause p s =
     bindR (argint p 0 s) (\<lambda>n. Inr (tick_wait p (ticks (ks s)) (if sint n < 0 then 0 else n) s, s))"

definition sys_sleep :: "nat \<Rightarrow> kern \<Rightarrow> sysret" where
  "sys_sleep p s = bindR (argint p 0 s) (\<lambda>n. Inr (tick_wait p (ticks (ks s)) n s, s))"

definition sys_uptime :: "nat \<Rightarrow> kern \<Rightarrow> sysret" where
  "sys_uptime p s = Inr (Ret (ucast (ticks (ks s))), s)"

section \<open>Process information\<close>

text \<open>
  A \<^verbatim>\<open>struct uproc\<close> as bytes: pid, priority, ticks, name. The loop of \<^verbatim>\<open>sys_getprocinfo()\<close> goes over the
  slots; \<open>up\<close> is the variable on the kernel stack, which keeps the rest of an earlier name.
\<close>

definition fill_uproc :: "proc \<Rightarrow> u8 list \<Rightarrow> u8 list" where
  "fill_uproc q up =
     (let b = put32 (put32 (put32 up 0 (p_pid q)) 4 (priority q)) 8 (ticks_used q)
      in blit b 12 (str_field (slice b 12 16) 16 (p_name q)))"

primrec procinfo_loop :: "nat list \<Rightarrow> nat \<Rightarrow> u64 \<Rightarrow> nat \<Rightarrow> u8 list \<Rightarrow> kern \<Rightarrow> sysret" where
  "procinfo_loop [] p uaddr idx up s = Inr (Ret (of_nat idx), s)"
| "procinfo_loop (i # is) p uaddr idx up s =
     (if p_state (proc_at i s) \<noteq> UNUSED
      then let up1 = fill_uproc (proc_at i s) up
           in bindR (copyout_p p (uaddr + of_nat idx * 28) up1 s) (\<lambda>(r, s1).
                if sint r < 0 then fail s1 else procinfo_loop is p uaddr (Suc idx) up1 s1)
      else procinfo_loop is p uaddr idx up s)"

definition sys_getprocinfo :: "nat \<Rightarrow> kern \<Rightarrow> sysret" where
  "sys_getprocinfo p s =
     bindR (argaddr p 0 s) (\<lambda>uaddr.
       procinfo_loop [0..<length (procs (ks s))] p uaddr 0 (map (stack_junk s) [0..<28]) s)"

section \<open>Dispatch\<close>

definition syscalls :: "(nat \<Rightarrow> kern \<Rightarrow> sysret) option list" where
  "syscalls = [None, Some sys_fork, Some sys_exit, Some sys_wait, Some sys_pipe, Some sys_read, Some sys_kill,
     Some sys_exec, Some sys_fstat, Some sys_chdir, Some sys_dup, Some sys_getpid, Some sys_sbrk, Some sys_pause,
     Some sys_uptime, Some sys_open, Some sys_write, Some sys_mknod, Some sys_unlink, Some sys_link, Some sys_mkdir,
     Some sys_close, Some sys_sleep, Some sys_getprocinfo]"

definition sys_handler :: "i32 \<Rightarrow> (nat \<Rightarrow> kern \<Rightarrow> sysret) option" where
  "sys_handler num =
     (if 0 < sint num \<and> sint num < int (length syscalls) then syscalls ! nat (sint num) else None)"

text \<open>
  \<^verbatim>\<open>syscall()\<close>. The result of the call goes into \<^verbatim>\<open>a0\<close> if there is one.
\<close>

definition syscall :: "nat \<Rightarrow> kern \<Rightarrow> sysret" where
  "syscall p s =
     (let num = ucast (tf_get p TF_A7 s)
      in case sys_handler num of
           Some f \<Rightarrow>
             bindR (f p s) (\<lambda>(r, s1).
               case r of
                 Ret x \<Rightarrow> Inr (Ret x, tf_set p TF_A0 x (deliver s1))
               | _ \<Rightarrow> Inr (r, deliver s1))
         | None \<Rightarrow>
             bindR (on_uart (printk (bytes ''%d %s: unknown sys call %d'' @ [10])
                      [AReg (scast (p_pid (proc_at p s))), AStr (Some (p_name (proc_at p s))), AReg (scast num)]) s)
               (\<lambda>s1. Inr (Ret (- 1), tf_set p TF_A0 (- 1) s1)))"

end
