(* ===== verification/Trap.thy ===== *)
theory Trap
  imports Sysproc
begin

text \<open>
  Traps (\<^verbatim>\<open>kernel/trap.c\<close>), the interrupt controller (\<^verbatim>\<open>kernel/plic.c\<close>), the first run of a process
  (\<^verbatim>\<open>forkret()\<close>) and the start of the kernel (\<^verbatim>\<open>kernel/main.c\<close>, \<^verbatim>\<open>kernel/start.c\<close>).

  The control registers are those of the CPU the code runs on; the interrupt enable bit is the flag \<open>sie\<close>
  of theory Spinlock. A trap ends on its way back to user space, in the scheduler (after a timer tick or
  an exit), or in a system call that waits. What remains to be done after a \<^verbatim>\<open>yield()\<close> is
  \<open>usertrap_tail\<close>.
\<close>

section \<open>Interrupt controller\<close>

abbreviation (input) UART0_IRQ :: u32 where "UART0_IRQ \<equiv> 10"
abbreviation (input) VIRTIO0_IRQ :: u32 where "VIRTIO0_IRQ \<equiv> 1"

definition plic_write :: "u64 \<Rightarrow> u32 \<Rightarrow> kern \<Rightarrow> kern" where
  "plic_write a x s = s\<lparr>plic := (fst (plic s), snd (plic s) @ [(a, x)])\<rparr>"

definition PLIC_SENABLE :: "nat \<Rightarrow> u64" where
  "PLIC_SENABLE h = PLIC + 0x2080 + of_nat h * 0x100"

definition PLIC_SPRIORITY :: "nat \<Rightarrow> u64" where
  "PLIC_SPRIORITY h = PLIC + 0x201000 + of_nat h * 0x2000"

definition PLIC_SCLAIM :: "nat \<Rightarrow> u64" where
  "PLIC_SCLAIM h = PLIC + 0x201004 + of_nat h * 0x2000"

definition plicinit :: "kern \<Rightarrow> kern" where
  "plicinit s = plic_write (PLIC + ucast (VIRTIO0_IRQ * 4)) 1 (plic_write (PLIC + ucast (UART0_IRQ * 4)) 1 s)"

definition plicinithart :: "kern \<Rightarrow> kern" where
  "plicinithart s =
     plic_write (PLIC_SPRIORITY (hart s)) 0
       (plic_write (PLIC_SENABLE (hart s)) (push_bit (unat UART0_IRQ) 1 OR push_bit (unat VIRTIO0_IRQ) 1) s)"

text \<open>The first component of \<open>plic\<close> are the interrupts that the controller will hand out, 0 if there is none.\<close>

definition plic_claim :: "kern \<Rightarrow> u32 \<times> kern" where
  "plic_claim s = (case fst (plic s) of [] \<Rightarrow> (0, s) | irq # rest \<Rightarrow> (irq, s\<lparr>plic := (rest, snd (plic s))\<rparr>))"

definition plic_complete :: "u32 \<Rightarrow> kern \<Rightarrow> kern" where
  "plic_complete irq s = plic_write (PLIC_SCLAIM (hart s)) irq s"

section \<open>Device interrupts\<close>

definition clock_intr :: "kern \<Rightarrow> kern res" where
  "clock_intr s =
     bindR (clockintr (hart s) (ks s)) (\<lambda>k.
       Inr (s\<lparr>ks := k, csr := (csr s)\<lparr>stimecmp := time (csr s) + 1000000\<rparr>\<rparr>))"

definition uart_intr :: "kern \<Rightarrow> kern res" where
  "uart_intr s = bindR (uartintr (kcons s) (kuart s)) (\<lambda>(k, u, chs). Inr (wake chs (s\<lparr>kcons := k, kuart := u\<rparr>)))"

definition disk_intr :: "kern \<Rightarrow> kern res" where
  "disk_intr s =
     bindR (virtio_disk_intr (bufs s) (vdisk s)) (\<lambda>(bs, v).
       Inr (wake (v_woken v) (s\<lparr>bufs := bs, vdisk := v\<lparr>v_woken := []\<rparr>\<rparr>)))"

abbreviation (input) EXTERNAL_INTR :: u64 where "EXTERNAL_INTR \<equiv> 0x8000000000000009"
abbreviation (input) TIMER_INTR :: u64 where "TIMER_INTR \<equiv> 0x8000000000000005"

definition devintr :: "kern \<Rightarrow> (nat \<times> kern) res" where
  "devintr s =
     (if scause (csr s) = EXTERNAL_INTR then
        let (irq, s1) = plic_claim s
        in bindR (if irq = UART0_IRQ then uart_intr s1
                  else if irq = VIRTIO0_IRQ then disk_intr s1
                  else if irq \<noteq> 0
                  then on_uart (printk (bytes ''unexpected interrupt irq=%d'' @ [10]) [AReg (ucast irq)]) s1
                  else Inr s1) (\<lambda>s2.
             Inr (1, deliver (if irq \<noteq> 0 then plic_complete irq s2 else s2)))
      else if scause (csr s) = TIMER_INTR then bindR (clock_intr s) (\<lambda>s1. Inr (2, s1))
      else Inr (0, s))"

section \<open>Traps from user space\<close>

abbreviation (input) SSTATUS_SPP :: u64 where "SSTATUS_SPP \<equiv> 0x100"
abbreviation (input) SSTATUS_SPIE :: u64 where "SSTATUS_SPIE \<equiv> 0x20"

datatype trapend = ToUser u64 | Yielded | Waiting "u64 outcome" | Exited

definition trapinithart :: "kern \<Rightarrow> kern" where
  "trapinithart s = s\<lparr>csr := (csr s)\<lparr>stvec := a_kernelvec (kimg s)\<rparr>\<rparr>"

definition set_intr :: "(nat \<Rightarrow> cpu list \<Rightarrow> cpu list) \<Rightarrow> kern \<Rightarrow> kern" where
  "set_intr f s = s\<lparr>ks := (ks s)\<lparr>cpus := f (hart s) (cpus (ks s))\<rparr>\<rparr>"

definition prepare_return :: "nat \<Rightarrow> kern \<Rightarrow> kern" where
  "prepare_return p s =
     (let s1 = set_intr intr_off s;
          s2 = s1\<lparr>csr := (csr s1)\<lparr>stvec := TRAMPOLINE + (a_uservec (kimg s1) - a_trampoline (kimg s1))\<rparr>\<rparr>;
          s3 = tf_set p TF_KERNEL_SATP (satp (csr s2)) s2;
          s4 = tf_set p TF_KERNEL_SP (kstack (proc_at p s3) + PGSIZE) s3;
          s5 = tf_set p TF_KERNEL_TRAP (a_usertrap (kimg s4)) s4;
          s6 = tf_set p TF_KERNEL_HARTID (of_nat (hart s5)) s5;
          x = (sstatus (csr s6) AND NOT SSTATUS_SPP) OR SSTATUS_SPIE
      in s6\<lparr>csr := (csr s6)\<lparr>sstatus := x, sepc := tf_get p TF_EPC s6\<rparr>\<rparr>)"

definition usertrap_tail :: "nat \<Rightarrow> kern \<Rightarrow> (trapend \<times> kern) res" where
  "usertrap_tail p s =
     (let s1 = prepare_return p s in Inr (ToUser (MAKE_SATP (pagetable (proc_at p s1))), s1))"

text \<open>The middle of \<^verbatim>\<open>usertrap()\<close>: what the trap is for, and \<^verbatim>\<open>which_dev\<close>.\<close>

definition exit_trap :: "nat \<Rightarrow> kern \<Rightarrow> (trapend option \<times> nat \<times> kern) res" where
  "exit_trap p s = bindR (kexit p (- 1) s) (\<lambda>s1. Inr (Some Exited, 0, s1))"

definition page_fault :: "nat \<Rightarrow> kern \<Rightarrow> (bool \<times> kern) res" where
  "page_fault p s =
     (if scause (csr s) = 15 \<or> scause (csr s) = 13
      then bindR (on_pm (vmfault (sz (proc_at p s)) (pagetable (proc_at p s)) (pagetable (proc_at p s)) (stval (csr s))) s)
             (\<lambda>(pa, s1). Inr (pa \<noteq> 0, s1))
      else Inr (False, s))"

definition trap_cause :: "nat \<Rightarrow> kern \<Rightarrow> (trapend option \<times> nat \<times> kern) res" where
  "trap_cause p s =
     (if scause (csr s) = 8 then
        if is_killed p s then exit_trap p s
        else let s1 = set_intr intr_on (tf_set p TF_EPC (tf_get p TF_EPC s + 4) s)
             in bindR (syscall p s1) (\<lambda>(r, s2).
                  case r of Ret _ \<Rightarrow> Inr (None, 0, s2) | Gone \<Rightarrow> Inr (Some Exited, 0, s2) | _ \<Rightarrow> Inr (Some (Waiting r), 0, s2))
      else bindR (devintr s) (\<lambda>(which_dev, s1).
        if which_dev \<noteq> 0 then Inr (None, which_dev, s1)
        else bindR (page_fault p s1) (\<lambda>(ok, s2).
          if ok then Inr (None, 0, s2)
          else bindR (on_uart (printk (bytes ''usertrap(): unexpected scause 0x%lx pid=%d'' @ [10])
                        [AReg (scause (csr s2)), AReg (scast (p_pid (proc_at p s2)))]) s2) (\<lambda>s3.
               bindR (on_uart (printk (bytes ''            sepc=0x%lx stval=0x%lx'' @ [10])
                        [AReg (sepc (csr s3)), AReg (stval (csr s3))]) s3) (\<lambda>s4.
                 Inr (None, 0, s4\<lparr>ks := setkilled p (ks s4)\<rparr>))))))"

definition usertrap :: "nat \<Rightarrow> kern \<Rightarrow> (trapend \<times> kern) res" where
  "usertrap p s =
     (if sstatus (csr s) AND SSTATUS_SPP \<noteq> 0 then Inl (Panic ''usertrap: not from user mode'')
      else let s1 = tf_set p TF_EPC (sepc (csr s)) (trapinithart s)
           in bindR (trap_cause p s1) (\<lambda>(e, which_dev, s2).
                case e of
                  Some e \<Rightarrow> Inr (e, s2)
                | None \<Rightarrow>
                    if is_killed p s2 then bindR (kexit p (- 1) s2) (\<lambda>s3. Inr (Exited, s3))
                    else if which_dev = 2
                    then bindR (user_timer (hart s2) (ks s2)) (\<lambda>k. Inr (Yielded, s2\<lparr>ks := k\<rparr>))
                    else usertrap_tail p s2))"

section \<open>Traps from the kernel\<close>

text \<open>
  \<^verbatim>\<open>kerneltrap()\<close>: whether it yields; if so the registers are restored after the return from
  \<^verbatim>\<open>yield()\<close>, by \<open>kerneltrap_restore\<close>.
\<close>

definition kerneltrap_restore :: "u64 \<Rightarrow> u64 \<Rightarrow> kern \<Rightarrow> kern" where
  "kerneltrap_restore epc status s = s\<lparr>csr := (csr s)\<lparr>sepc := epc, sstatus := status\<rparr>\<rparr>"

definition kerneltrap :: "kern \<Rightarrow> (bool \<times> kern) res" where
  "kerneltrap s =
     (let epc = sepc (csr s); status = sstatus (csr s)
      in if status AND SSTATUS_SPP = 0 then Inl (Panic ''kerneltrap: not from supervisor mode'')
         else if intr_get (hart s) (cpus (ks s)) then Inl (Panic ''kerneltrap: interrupts enabled'')
         else bindR (devintr s) (\<lambda>(which_dev, s1).
           if which_dev = 0
           then bindR (on_uart (printk (bytes ''scause=0x%lx sepc=0x%lx stval=0x%lx'' @ [10])
                         [AReg (scause (csr s1)), AReg (sepc (csr s1)), AReg (stval (csr s1))]) s1)
                  (\<lambda>_. Inl (Panic ''kerneltrap''))
           else if which_dev = 2 \<and> myproc (hart s1) (ks s1) \<noteq> None
           then bindR (kernel_timer (hart s1) (ks s1)) (\<lambda>k. Inr (True, s1\<lparr>ks := k\<rparr>))
           else Inr (False, kerneltrap_restore epc status s1)))"

section \<open>The first run of a process\<close>

text \<open>\<^verbatim>\<open>forkret()\<close>: the page table and the address it jumps to.\<close>

definition forkret :: "nat \<Rightarrow> kern \<Rightarrow> (u64 \<times> u64 \<times> kern) res" where
  "forkret p s =
     bindR (release_p (hart s) p (ks s)) (\<lambda>k.
     bindR (let s1 = s\<lparr>ks := k\<rparr>
            in if first s1
               then bindR (fsinit ROOTDEV s1) (\<lambda>s2.
                    bindR (kexec p (bytes ''/init'') [bytes ''/init''] (s2\<lparr>first := False\<rparr>)) (\<lambda>(r, s3).
                      let s4 = tf_set p TF_A0 (scast r) s3
                      in if tf_get p TF_A0 s4 = - 1 then Inl (Panic ''exec'') else Inr s4))
               else Inr s1) (\<lambda>s5.
       let s6 = prepare_return p s5
       in Inr (MAKE_SATP (pagetable (proc_at p s6)), TRAMPOLINE + (a_userret (kimg s6) - a_trampoline (kimg s6)), s6)))"

section \<open>Starting the kernel\<close>

definition kvminit :: "kern \<Rightarrow> kern res" where
  "kvminit s =
     bindR (on_pm (kvmmake (a_etext (kimg s)) (a_trampoline (kimg s))) s) (\<lambda>(pt, s1). Inr (s1\<lparr>kpagetable := pt\<rparr>))"

definition kvminithart :: "kern \<Rightarrow> kern" where
  "kvminithart s = s\<lparr>csr := (csr s)\<lparr>satp := MAKE_SATP (kpagetable s)\<rparr>\<rparr>"

definition trapinit :: "kern \<Rightarrow> kern" where
  "trapinit s = s\<lparr>ks := (ks s)\<lparr>tickslock := initlock ''time''\<rparr>\<rparr>"

text \<open>\<^verbatim>\<open>main()\<close> up to the call of \<^verbatim>\<open>scheduler()\<close>, on CPU 0 and on the others; \<open>rd\<close> are the registers of the disk.\<close>

definition boot_banner :: "kern \<Rightarrow> kern res" where
  "boot_banner s =
     on_uart (\<lambda>u. foldR (\<lambda>fmt. printk fmt []) [[10], bytes ''xv6 kernel is booting'' @ [10], [10]] u) s"

definition main_first :: "(nat \<Rightarrow> u32) \<Rightarrow> kern \<Rightarrow> kern res" where
  "main_first rd s =
     (let (u, dv) = consoleinit (kuart s) (devsws s)
      in bindR (boot_banner (s\<lparr>kuart := u, devsws := dv\<rparr>)) (\<lambda>s1.
         bindR (kinit (kpm s1)) (\<lambda>m.
         bindR (kvminit (s1\<lparr>kpm := m\<rparr>)) (\<lambda>s2.
           let s3 = kvminithart s2;
               s4 = trapinithart (trapinit (s3\<lparr>ks := procinit (ks s3)\<rparr>));
               s5 = iinit (binit (plicinithart (plicinit s4)))
           in bindR (virtio_disk_init rd (vdisk s5) (kpm s5)) (\<lambda>(v, m1).
              userinit (s5\<lparr>vdisk := v, kpm := m1\<rparr>))))))"

definition main_other :: "kern \<Rightarrow> kern res" where
  "main_other s =
     bindR (on_uart (printk (bytes ''hart %d starting'' @ [10]) [AReg (of_nat (hart s))]) s) (\<lambda>s1.
       Inr (plicinithart (trapinithart (kvminithart s1))))"

text \<open>\<^verbatim>\<open>start()\<close> and \<^verbatim>\<open>timerinit()\<close>: the registers of machine mode before \<^verbatim>\<open>mret\<close>.\<close>

record mregs =
  mstatus :: u64
  mepc :: u64
  msatp :: u64
  medeleg :: u64
  mideleg :: u64
  msie :: u64
  pmpaddr0 :: u64
  pmpcfg0 :: u64
  menvcfg :: u64
  mcounteren :: u64
  mtime :: u64
  mstimecmp :: u64
  mhartid :: u64
  tp :: u64

definition timerinit :: "mregs \<Rightarrow> mregs" where
  "timerinit r =
     r\<lparr>menvcfg := menvcfg r OR push_bit 63 1, mcounteren := mcounteren r OR 2, mstimecmp := mtime r + 1000000\<rparr>"

definition start :: "u64 \<Rightarrow> mregs \<Rightarrow> mregs" where
  "start main_addr r =
     (let x = (mstatus r AND NOT (push_bit 11 3)) OR push_bit 11 1;
          r1 = r\<lparr>mstatus := x, mepc := main_addr, msatp := 0, medeleg := 0xffff, mideleg := 0xffff,
                 msie := msie r OR push_bit 9 1 OR push_bit 5 1, pmpaddr0 := 0x3fffffffffffff, pmpcfg0 := 0xf\<rparr>;
          r2 = timerinit r1
      in r2\<lparr>tp := scast (ucast (mhartid r2) :: i32)\<rparr>)"

end
