(* ===== verification/FileInv.thy ===== *)
theory FileInv
  imports Trap
begin

text \<open>
  The reference counts of open files. Every trap from user space, whatever system call it is for, keeps
  the number of references in the file table equal to the number of descriptors that exist.

  The proof goes through the operations one by one. Most of them do not change what the invariant looks at
  (\<open>fview\<close>); the others are described by the references they take over or give up.
\<close>

section \<open>Reference counts\<close>

text \<open>
  What the invariant looks at: for every slot the descriptors and whether the slot is free or a zombie,
  and the file table.
\<close>

definition fdv :: "ksched \<Rightarrow> (nat option list \<times> bool) list" where
  "fdv k = map (\<lambda>q. (ofile q, p_state q = UNUSED \<or> p_state q = ZOMBIE)) (procs k)"

text \<open>
  The reference count of a file is the number of descriptors for it, plus the references \<open>E\<close> that a running
  operation holds; a file that is not referenced has no type; free slots and zombies have nothing open.
\<close>

definition slot_ok :: "nat \<Rightarrow> nat option list \<times> bool \<Rightarrow> bool" where
  "slot_ok n sl \<longleftrightarrow> length (fst sl) = NOFILE \<and> (\<forall>f. Some f \<in> set (fst sl) \<longrightarrow> f < n) \<and>
     (snd sl \<longrightarrow> fst sl = replicate NOFILE None)"

definition refs_ok :: "(nat \<Rightarrow> int) \<Rightarrow> (nat option list \<times> bool) list \<Rightarrow> kfile list \<Rightarrow> bool" where
  "refs_ok E fv ft \<longleftrightarrow> (\<forall>sl \<in> set fv. slot_ok (length ft) sl) \<and>
     (\<forall>f < length ft. f_ref (ft ! f) = int (count_list (concat (map fst fv)) (Some f)) + E f \<and>
        (f_ref (ft ! f) = 0 \<longrightarrow> f_type (ft ! f) = FD_NONE))"

definition fref_inv :: "kern \<Rightarrow> bool" where
  "fref_inv s \<longleftrightarrow> refs_ok (\<lambda>_. 0) (fdv (ks s)) (ftable s)"

lemma count_list_update:
  "i < length xs \<Longrightarrow> count_list (xs[i := y]) z + (if xs ! i = z then 1 else 0) = count_list xs z + (if y = z then 1 else 0)"
proof -
  assume i: "i < length xs"
  have "count_list xs z = count_list (take i xs) z + count_list (xs ! i # drop (Suc i) xs) z"
    by (subst id_take_nth_drop [OF i]) (rule count_list_append)
  moreover have "count_list (xs[i := y]) z = count_list (take i xs) z + count_list (y # drop (Suc i) xs) z"
    by (subst upd_conv_take_nth_drop [OF i]) (rule count_list_append)
  ultimately show ?thesis by simp
qed

lemma count_concat_update:
  "p < length fv \<Longrightarrow> count_list (concat (map fst (fv[p := (ofs, d)]))) z + count_list (fst (fv ! p)) z =
     count_list (concat (map fst fv)) z + count_list ofs z"
proof -
  assume p: "p < length fv"
  have "count_list (concat (map fst fv)) z =
      count_list (concat (map fst (take p fv))) z + (count_list (fst (fv ! p)) z + count_list (concat (map fst (drop (Suc p) fv))) z)"
    by (subst id_take_nth_drop [OF p]) (simp add: count_list_append)
  moreover have "count_list (concat (map fst (fv[p := (ofs, d)]))) z =
      count_list (concat (map fst (take p fv))) z + (count_list ofs z + count_list (concat (map fst (drop (Suc p) fv))) z)"
    by (subst upd_conv_take_nth_drop [OF p]) (simp add: count_list_append)
  ultimately show ?thesis by simp
qed

lemma refs_okD:
  assumes "refs_ok E fv ft" "p < length fv" "fv ! p = (ofs, d)"
  shows "length ofs = NOFILE" "i < NOFILE \<Longrightarrow> ofs ! i = Some f \<Longrightarrow> f < length ft" "d \<Longrightarrow> ofs = replicate NOFILE None"
proof -
  have "(ofs, d) \<in> set fv" using assms nth_mem by metis
  then have a: "slot_ok (length ft) (ofs, d)" using assms(1) by (simp add: refs_ok_def)
  show "length ofs = NOFILE" "d \<Longrightarrow> ofs = replicate NOFILE None" using a by (auto simp: slot_ok_def)
  show "f < length ft" if "i < NOFILE" "ofs ! i = Some f"
    using a that nth_mem [of i ofs] by (auto simp: slot_ok_def)
qed

lemma refs_ok_ref:
  assumes "refs_ok E fv ft" "f < length ft"
  shows "f_ref (ft ! f) = int (count_list (concat (map fst fv)) (Some f)) + E f"
    "f_ref (ft ! f) = 0 \<Longrightarrow> f_type (ft ! f) = FD_NONE"
  using assms by (auto simp: refs_ok_def)

text \<open>Changing the count of a file together with the references that are held.\<close>

lemma refs_ok_set_file:
  assumes "refs_ok E fv ft" "f < length ft" "f_ref x = f_ref (ft ! f) + n" "f_ref x = 0 \<Longrightarrow> f_type x = FD_NONE"
  shows "refs_ok (E(f := E f + n)) fv (ft[f := x])"
  using assms by (simp add: refs_ok_def nth_list_update)

text \<open>Changing one descriptor together with the references that are held.\<close>

lemma refs_ok_set_fd:
  assumes r: "refs_ok E fv ft" and p: "p < length fv" "fv ! p = (ofs, False)" and i: "i < NOFILE"
    and y: "case y of Some f \<Rightarrow> f < length ft | None \<Rightarrow> True" and ne: "ofs ! i = None \<or> y = None"
    and E': "E' = (case y of Some f \<Rightarrow> E(f := E f - 1) | None \<Rightarrow> (case ofs ! i of Some f \<Rightarrow> E(f := E f + 1) | None \<Rightarrow> E))"
  shows "refs_ok E' (fv[p := (ofs[i := y], False)]) ft"
proof -
  have len: "length ofs = NOFILE" using refs_okD [OF r p] by simp
  have cnt: "count_list (concat (map fst (fv[p := (ofs[i := y], False)]))) z + (if ofs ! i = z then 1 else 0) =
      count_list (concat (map fst fv)) z + (if y = z then 1 else 0)" for z
    using count_concat_update [OF p(1), of "ofs[i := y]" False z] count_list_update [of i ofs y z] i len p(2) by simp
  have set: "set (fv[p := (ofs[i := y], False)]) \<subseteq> insert (ofs[i := y], False) (set fv)" by (rule set_update_subset_insert)
  have upd: "set (ofs[i := y]) \<subseteq> insert y (set ofs)" by (rule set_update_subset_insert)
  have "slot_ok (length ft) (ofs, False)" using r p nth_mem [OF p(1)] by (simp add: refs_ok_def)
  then have new: "slot_ok (length ft) (ofs[i := y], False)"
    using upd y by (auto simp: slot_ok_def split: option.splits)
  have files: "f_ref (ft ! f) = int (count_list (concat (map fst (fv[p := (ofs[i := y], False)]))) (Some f)) + E' f"
    if "f < length ft" for f
    using refs_ok_ref(1) [OF r that] cnt [of "Some f"] y ne
    by (auto simp: E' split: option.splits if_splits)
  show ?thesis
    unfolding refs_ok_def using set new files r [unfolded refs_ok_def] by blast
qed

section \<open>What most operations keep\<close>

definition fview :: "kern \<Rightarrow> (nat option list \<times> bool) list \<times> kfile list \<times> nat option" where
  "fview s = (fdv (ks s), ftable s, myproc (hart s) (ks s))"

definition rok :: "(nat \<Rightarrow> int) \<Rightarrow> kern \<Rightarrow> bool" where
  "rok E s \<longleftrightarrow> refs_ok E (fdv (ks s)) (ftable s)"

text \<open>The caller is the running process.\<close>

definition caller :: "nat \<Rightarrow> kern \<Rightarrow> bool" where
  "caller p s \<longleftrightarrow> myproc (hart s) (ks s) = Some p \<and> p < length (fdv (ks s)) \<and> \<not> snd (fdv (ks s) ! p)"

lemma fview_rok: "fview s' = fview s \<Longrightarrow> rok E s' = rok E s" "fview s' = fview s \<Longrightarrow> caller p s' = caller p s"
  by (simp_all add: fview_def rok_def caller_def)

lemma length_fdv [simp]: "length (fdv k) = length (procs k)"
  by (simp add: fdv_def)

lemma fdv_nth: "p < length (procs k) \<Longrightarrow>
    fdv k ! p = (ofile (procs k ! p), p_state (procs k ! p) = UNUSED \<or> p_state (procs k ! p) = ZOMBIE)"
  by (simp add: fdv_def)

lemma fdv_upd_proc: "fdv (upd_proc p g k) =
    (fdv k)[p := (ofile (g (procs k ! p)), p_state (g (procs k ! p)) = UNUSED \<or> p_state (g (procs k ! p)) = ZOMBIE)]"
  by (simp add: fdv_def map_update)

lemma fdv_same: "ofile (g (procs k ! p)) = ofile (procs k ! p) \<Longrightarrow> p_state (g (procs k ! p)) = p_state (procs k ! p) \<Longrightarrow>
    fdv (upd_proc p g k) = fdv k"
  by (cases "p < length (procs k)") (simp_all add: fdv_upd_proc list_update_beyond flip: fdv_nth)

lemma myproc_upd_proc [simp]: "myproc h (upd_proc p g k) = myproc h k"
  by (simp add: myproc_def)

lemma fview_fs: "fsst.more s' = fsst.more s \<Longrightarrow> fview s' = fview s"
  by (cases s; cases s') (simp add: fview_def)

lemma fview_simps [simp]:
  "fview (s\<lparr>kpm := m\<rparr>) = fview s" "fview (s\<lparr>kuart := u\<rparr>) = fview s" "fview (s\<lparr>kcons := c\<rparr>) = fview s"
  "fview (s\<lparr>pipes := q\<rparr>) = fview s" "fview (s\<lparr>woken := w\<rparr>) = fview s" "fview (s\<lparr>csr := r\<rparr>) = fview s"
  "fview (s\<lparr>plic := r'\<rparr>) = fview s" "fview (s\<lparr>vdisk := v\<rparr>) = fview s" "fview (s\<lparr>bufs := b\<rparr>) = fview s"
  "fview (wake chs s) = fview s" "fview (tf_set p off x s) = fview s"
  by (simp_all add: fview_def wake_def tf_set_def)

lemma fview_upd_pr: "(\<And>q. ofile (g q) = ofile q) \<Longrightarrow> (\<And>q. p_state (g q) = p_state q) \<Longrightarrow> fview (upd_pr p g s) = fview s"
  by (simp add: fview_def upd_pr_def fdv_same)

lemma fdv_wakeup [simp]: "fdv (wakeup h ch k) = fdv k"
  by (rule nth_equalityI) (auto simp: fdv_def wakeup_eq Let_def)

lemma myproc_wakeup [simp]: "myproc h (wakeup h' ch k) = myproc h k"
  by (simp add: myproc_def wakeup_eq)

lemma fold_wakeup: "fdv (fold (wakeup h) chs k) = fdv k" "myproc h' (fold (wakeup h) chs k) = myproc h' k"
  by (induction chs arbitrary: k) simp_all

lemma fview_deliver [simp]: "fview (deliver s) = fview s"
  by (simp add: deliver_def fview_def fold_wakeup)

lemma on_pm_fview: "on_pm f s = Inr (x, s') \<Longrightarrow> fview s' = fview s"
  by (auto simp: on_pm_def)

lemma on_uart_fview: "on_uart f s = Inr s' \<Longrightarrow> fview s' = fview s"
  by (auto simp: on_uart_def)

lemma copyout_p_fview: "copyout_p p a bs s = Inr (x, s') \<Longrightarrow> fview s' = fview s"
  unfolding copyout_p_def by (rule on_pm_fview)

lemma fview_intr_on [simp]: "fview (set_intr intr_on s) = fview s" "fview (set_intr intr_off s) = fview s"
  by (cases "hart s < length (cpus (ks s))";
      simp add: fview_def set_intr_def fdv_def myproc_def intr_on_def intr_off_def list_update_beyond)+

lemmas fs_fview = fs_frames [THEN fview_fs]

lemma namei_p_fview:
  "namei_p p path s = Inr (r, s') \<Longrightarrow> fview s' = fview s"
  "nameiparent_p p path s = Inr (r, n, s') \<Longrightarrow> fview s' = fview s"
  by (auto simp: namei_p_def nameiparent_p_def split: option.splits if_splits dest!: fs_fview)

lemma fview_upd_inode [simp]: "fview (upd_inode ip g s) = fview s" "fview (idup ip s) = fview s"
  by (rule fview_fs, simp)+

lemma add_nlink_fview: "add_nlink ip d s = Inr s' \<Longrightarrow> fview s' = fview s"
  by (auto simp: add_nlink_def dest!: fs_fview)

section \<open>Operations on the file table and the descriptors\<close>

lemma myproc_upd_file [simp]: "ks (upd_file f g s) = ks s" "hart (upd_file f g s) = hart s"
    "ftable (upd_file f g s) = upd f g (ftable s)"
  by (simp_all add: upd_file_def)

lemma caller_ks: "ks s' = ks s \<Longrightarrow> hart s' = hart s \<Longrightarrow> caller p s' = caller p s"
  by (simp add: caller_def)

lemma filealloc_ok:
  assumes "rok E s" "filealloc s = (r, s')"
  shows "caller p s' = caller p s"
    "r = None \<Longrightarrow> s' = s"
    "r = Some f \<Longrightarrow> f < length (ftable s') \<and> rok (E(f := E f + 1)) s' \<and> f_ref (ftable s' ! f) = 1"
proof -
  have "rok (E(f := E f + 1)) s' \<and> f < length (ftable s') \<and> f_ref (ftable s' ! f) = 1 \<and> caller p s' = caller p s"
    if f: "first_idx (\<lambda>x. f_ref x = 0) (ftable s) = Some f" "s' = upd_file f (\<lambda>x. x\<lparr>f_ref := 1\<rparr>) s" for f
  proof -
    have i: "f < length (ftable s)" "f_ref (ftable s ! f) = 0" using f(1) by (auto simp: first_idx_Some)
    have "refs_ok (E(f := E f + 1)) (fdv (ks s)) ((ftable s)[f := (ftable s ! f)\<lparr>f_ref := 1\<rparr>])"
      by (rule refs_ok_set_file) (use assms(1) i in \<open>simp_all add: rok_def\<close>)
    then show ?thesis using i by (simp add: f(2) rok_def upd_def caller_def)
  qed
  then show "caller p s' = caller p s"
    "r = None \<Longrightarrow> s' = s"
    "r = Some f \<Longrightarrow> f < length (ftable s') \<and> rok (E(f := E f + 1)) s' \<and> f_ref (ftable s' ! f) = 1"
    using assms(2) by (auto simp: filealloc_def split: option.splits)
qed

lemma filedup_ok:
  assumes "rok E s" "filedup f s = Inr s'" "f < length (ftable s)"
  shows "rok (E(f := E f + 1)) s'" "caller p s' = caller p s" "ks s' = ks s" "ftable s' = (ftable s)[f := ftable s' ! f]"
proof -
  have s': "s' = upd_file f (\<lambda>x. x\<lparr>f_ref := f_ref x + 1\<rparr>) s" "1 \<le> f_ref (ftable s ! f)"
    using assms(2) by (auto simp: filedup_def split: if_splits)
  have "refs_ok (E(f := E f + 1)) (fdv (ks s)) ((ftable s)[f := (ftable s ! f)\<lparr>f_ref := f_ref (ftable s ! f) + 1\<rparr>])"
    by (rule refs_ok_set_file) (use assms s'(2) in \<open>simp_all add: rok_def\<close>)
  then show "rok (E(f := E f + 1)) s'" by (simp add: s'(1) rok_def upd_def)
  show "caller p s' = caller p s" "ks s' = ks s" by (simp_all add: s'(1) caller_def)
  show "ftable s' = (ftable s)[f := ftable s' ! f]" using assms(3) by (simp add: s'(1) upd_def)
qed

lemma pipeclose_k_fview: "pipeclose_k a w s = Inr s' \<Longrightarrow> fview s' = fview s"
  by (auto simp: pipeclose_k_def Let_def split: prod.splits if_splits)

lemma fileclose_ok:
  assumes "rok E s" "f < length (ftable s)" "fileclose f s = Inr s'"
  shows "rok (E(f := E f - 1)) s' \<and> caller p s' = caller p s \<and> length (ftable s') = length (ftable s) \<and> fdv (ks s') = fdv (ks s)"
proof -
  let ?ff = "ftable s ! f"
  have r: "1 \<le> f_ref ?ff" using assms(3) by (auto simp: fileclose_def Let_def split: if_splits)
  show ?thesis
  proof (cases "0 < f_ref ?ff - 1")
    case True
    then have s': "s' = upd_file f (\<lambda>x. x\<lparr>f_ref := f_ref x - 1\<rparr>) s"
      using assms(3) by (auto simp: fileclose_def Let_def split: if_splits)
    have "refs_ok (E(f := E f + - 1)) (fdv (ks s)) ((ftable s)[f := ?ff\<lparr>f_ref := f_ref ?ff - 1\<rparr>])"
      by (rule refs_ok_set_file) (use assms True in \<open>simp_all add: rok_def\<close>)
    then show ?thesis by (simp add: s' rok_def upd_def caller_def)
  next
    case False
    let ?s = "upd_file f (\<lambda>x. x\<lparr>f_ref := 0, f_type := FD_NONE\<rparr>) s"
    have "refs_ok (E(f := E f + - 1)) (fdv (ks s)) ((ftable s)[f := ?ff\<lparr>f_ref := 0, f_type := FD_NONE\<rparr>])"
      by (rule refs_ok_set_file) (use assms False r in \<open>simp_all add: rok_def\<close>)
    then have a: "rok (E(f := E f - 1)) ?s" by (simp add: rok_def upd_def)
    have v: "fview s' = fview ?s"
      using assms(3) False r by (auto simp: fileclose_def Let_def split: if_splits fdtype.splits
          dest!: pipeclose_k_fview fs_fview)
    show ?thesis using a fview_rok [OF v] v by (simp add: caller_def fview_def upd_def)
  qed
qed

lemma fdalloc_ok:
  assumes "rok E s" "f < length (ftable s)" "caller p s" "fdalloc p f s = (r, s')"
  shows "r = None \<Longrightarrow> s' = s"
    "r = Some fd \<Longrightarrow> rok (E(f := E f - 1)) s' \<and> caller p s' \<and> ftable s' = ftable s \<and> fd < NOFILE \<and> ofile (proc_at p s') ! fd = Some f"
proof -
  show "r = None \<Longrightarrow> s' = s" using assms(4) by (auto simp: fdalloc_def split: option.splits)
  assume "r = Some fd"
  then have fd: "first_idx (\<lambda>x. x = None) (ofile (proc_at p s)) = Some fd"
    and s': "s' = upd_pr p (\<lambda>q. q\<lparr>ofile := (ofile q)[fd := Some f]\<rparr>) s"
    using assms(4) by (auto simp: fdalloc_def split: option.splits)
  have p: "p < length (fdv (ks s))" "fdv (ks s) ! p = (ofile (proc_at p s), False)"
    using assms(3) by (auto simp: caller_def fdv_nth)
  have i: "fd < length (ofile (proc_at p s))" "ofile (proc_at p s) ! fd = None" using fd by (auto simp: first_idx_Some)
  have len: "length (ofile (proc_at p s)) = NOFILE" using refs_okD [OF assms(1) [unfolded rok_def] p] by simp
  have v: "fdv (ks s') = (fdv (ks s))[p := ((ofile (proc_at p s))[fd := Some f], False)]"
    using p by (simp add: s' upd_pr_def fdv_upd_proc fdv_nth)
  have "refs_ok (E(f := E f - 1)) (fdv (ks s')) (ftable s)"
    unfolding v by (rule refs_ok_set_fd [OF assms(1) [unfolded rok_def] p]) (use i len assms in simp_all)
  then show "rok (E(f := E f - 1)) s' \<and> caller p s' \<and> ftable s' = ftable s \<and> fd < NOFILE \<and> ofile (proc_at p s') ! fd = Some f"
    using assms(3) p i len v by (auto simp: s' upd_pr_def rok_def caller_def)
qed

lemma clear_fd_ok:
  assumes "rok E s" "caller p s" "fd < NOFILE" "ofile (proc_at p s) ! fd = Some f"
  shows "rok (E(f := E f + 1)) (clear_fd p fd s)" "caller p (clear_fd p fd s)" "f < length (ftable s)"
    "ftable (clear_fd p fd s) = ftable s"
proof -
  have p: "p < length (fdv (ks s))" "fdv (ks s) ! p = (ofile (proc_at p s), False)"
    using assms(2) by (auto simp: caller_def fdv_nth)
  have v: "fdv (ks (clear_fd p fd s)) = (fdv (ks s))[p := ((ofile (proc_at p s))[fd := None], False)]"
    using p by (simp add: clear_fd_def upd_pr_def fdv_upd_proc fdv_nth)
  have "refs_ok (E(f := E f + 1)) (fdv (ks (clear_fd p fd s))) (ftable s)"
    unfolding v by (rule refs_ok_set_fd [OF assms(1) [unfolded rok_def] p]) (use assms in simp_all)
  then show "rok (E(f := E f + 1)) (clear_fd p fd s)" by (simp add: rok_def clear_fd_def upd_pr_def)
  show "caller p (clear_fd p fd s)" using assms(2) p v by (simp add: caller_def clear_fd_def upd_pr_def)
  show "f < length (ftable s)" using refs_okD(2) [OF assms(1) [unfolded rok_def] p assms(3,4)] .
  show "ftable (clear_fd p fd s) = ftable s" by (simp add: clear_fd_def upd_pr_def)
qed

text \<open>Setting other fields of a file that is in use.\<close>

lemma upd_file_ok:
  assumes "rok E s" "\<And>x. f_ref (g x) = f_ref x" "f < length (ftable s)" "0 < f_ref (ftable s ! f)"
  shows "rok E (upd_file f g s)" "caller p (upd_file f g s) = caller p s"
proof -
  have "refs_ok (E(f := E f + 0)) (fdv (ks s)) ((ftable s)[f := g (ftable s ! f)])"
    by (rule refs_ok_set_file) (use assms in \<open>simp_all add: rok_def\<close>)
  then show "rok E (upd_file f g s)" by (simp add: rok_def upd_def)
  show "caller p (upd_file f g s) = caller p s" by (simp add: caller_def)
qed

lemma rok_pos: "rok E s \<Longrightarrow> 0 < E f \<Longrightarrow> f < length (ftable s) \<Longrightarrow> 0 < f_ref (ftable s ! f)"
  using refs_ok_ref(1) [of E "fdv (ks s)" "ftable s" f] by (simp add: rok_def)

section \<open>System calls that do not touch descriptors\<close>

text \<open>Partial correctness of a fallible operation, with a rule for every construct the calls are written with.\<close>

definition wp :: "'a res \<Rightarrow> ('a \<Rightarrow> bool) \<Rightarrow> bool" where
  "wp m Q \<longleftrightarrow> (\<forall>r. m = Inr r \<longrightarrow> Q r)"

lemma wpD: "wp m Q \<Longrightarrow> m = Inr r \<Longrightarrow> Q r"
  by (simp add: wp_def)

lemma wp_weaken: "wp m R \<Longrightarrow> (\<And>r. R r \<Longrightarrow> Q r) \<Longrightarrow> wp m Q"
  by (simp add: wp_def)

lemma wp_bind: "wp m R \<Longrightarrow> (\<And>r. R r \<Longrightarrow> wp (f r) Q) \<Longrightarrow> wp (bindR m f) Q"
  by (auto simp: wp_def)

lemma wp_Inr: "Q r \<Longrightarrow> wp (Inr r) Q"
  by (simp add: wp_def)

lemma wp_Inl: "wp (Inl e) Q"
  by (simp add: wp_def)

lemma wp_if: "(c \<Longrightarrow> wp a Q) \<Longrightarrow> (\<not> c \<Longrightarrow> wp b Q) \<Longrightarrow> wp (if c then a else b) Q"
  by simp

lemma wp_prod: "(\<And>a b. r = (a, b) \<Longrightarrow> wp (f a b) Q) \<Longrightarrow> wp (case r of (a, b) \<Rightarrow> f a b) Q"
  by (cases r) simp

lemma wp_option: "(r = None \<Longrightarrow> wp a Q) \<Longrightarrow> (\<And>x. r = Some x \<Longrightarrow> wp (f x) Q) \<Longrightarrow> wp (case r of None \<Rightarrow> a | Some x \<Rightarrow> f x) Q"
  by (cases r) simp_all

lemma wp_Let: "wp (f x) Q \<Longrightarrow> wp (Let x f) Q"
  by simp

lemma wp_any: "wp m (\<lambda>_. True)"
  by (simp add: wp_def)

lemma wp_foldR:
  assumes step: "\<And>x s. V s = v \<Longrightarrow> wp (f x s) (\<lambda>s'. V s' = v)" and "V s = v"
  shows "wp (foldR f xs s) (\<lambda>s'. V s' = v)"
  using assms(2)
proof (induction xs arbitrary: s)
  case (Cons x xs)
  show ?case unfolding foldR.simps by (rule wp_bind [OF step [OF Cons.prems] Cons.IH])
qed (simp add: wp_def)

text \<open>Sequencing, by the place of the state in the result.\<close>

lemma wp_bind_fview:
  fixes g1 :: "kern \<Rightarrow> 'z res" and g2 :: "'a \<times> kern \<Rightarrow> 'z res" and g3 :: "'a \<times> kern \<times> 'm \<Rightarrow> 'z res"
    and g4 :: "'a \<times> 'b \<times> kern \<Rightarrow> 'z res"
  shows "wp m1 (\<lambda>s. fview s = v) \<Longrightarrow> (\<And>s. fview s = v \<Longrightarrow> wp (g1 s) Q) \<Longrightarrow> wp (bindR m1 g1) Q"
    "wp m2 (\<lambda>r. fview (snd r) = v) \<Longrightarrow> (\<And>a s. fview s = v \<Longrightarrow> wp (g2 (a, s)) Q) \<Longrightarrow> wp (bindR m2 g2) Q"
    "wp m3 (\<lambda>r. fview (fst (snd r)) = v) \<Longrightarrow> (\<And>a s c. fview s = v \<Longrightarrow> wp (g3 (a, s, c)) Q) \<Longrightarrow> wp (bindR m3 g3) Q"
    "wp m4 (\<lambda>r. fview (snd (snd r)) = v) \<Longrightarrow> (\<And>a b s. fview s = v \<Longrightarrow> wp (g4 (a, b, s)) Q) \<Longrightarrow> wp (bindR m4 g4) Q"
  by (auto simp: wp_def)

lemma wp_bind_any: "(\<And>r. wp (f r) Q) \<Longrightarrow> wp (bindR m f) Q"
  by (auto simp: wp_def)

lemma wp_case_pair: "wp (f a b) Q \<Longrightarrow> wp (case (a, b) of (a, b) \<Rightarrow> f a b) Q"
  by simp

lemmas wp_struct = wp_Inr wp_Inl wp_if wp_case_pair wp_prod wp_option wp_Let

lemma wp_fs:
  assumes "fview s = v"
  shows "wp (begin_op s) (\<lambda>s'. fview s' = v)" "wp (end_op s) (\<lambda>s'. fview s' = v)"
    "wp (iget dev inum s) (\<lambda>r. fview (snd r) = v)" "wp (ialloc dev ty s) (\<lambda>r. fview (snd r) = v)"
    "wp (iupdate ip s) (\<lambda>s'. fview s' = v)" "wp (ilock ip s) (\<lambda>s'. fview s' = v)"
    "wp (iunlock ip s) (\<lambda>s'. fview s' = v)" "wp (itrunc ip s) (\<lambda>s'. fview s' = v)"
    "wp (iput ip s) (\<lambda>s'. fview s' = v)" "wp (iunlockput ip s) (\<lambda>s'. fview s' = v)"
    "wp (readi out ip dst off n s m) (\<lambda>r. fview (fst (snd r)) = v)"
    "wp (writei inp ip src off n s m) (\<lambda>r. fview (fst (snd r)) = v)"
    "wp (dirlookup dp name s) (\<lambda>r. fview (snd r) = v)"
    "wp (dirlink dp name inum s) (\<lambda>r. fview (snd r) = v)"
    "wp (namei_p p path s) (\<lambda>r. fview (snd r) = v)"
    "wp (nameiparent_p p path s) (\<lambda>r. fview (snd (snd r)) = v)"
    "wp (add_nlink ip d s) (\<lambda>s'. fview s' = v)"
    "wp (on_pm f s) (\<lambda>r. fview (snd r) = v)"
    "wp (on_uart g s) (\<lambda>s'. fview s' = v)"
    "wp (copyout_p p a bs s) (\<lambda>r. fview (snd r) = v)"
  unfolding assms [symmetric]
  by (clarsimp simp only: wp_def split_paired_All fst_conv snd_conv,
      erule fs_fview namei_p_fview add_nlink_fview on_pm_fview on_uart_fview copyout_p_fview)+

lemma fview_records:
  "fview s = v \<Longrightarrow> fview (s\<lparr>kpm := m\<rparr>) = v" "fview s = v \<Longrightarrow> fview (upd_inode ip g s) = v" "fview s = v \<Longrightarrow> fview (tf_set p off x s) = v"
  by simp_all

lemma dot_entries_wp: "fview s = v \<Longrightarrow> wp (dot_entries ip dp s) (\<lambda>r. fview (snd r) = v)"
  unfolding dot_entries_def by (rule wp_bind_fview [where v = v] wp_struct wp_fs | assumption | simp)+

lemma create_fail_wp: "fview s = v \<Longrightarrow> wp (create_fail ip dp s) (\<lambda>r. fview (snd r) = v)"
  unfolding create_fail_def by (rule wp_bind_fview [where v = v] wp_struct wp_fs fview_records | assumption | simp)+

lemma create_wp: "fview s = v \<Longrightarrow> wp (create p path ty ma mi s) (\<lambda>r. fview (snd r) = v)"
  unfolding create_def
  by (rule wp_bind_fview [where v = v] wp_struct wp_fs dot_entries_wp create_fail_wp fview_records | assumption | simp)+

lemma fail_wp:
  "fview s = v \<Longrightarrow> wp (fail s) (\<lambda>r. fview (snd r) = v)"
  "fview s = v \<Longrightarrow> wp (fail_op s) (\<lambda>r. fview (snd r) = v)"
  unfolding fail_op_def fail_def by (rule wp_bind_fview [where v = v] wp_struct wp_fs | assumption | simp)+

lemma link_bad_wp: "fview s = v \<Longrightarrow> wp (link_bad ip s) (\<lambda>r. fview (snd r) = v)"
  unfolding link_bad_def by (rule wp_bind_fview [where v = v] wp_struct wp_fs fail_wp | assumption | simp)+

lemma unlink_bad_wp: "fview s = v \<Longrightarrow> wp (unlink_bad ip s) (\<lambda>r. fview (snd r) = v)"
  unfolding unlink_bad_def by (rule wp_bind_fview [where v = v] wp_struct wp_fs fail_wp | assumption | simp)+

lemma isdirempty_wp: "fview s = v \<Longrightarrow> wp (isdirempty dp s) (\<lambda>r. fview (snd r) = v)"
proof -
  have "wp (isdirempty_loop offs dp s) (\<lambda>r. fview (snd r) = v)" if "fview s = v" for offs and s :: kern
    using that
  proof (induction offs arbitrary: s)
    case (Cons off offs)
    show ?case unfolding isdirempty_loop.simps
      by (rule wp_bind_fview [where v = v] wp_struct wp_fs Cons | assumption | simp)+
  qed (simp add: wp_def)
  then show "fview s = v \<Longrightarrow> ?thesis" by (simp add: isdirempty_def)
qed

lemma sys_link_wp: "fview s = v \<Longrightarrow> wp (sys_link p s) (\<lambda>r. fview (snd r) = v)"
  unfolding sys_link_def
  by (rule wp_bind_fview [where v = v] wp_bind_any wp_struct wp_fs fail_wp link_bad_wp | assumption | simp)+

lemma sys_unlink_wp: "fview s = v \<Longrightarrow> wp (sys_unlink p s) (\<lambda>r. fview (snd r) = v)"
  unfolding sys_unlink_def
  by (rule wp_bind_fview [where v = v] wp_bind_any wp_struct wp_fs fail_wp unlink_bad_wp isdirempty_wp | assumption | simp)+

lemma create_done_wp: "wp m (\<lambda>r. fview (snd r) = v) \<Longrightarrow> wp (create_done m) (\<lambda>r. fview (snd r) = v)"
  unfolding create_done_def by (rule wp_bind_fview [where v = v] wp_struct wp_fs fail_wp | assumption | simp)+

lemma sys_mkdir_wp: "fview s = v \<Longrightarrow> wp (sys_mkdir p s) (\<lambda>r. fview (snd r) = v)"
  unfolding sys_mkdir_def
  by (rule wp_bind_fview [where v = v] wp_bind_any wp_struct wp_fs fail_wp create_done_wp create_wp | assumption | simp)+

lemma sys_mknod_wp: "fview s = v \<Longrightarrow> wp (sys_mknod p s) (\<lambda>r. fview (snd r) = v)"
  unfolding sys_mknod_def
  by (rule wp_bind_fview [where v = v] wp_bind_any wp_struct wp_fs fail_wp create_done_wp create_wp | assumption | simp)+

lemma upd_pr_fview:
  "fview s = v \<Longrightarrow> fview (upd_pr p (\<lambda>q. q\<lparr>cwd := c q\<rparr>) s) = v"
  "fview s = v \<Longrightarrow> fview (upd_pr p (\<lambda>q. q\<lparr>sz := z q\<rparr>) s) = v"
  "fview s = v \<Longrightarrow> fview (upd_pr p (\<lambda>q. q\<lparr>p_name := n q\<rparr>) s) = v"
  "fview s = v \<Longrightarrow> fview (upd_pr p (\<lambda>q. q\<lparr>p_name := n q, pagetable := t q, sz := z q\<rparr>) s) = v"
  "fview s = v \<Longrightarrow> fview (upd_pr p (\<lambda>q. q\<lparr>trapframe := t q\<rparr>) s) = v"
  "fview s = v \<Longrightarrow> fview (upd_pr p (\<lambda>q. q\<lparr>pagetable := t q\<rparr>) s) = v"
  by (simp_all add: fview_upd_pr)

lemma sys_chdir_wp: "fview s = v \<Longrightarrow> wp (sys_chdir p s) (\<lambda>r. fview (snd r) = v)"
  unfolding sys_chdir_def
  by (rule wp_bind_fview [where v = v] wp_bind_any wp_struct wp_fs fail_wp | assumption | simp add: upd_pr_fview)+

lemma kexec_bad_wp: "fview s = v \<Longrightarrow> wp (kexec_bad pt len ip s) (\<lambda>r. fview (snd r) = v)"
  unfolding kexec_bad_def
  by (rule wp_bind_fview [where v = v] wp_bind_any wp_struct wp_fs fview_records | assumption | simp)+

lemma loadseg_wp: "fview s = v \<Longrightarrow> wp (loadseg pt va ip off len s) (\<lambda>r. fview (snd r) = v)"
proof -
  have "wp (loadseg_loop is pt va ip off len s) (\<lambda>r. fview (snd r) = v)" if "fview s = v" for "is" and s :: kern
    using that
  proof (induction "is" arbitrary: s)
    case (Cons i "is")
    show ?case unfolding loadseg_loop.simps
      by (rule wp_bind_fview [where v = v] wp_bind_any wp_struct wp_fs Cons fview_records | assumption | simp)+
  qed (simp add: wp_def)
  then show "fview s = v \<Longrightarrow> ?thesis" by (simp add: loadseg_def)
qed

lemma load_segments_wp: "fview s = v \<Longrightarrow> wp (load_segments n off ip pt len s) (\<lambda>r. fview (snd (snd r)) = v)"
proof (induction n arbitrary: off len s)
  case (Suc n)
  show ?case unfolding load_segments.simps
    by (rule wp_bind_fview [where v = v] wp_struct wp_fs Suc loadseg_wp | assumption | simp)+
qed (simp add: wp_def)

lemma kexec_image_wp: "fview s = v \<Longrightarrow> wp (kexec_image p path argv elf pt len s) (\<lambda>r. fview (snd r) = v)"
  unfolding kexec_image_def
  by (rule wp_bind_fview [where v = v] wp_bind_any wp_struct wp_fs kexec_bad_wp fview_records upd_pr_fview | assumption | simp)+

lemma kexec_wp: "fview s = v \<Longrightarrow> wp (kexec p path argv s) (\<lambda>r. fview (snd r) = v)"
  unfolding kexec_def
  by (rule wp_bind_fview [where v = v] wp_struct wp_fs kexec_bad_wp load_segments_wp kexec_image_wp | assumption | simp)+

lemma fetchaddr_wp: "fview s = v \<Longrightarrow> wp (fetchaddr p a s) (\<lambda>r. fview (snd (snd r)) = v)"
  unfolding fetchaddr_def
  by (rule wp_bind_fview [where v = v] wp_struct wp_fs | assumption | simp | (simp split: prod.split add: wp_def))+

lemma fetch_args_wp: "fview s = v \<Longrightarrow> wp (fetch_args n p u i s) (\<lambda>r. fview (snd (snd r)) = v)"
proof (induction n arbitrary: i s)
  case (Suc n)
  show ?case unfolding fetch_args.simps
    by (rule wp_bind_fview [where v = v] wp_bind_any wp_struct wp_fs Suc fetchaddr_wp fview_records | assumption | simp)+
qed (simp add: wp_def)

lemma free_pages_wp: "fview s = v \<Longrightarrow> wp (free_pages pas s) (\<lambda>s'. fview s' = v)"
  unfolding free_pages_def by (rule wp_bind_any wp_struct fview_records | assumption)+

lemma sys_exec_wp: "fview s = v \<Longrightarrow> wp (sys_exec p s) (\<lambda>r. fview (snd r) = v)"
  unfolding sys_exec_def
  by (rule wp_bind_fview [where v = v] wp_bind_any wp_struct wp_fs kexec_wp fetch_args_wp free_pages_wp fail_wp | assumption | simp)+

lemma sx_wp: "wp m (\<lambda>r. fview (snd r) = v) \<Longrightarrow> wp (sx m) (\<lambda>r. fview (snd r) = v)"
    "wp m' (\<lambda>r. fview (snd r) = v) \<Longrightarrow> wp (ret_int m') (\<lambda>r. fview (snd r) = v)"
  unfolding sx_def ret_int_def by (rule wp_bind_fview [where v = v] wp_struct | assumption | simp)+

lemma filestat_wp: "fview s = v \<Longrightarrow> wp (filestat p f a s) (\<lambda>r. fview (snd r) = v)"
  unfolding filestat_def by (rule wp_bind_fview [where v = v] wp_struct wp_fs | assumption | simp)+

lemma sys_fstat_wp: "fview s = v \<Longrightarrow> wp (sys_fstat p s) (\<lambda>r. fview (snd r) = v)"
  unfolding sys_fstat_def
  by (rule wp_bind_fview [where v = v] wp_bind_any wp_struct filestat_wp sx_wp fail_wp | assumption | simp)+

lemma sys_sbrk_wp: "fview s = v \<Longrightarrow> wp (sys_sbrk p s) (\<lambda>r. fview (snd r) = v)"
  unfolding sys_sbrk_def
  by (rule wp_bind_any wp_struct fail_wp fview_records upd_pr_fview | assumption | simp add: upd_pr_fview)+

lemma procinfo_loop_wp: "fview s = v \<Longrightarrow> wp (procinfo_loop is p u i up s) (\<lambda>r. fview (snd r) = v)"
proof (induction "is" arbitrary: i up s)
  case (Cons j "is")
  show ?case unfolding procinfo_loop.simps
    by (rule wp_bind_fview [where v = v] wp_struct wp_fs Cons fail_wp | assumption | simp)+
qed (simp add: wp_def)

lemma sys_simple_wp:
  "fview s = v \<Longrightarrow> wp (sys_getpid p s) (\<lambda>r. fview (snd r) = v)" "fview s = v \<Longrightarrow> wp (sys_pause p s) (\<lambda>r. fview (snd r) = v)"
  "fview s = v \<Longrightarrow> wp (sys_sleep p s) (\<lambda>r. fview (snd r) = v)" "fview s = v \<Longrightarrow> wp (sys_uptime p s) (\<lambda>r. fview (snd r) = v)"
  "fview s = v \<Longrightarrow> wp (sys_getprocinfo p s) (\<lambda>r. fview (snd r) = v)"
  unfolding sys_getpid_def sys_pause_def sys_sleep_def sys_uptime_def sys_getprocinfo_def
  by (rule wp_bind_any wp_struct procinfo_loop_wp | assumption | simp)+

lemma kkill_fview: "kkill pid k = (r, k') \<Longrightarrow> fdv k' = fdv k \<and> myproc h k' = myproc h k"
  by (auto simp: kkill_alt fdv_same fdv_upd_proc fdv_nth first_idx_Some Let_def split: option.splits if_splits
      intro!: nth_equalityI simp: nth_list_update)

lemma sys_kill_wp: "fview s = v \<Longrightarrow> wp (sys_kill p s) (\<lambda>r. fview (snd r) = v)"
  unfolding sys_kill_def
  by (rule wp_bind_any wp_struct | assumption | (simp add: fview_def, drule kkill_fview [where h = "hart s"], simp))+

section \<open>System calls on descriptors\<close>

text \<open>
  The state between two operations of a call: counts that are right up to the references \<open>E\<close>, and the
  caller still running. It depends on what \<open>fview\<close> shows only.
\<close>

definition J :: "(nat \<Rightarrow> int) \<Rightarrow> nat \<Rightarrow> kern \<Rightarrow> bool" where
  "J E p s \<longleftrightarrow> rok E s \<and> caller p s"

lemma J_fview: "fview s' = fview s \<Longrightarrow> J E p s' = J E p s"
  unfolding J_def using fview_rok by metis

lemma ftable_fview: "fview s' = fview s \<Longrightarrow> ftable s' = ftable s"
  by (simp add: fview_def)

lemma J_fview_step: "J E p s \<Longrightarrow> fview s' = fview s \<Longrightarrow> J E p s'"
  using J_fview by blast

lemma J_wp: "J E p s \<Longrightarrow> (\<And>v. fview s = v \<Longrightarrow> wp m (\<lambda>r. fview (snd r) = v)) \<Longrightarrow> wp m (\<lambda>r. J E p (snd r))"
  unfolding wp_def using J_fview by blast

lemma argfd_ok: "J E p s \<Longrightarrow> argfd p n s = Inr (Some (fd, f)) \<Longrightarrow>
    fd < NOFILE \<and> ofile (proc_at p s) ! fd = Some f \<and> f < length (ftable s)"
proof -
  assume J: "J E p s" and a: "argfd p n s = Inr (Some (fd, f))"
  have fd: "fd < NOFILE" "ofile (proc_at p s) ! fd = Some f" using a by (auto simp: argfd_def split: if_splits)
  have p: "p < length (fdv (ks s))" using J by (simp add: J_def caller_def)
  have "f < length (ftable s)"
    using refs_okD(2) [OF _ p, of E "ftable s"] J p fd by (simp add: J_def rok_def fdv_nth)
  then show ?thesis using fd by simp
qed

text \<open>A file that a descriptor refers to is in use.\<close>

lemma open_file_pos:
  assumes "J (\<lambda>_. 0) p s" "fd < NOFILE" "ofile (proc_at p s) ! fd = Some f" "f < length (ftable s)"
  shows "0 < f_ref (ftable s ! f)"
proof -
  have p: "p < length (procs (ks s))" using assms(1) by (simp add: J_def caller_def)
  have len: "length (ofile (proc_at p s)) = NOFILE"
    using refs_okD(1) [of "\<lambda>_. 0" "fdv (ks s)" "ftable s" p] assms(1) p by (simp add: J_def rok_def fdv_nth)
  have "Some f \<in> set (ofile (proc_at p s))" using assms(2,3) len nth_mem [of fd "ofile (proc_at p s)"] by simp
  then have "Some f \<in> set (concat (map fst (fdv (ks s))))" using p by (auto simp: fdv_def)
  then have "count_list (concat (map fst (fdv (ks s)))) (Some f) \<noteq> 0" by (simp add: count_list_0_iff del: set_concat)
  then show ?thesis using refs_ok_ref(1) [of "\<lambda>_. 0" "fdv (ks s)" "ftable s" f] assms(1,4) by (simp add: J_def rok_def)
qed

lemma const_upd [simp]: "(\<lambda>_. c)(x := c) = (\<lambda>_. c)"
  by (simp add: fun_eq_iff)

text \<open>The rules for the operations that move references.\<close>

lemma wp_fdalloc:
  assumes "J E p s" "f < length (ftable s)" "wp (a s) Q"
    "\<And>fd s1. J (E(f := E f - 1)) p s1 \<Longrightarrow> ftable s1 = ftable s \<Longrightarrow> fd < NOFILE \<Longrightarrow> ofile (proc_at p s1) ! fd = Some f \<Longrightarrow>
       wp (b fd s1) Q"
  shows "wp (case fdalloc p f s of (r, s1) \<Rightarrow> (case r of None \<Rightarrow> a s1 | Some fd \<Rightarrow> b fd s1)) Q"
proof -
  obtain r s1 where r: "fdalloc p f s = (r, s1)" by fastforce
  note 1 = fdalloc_ok [OF _ assms(2) _ r, of E]
  show ?thesis using 1 assms by (cases r) (auto simp: r J_def)
qed

lemma wp_filealloc:
  assumes "J E p s" "wp (a s) Q"
    "\<And>f s1. J (E(f := E f + 1)) p s1 \<Longrightarrow> f < length (ftable s1) \<Longrightarrow> f_ref (ftable s1 ! f) = 1 \<Longrightarrow> length (ftable s1) = length (ftable s) \<Longrightarrow>
       wp (b f s1) Q"
  shows "wp (case filealloc s of (r, s1) \<Rightarrow> (case r of None \<Rightarrow> a s1 | Some f \<Rightarrow> b f s1)) Q"
proof -
  obtain r s1 where r: "filealloc s = (r, s1)" by fastforce
  have len: "length (ftable s1) = length (ftable s)" using r by (auto simp: filealloc_def upd_def split: option.splits)
  note 1 = filealloc_ok [OF _ r, of E]
  show ?thesis using 1 assms len by (cases r) (auto simp: r J_def)
qed

lemma wp_filedup: "J E p s \<Longrightarrow> f < length (ftable s) \<Longrightarrow>
    wp (filedup f s) (\<lambda>s'. J (E(f := E f + 1)) p s' \<and> ks s' = ks s \<and> length (ftable s') = length (ftable s))"
  unfolding wp_def J_def using filedup_ok [of E s f] by (metis length_list_update)

lemma wp_fileclose: "J E p s \<Longrightarrow> f < length (ftable s) \<Longrightarrow>
    wp (fileclose f s) (\<lambda>s'. J (E(f := E f - 1)) p s' \<and> length (ftable s') = length (ftable s) \<and> fdv (ks s') = fdv (ks s))"
  unfolding wp_def J_def using fileclose_ok [of E s f] by blast

lemma J_clear_fd: "J E p s \<Longrightarrow> fd < NOFILE \<Longrightarrow> ofile (proc_at p s) ! fd = Some f \<Longrightarrow> J (E(f := E f + 1)) p (clear_fd p fd s)"
  unfolding J_def using clear_fd_ok [of E s p fd f] by blast

lemma ftable_clear_fd [simp]: "ftable (clear_fd p fd s) = ftable s"
  by (simp add: clear_fd_def upd_pr_def)

lemma wp_argfd:
  assumes "J E p s" "wp a Q"
    "\<And>fd f. fd < NOFILE \<Longrightarrow> ofile (proc_at p s) ! fd = Some f \<Longrightarrow> f < length (ftable s) \<Longrightarrow> wp (b fd f) Q"
  shows "wp (bindR (argfd p n s) (\<lambda>r. case r of None \<Rightarrow> a | Some x \<Rightarrow> (case x of (fd, f) \<Rightarrow> b fd f))) Q"
proof (rule wp_bind [where R = "\<lambda>r. argfd p n s = Inr r"])
  show "wp (argfd p n s) (\<lambda>r. argfd p n s = Inr r)" by (simp add: wp_def)
  show "wp (case r of None \<Rightarrow> a | Some x \<Rightarrow> (case x of (fd, f) \<Rightarrow> b fd f)) Q" if "argfd p n s = Inr r" for r
    using that assms argfd_ok [OF assms(1)] by (cases r) auto
qed

lemma wp_fail_J: "J E p s \<Longrightarrow> wp (fail s) (\<lambda>r. J E p (snd r))" "J E p s \<Longrightarrow> wp (fail_op s) (\<lambda>r. J E p (snd r))"
  by (erule J_wp, erule fail_wp)+

lemma sys_dup_J: "J (\<lambda>_. 0) p s \<Longrightarrow> wp (sys_dup p s) (\<lambda>r. J (\<lambda>_. 0) p (snd r))"
  unfolding sys_dup_def
  by (rule wp_argfd wp_fdalloc wp_fail_J wp_bind [OF wp_filedup] wp_Inr | assumption | simp)+

lemma sys_close_J: "J (\<lambda>_. 0) p s \<Longrightarrow> wp (sys_close p s) (\<lambda>r. J (\<lambda>_. 0) p (snd r))"
  unfolding sys_close_def
  by (rule wp_argfd wp_fail_J wp_bind [OF wp_fileclose] J_clear_fd wp_Inr | assumption | simp)+

lemma wp_fs_J:
  assumes "J E p s"
  shows "wp (begin_op s) (\<lambda>s'. J E p s' \<and> ftable s' = ftable s)" "wp (end_op s) (\<lambda>s'. J E p s' \<and> ftable s' = ftable s)"
    "wp (ilock ip s) (\<lambda>s'. J E p s' \<and> ftable s' = ftable s)" "wp (iunlock ip s) (\<lambda>s'. J E p s' \<and> ftable s' = ftable s)"
    "wp (itrunc ip s) (\<lambda>s'. J E p s' \<and> ftable s' = ftable s)" "wp (iput ip s) (\<lambda>s'. J E p s' \<and> ftable s' = ftable s)"
    "wp (iunlockput ip s) (\<lambda>s'. J E p s' \<and> ftable s' = ftable s)"
    "wp (readi out ip dst off n s m) (\<lambda>r. J E p (fst (snd r)) \<and> ftable (fst (snd r)) = ftable s)"
    "wp (writei inp ip dst off n s m) (\<lambda>r. J E p (fst (snd r)) \<and> ftable (fst (snd r)) = ftable s)"
    "wp (copyout_p p' a bs s) (\<lambda>r. J E p (snd r) \<and> fview (snd r) = fview s)"
    "wp (on_pm f s) (\<lambda>r. J E p (snd r) \<and> fview (snd r) = fview s)"
  by (rule wp_weaken, rule wp_fs [OF refl], use assms J_fview_step ftable_fview in blast)+

lemma open_inode_J: "J E p s \<Longrightarrow> wp (open_inode p' path om s) (\<lambda>r. J E p (snd r))"
proof (erule J_wp)
  show "fview s = v \<Longrightarrow> wp (open_inode p' path om s) (\<lambda>r. fview (snd r) = v)" for v
    unfolding open_inode_def by (rule wp_bind_fview [where v = v] wp_struct wp_fs create_wp | assumption | simp)+
qed

lemma J_upd_file:
  assumes "J E p s" "\<And>x. f_ref (g x) = f_ref x" "f < length (ftable s)" "0 < f_ref (ftable s ! f)"
  shows "J E p (upd_file f g s)" "0 < f_ref (ftable (upd_file f g s) ! f)" "f < length (ftable (upd_file f g s))"
  using upd_file_ok [of E s g f] assms by (auto simp: J_def upd_def)

text \<open>The end of \<^verbatim>\<open>sys_open()\<close>.\<close>

lemma open_tail_J:
  assumes "J E p s" "f < length (ftable s)" "0 < f_ref (ftable s ! f)"
  shows "J E p (upd_file f (\<lambda>x. x\<lparr>f_ip := ip, f_readable := rd, f_writable := wr\<rparr>)
     (if c then upd_file f (\<lambda>x. x\<lparr>f_type := FD_DEVICE, f_major := ma\<rparr>) s else upd_file f (\<lambda>x. x\<lparr>f_type := FD_INODE, f_off := 0\<rparr>) s))"
  using assms by (cases c) (auto intro!: J_upd_file)

lemma sys_open_J: "J (\<lambda>_. 0) p s \<Longrightarrow> wp (sys_open p s) (\<lambda>r. J (\<lambda>_. 0) p (snd r))"
proof -
  assume J: "J (\<lambda>_. 0) p s"
  have tail: "wp (bindR (if b then itrunc ip t else Inr t) (\<lambda>s7. bindR (iunlock ip s7) (\<lambda>s8. bindR (end_op s8) (\<lambda>s9. Inr (Ret x, s9)))))
      (\<lambda>r. J (\<lambda>_. 0) p (snd r))" if "J (\<lambda>_. 0) p t" for b ip t and x :: u64
    by (rule wp_bind [where R = "J (\<lambda>_. 0) p"]) (rule wp_if wp_Inr wp_weaken [OF wp_fs_J(5)] wp_bind [OF wp_fs_J(2)] wp_bind [OF wp_fs_J(4)] that
      | assumption | erule conjunct1 | simp)+
  show ?thesis
    unfolding sys_open_def Let_def
    by (rule wp_bind_any wp_prod wp_if wp_option wp_fail_J J wp_bind [OF wp_fs_J(1)] wp_bind [OF open_inode_J] wp_bind [OF wp_fs_J(7)]
         wp_filealloc wp_fdalloc wp_bind [OF wp_fileclose] tail open_tail_J
       | assumption | erule conjunct1 | simp)+
qed

lemma J_simps [simp]:
  "J E p (s\<lparr>kpm := m\<rparr>) = J E p s" "J E p (s\<lparr>pipes := q\<rparr>) = J E p s" "J E p (s\<lparr>pipes := q, kpm := m\<rparr>) = J E p s"
  "J E p (s\<lparr>kcons := c, kpm := m\<rparr>) = J E p s" "J E p (s\<lparr>kuart := u, kpm := m\<rparr>) = J E p s"
  "J E p (wake chs s) = J E p s" "J E p (tf_set p' off x s) = J E p s" "J E p (deliver s) = J E p s"
  by (rule J_fview, simp)+

lemma ftable_simps [simp]: "ftable (wake chs s) = ftable s"
  by (simp add: wake_def)

lemma pipealloc_bad_J:
  assumes "J E p s" "case f0 of Some f \<Rightarrow> f < length (ftable s) | None \<Rightarrow> True" "case f1 of Some f \<Rightarrow> f < length (ftable s) | None \<Rightarrow> True"
    and E: "E1 = (case f0 of Some f \<Rightarrow> E(f := E f - 1) | None \<Rightarrow> E)"
      "E2 = (case f1 of Some f \<Rightarrow> E1(f := E1 f - 1) | None \<Rightarrow> E1)"
  shows "wp (pipealloc_bad f0 f1 s) (\<lambda>r. J E2 p (snd r) \<and> fst r = None)"
  unfolding pipealloc_bad_def
proof (rule wp_bind [where R = "\<lambda>t. J E1 p t \<and> length (ftable t) = length (ftable s)"])
  show "wp (case f0 of None \<Rightarrow> Inr s | Some f \<Rightarrow> fileclose f s) (\<lambda>t. J E1 p t \<and> length (ftable t) = length (ftable s))"
    using assms(1,2) wp_fileclose [of E p s] by (cases f0) (auto simp: E wp_def)
next
  fix t assume t: "J E1 p t \<and> length (ftable t) = length (ftable s)"
  show "wp (bindR (case f1 of None \<Rightarrow> Inr t | Some f \<Rightarrow> fileclose f t) (\<lambda>s2. Inr (None, s2))) (\<lambda>r. J E2 p (snd r) \<and> fst r = None)"
    using t assms(3) wp_fileclose [of E1 p t] by (cases f1) (auto simp: E(2) wp_def)
qed

lemma two_files_differ:
  assumes "J (E(f := E f + 1)) p s" "f < length (ftable s)" "f_ref (ftable s ! f) = 1"
  shows "E f \<le> 0"
  using refs_ok_ref(1) [of "E(f := E f + 1)" "fdv (ks s)" "ftable s" f] assms by (simp add: J_def rok_def)

lemma pipealloc_J:
  assumes J: "J (\<lambda>_. 0) p s"
  shows "wp (pipealloc s) (\<lambda>r. case fst r of None \<Rightarrow> J (\<lambda>_. 0) p (snd r)
     | Some (f0, f1) \<Rightarrow> J ((\<lambda>_. 0)(f0 := 1, f1 := 1)) p (snd r) \<and> f0 \<noteq> f1 \<and> f0 < length (ftable (snd r)) \<and> f1 < length (ftable (snd r)))"
  (is "wp _ ?Q")
  unfolding pipealloc_def
proof (rule wp_filealloc [OF J])
  show "wp (pipealloc_bad None None s) ?Q"
    by (rule wp_weaken [OF pipealloc_bad_J [OF J _ _ refl refl]]) auto
next
  fix f0 s1
  assume 1: "J ((\<lambda>_. 0)(f0 := (0 :: int) + 1)) p s1" "f0 < length (ftable s1)" "f_ref (ftable s1 ! f0) = 1"
  show "wp (case filealloc s1 of (None, s2) \<Rightarrow> pipealloc_bad (Some f0) None s2
           | (Some f1, s2) \<Rightarrow> let (pi, m) = kalloc (kpm s2); s3 = s2\<lparr>kpm := m\<rparr>
               in if pi = 0 then pipealloc_bad (Some f0) (Some f1) s3
                  else let q = \<lparr>p_data = read_bytes (mem m) (pi + 24) PIPESIZE, nread = 0, nwrite = 0,
                                readopen = True, writeopen = True\<rparr>;
                           s4 = s3\<lparr>pipes := (pipes s3)(pi := q)\<rparr>;
                           s5 = upd_file f0 (\<lambda>x. x\<lparr>f_type := FD_PIPE, f_readable := True, f_writable := False,
                                  f_pipe := pi\<rparr>) s4
                       in Inr (Some (f0, f1), upd_file f1 (\<lambda>x. x\<lparr>f_type := FD_PIPE, f_readable := False,
                                  f_writable := True, f_pipe := pi\<rparr>) s5)) ?Q"
  proof (rule wp_filealloc [OF 1(1)])
    show "wp (pipealloc_bad (Some f0) None s1) ?Q"
      by (rule wp_weaken [OF pipealloc_bad_J [OF 1(1) _ _ refl refl]]) (use 1(2) in auto)
  next
    fix f1 s2
    let ?E = "((\<lambda>_. 0)(f0 := (0 :: int) + 1))(f1 := ((\<lambda>_. 0)(f0 := (0 :: int) + 1)) f1 + 1)"
    assume 2: "J ?E p s2" "f1 < length (ftable s2)" "f_ref (ftable s2 ! f1) = 1" "length (ftable s2) = length (ftable s1)"
    have ne: "f0 \<noteq> f1" using two_files_differ [OF 2(1,2,3)] by auto
    then have E: "?E = (\<lambda>_. 0)(f0 := 1, f1 := 1)" by simp
    have J2: "J ((\<lambda>_. 0)(f0 := 1, f1 := 1)) p (s2\<lparr>kpm := m\<rparr>)" for m using 2(1) by (simp only: E J_simps)
    have pos: "0 < f_ref (ftable s2 ! f0)" "0 < f_ref (ftable s2 ! f1)"
      using rok_pos [of "(\<lambda>_. 0)(f0 := 1, f1 := 1)" s2] 2 1(2) ne by (simp_all add: J_def E del: fun_upd_apply) auto
    have bad: "wp (pipealloc_bad (Some f0) (Some f1) (s2\<lparr>kpm := m\<rparr>)) ?Q" for m
      by (rule wp_weaken [OF pipealloc_bad_J [OF J2 _ _ refl refl]]) (use 1(2) 2 ne in \<open>auto simp: fun_upd_twist\<close>)
    have good: "J ((\<lambda>_. 0)(f0 := 1, f1 := 1)) p (upd_file f1 g (upd_file f0 h (s2\<lparr>kpm := m, pipes := q\<rparr>)))"
      if "\<And>x. f_ref (g x) = f_ref x" "\<And>x. f_ref (h x) = f_ref x" for g h m q
    proof (rule J_upd_file)
      show "J ((\<lambda>_. 0)(f0 := 1, f1 := 1)) p (upd_file f0 h (s2\<lparr>kpm := m, pipes := q\<rparr>))"
        by (rule J_upd_file) (use that J2 [of m] pos 1(2) 2 in simp_all)
    qed (use that pos ne 2 in \<open>simp_all add: upd_def\<close>)
    show "wp (let (pi, m) = kalloc (kpm s2); s3 = s2\<lparr>kpm := m\<rparr>
               in if pi = 0 then pipealloc_bad (Some f0) (Some f1) s3
                  else let q = \<lparr>p_data = read_bytes (mem m) (pi + 24) PIPESIZE, nread = 0, nwrite = 0,
                                readopen = True, writeopen = True\<rparr>;
                           s4 = s3\<lparr>pipes := (pipes s3)(pi := q)\<rparr>;
                           s5 = upd_file f0 (\<lambda>x. x\<lparr>f_type := FD_PIPE, f_readable := True, f_writable := False,
                                  f_pipe := pi\<rparr>) s4
                       in Inr (Some (f0, f1), upd_file f1 (\<lambda>x. x\<lparr>f_type := FD_PIPE, f_readable := False,
                                  f_writable := True, f_pipe := pi\<rparr>) s5)) ?Q"
      unfolding Let_def
      by (rule wp_prod wp_if bad wp_Inr | simp)+ (use ne 1(2) 2 in \<open>auto intro!: good simp: upd_def\<close>)
  qed
qed

lemma close_both_J:
  "J E p s \<Longrightarrow> f < length (ftable s) \<Longrightarrow> g < length (ftable s) \<Longrightarrow> E' = (E(f := E f - 1))(g := (E(f := E f - 1)) g - 1) \<Longrightarrow>
     wp (close_both f g s) (\<lambda>r. J E' p (snd r))"
  unfolding close_both_def
  by (rule wp_bind [OF wp_fileclose] wp_weaken [OF wp_fileclose] wp_fail_J | assumption | erule conjE | simp)+


lemma J_ofile_length: "J E p s \<Longrightarrow> length (ofile (proc_at p s)) = NOFILE"
  using refs_okD(1) [of E "fdv (ks s)" "ftable s" p] by (simp add: J_def rok_def caller_def fdv_nth)

lemma ofile_fview: "fview s' = fview s \<Longrightarrow> J E p s \<Longrightarrow> ofile (proc_at p s') = ofile (proc_at p s)"
proof -
  assume v: "fview s' = fview s" and J: "J E p s"
  have "fst (fdv (ks s') ! p) = fst (fdv (ks s) ! p)" "length (procs (ks s')) = length (procs (ks s))"
    using v by (simp_all add: fview_def flip: length_fdv)
  then show ?thesis using J by (simp add: fdv_nth J_def caller_def)
qed

text \<open>A second descriptor leaves the first one alone.\<close>

lemma wp_fdalloc_next:
  assumes J: "J E p s" and f: "f < length (ftable s)" and fd0: "fd0 < NOFILE" "ofile (proc_at p s) ! fd0 = Some f0"
    and none: "wp (a s) Q"
    and some: "\<And>fd s1. J (E(f := E f - 1)) p s1 \<Longrightarrow> ftable s1 = ftable s \<Longrightarrow> fd < NOFILE \<Longrightarrow> fd \<noteq> fd0 \<Longrightarrow>
       ofile (proc_at p s1) ! fd = Some f \<Longrightarrow> ofile (proc_at p s1) ! fd0 = Some f0 \<Longrightarrow> wp (b fd s1) Q"
  shows "wp (case fdalloc p f s of (r, s1) \<Rightarrow> (case r of None \<Rightarrow> a s1 | Some fd \<Rightarrow> b fd s1)) Q"
proof -
  obtain r s1 where r: "fdalloc p f s = (r, s1)" by fastforce
  note 1 = fdalloc_ok [OF _ f _ r, of E]
  have keep: "ofile (proc_at p s1) ! fd0 = Some f0" "fd \<noteq> fd0" if "r = Some fd" for fd
  proof -
    have i: "ofile (proc_at p s) ! fd = None" "s1 = upd_pr p (\<lambda>q. q\<lparr>ofile := (ofile q)[fd := Some f]\<rparr>) s"
      using r that by (auto simp: fdalloc_def first_idx_Some split: option.splits)
    then show ne: "fd \<noteq> fd0" using fd0(2) by auto
    show "ofile (proc_at p s1) ! fd0 = Some f0"
      using i(2) ne fd0 J by (simp add: upd_pr_def J_def caller_def)
  qed
  show ?thesis using 1 assms keep by (cases r) (auto simp: r J_def)
qed

lemma ofile_clear_fd:
  "J E p s \<Longrightarrow> fd \<noteq> fd' \<Longrightarrow> ofile (proc_at p (clear_fd p fd' s)) ! fd = ofile (proc_at p s) ! fd"
  by (simp add: clear_fd_def upd_pr_def J_def caller_def)

lemma sys_pipe_tail_J:
  assumes J: "J (\<lambda>_. 0) p s" and f: "rf < length (ftable s)" "wfl < length (ftable s)" "rf \<noteq> wfl"
    and fd: "fd0 < NOFILE" "fd1 < NOFILE" "fd1 \<noteq> fd0" "ofile (proc_at p s) ! fd0 = Some rf" "ofile (proc_at p s) ! fd1 = Some wfl"
    and v: "fview s' = fview s"
  shows "wp (close_both rf wfl (clear_fd p fd1 (clear_fd p fd0 s'))) (\<lambda>r. J (\<lambda>_. 0) p (snd r))"
proof -
  have J': "J (\<lambda>_. 0) p s'" and o': "ofile (proc_at p s') = ofile (proc_at p s)" and t: "ftable s' = ftable s"
    using J_fview_step [OF J v] ofile_fview [OF v J] ftable_fview [OF v] by auto
  have 1: "J ((\<lambda>_. 0)(rf := 1)) p (clear_fd p fd0 s')"
    using J_clear_fd [OF J' fd(1)] o' fd(4) by simp
  have 2: "J ((\<lambda>_. 0)(rf := 1, wfl := 1)) p (clear_fd p fd1 (clear_fd p fd0 s'))"
    using J_clear_fd [OF 1 fd(2), of wfl] ofile_clear_fd [OF J' fd(3)] o' fd(5) f(3) by simp
  show ?thesis
    by (rule close_both_J [OF 2]) (use f t in \<open>auto simp: fun_eq_iff\<close>)
qed

lemma sys_pipe_J: "J (\<lambda>_. 0) p s \<Longrightarrow> wp (sys_pipe p s) (\<lambda>r. J (\<lambda>_. 0) p (snd r))"
proof -
  assume J: "J (\<lambda>_. 0) p s"
  let ?Q = "\<lambda>r :: u64 outcome \<times> kern. J (\<lambda>_. 0) p (snd r)"
  have both: "wp (case fdalloc p rf s1 of (None, s2) \<Rightarrow> close_both rf wfl s2
      | (Some fd0, s2) \<Rightarrow> (case fdalloc p wfl s2 of (None, s3) \<Rightarrow> close_both rf wfl (clear_fd p fd0 s3)
          | (Some fd1, s3) \<Rightarrow>
              bindR (copyout_p p a (put32 (replicate 4 0) 0 (of_nat fd0)) s3) (\<lambda>(e0, s4).
              bindR (if sint e0 < 0 then Inr (e0, s4) else copyout_p p (a + 4) (put32 (replicate 4 0) 0 (of_nat fd1)) s4) (\<lambda>(e1, s5).
                if sint e1 < 0 then close_both rf wfl (clear_fd p fd1 (clear_fd p fd0 s5)) else Inr (Ret 0, s5))))) ?Q"
    if 1: "J ((\<lambda>_. 0)(rf := 1, wfl := 1)) p s1" and f: "rf < length (ftable s1)" "wfl < length (ftable s1)" "rf \<noteq> wfl" for s1 rf wfl a
  proof (rule wp_fdalloc [OF 1 f(1)])
    show "wp (close_both rf wfl s1) ?Q" by (rule close_both_J [OF 1]) (use f in \<open>auto simp: fun_eq_iff\<close>)
  next
    fix fd0 s2
    assume 2: "J (((\<lambda>_. 0)(rf := 1, wfl := 1))(rf := ((\<lambda>_. 0)(rf := 1, wfl := 1)) rf - 1)) p s2" "ftable s2 = ftable s1"
      "fd0 < NOFILE" "ofile (proc_at p s2) ! fd0 = Some rf"
    have E: "((\<lambda>_. 0)(rf := 1, wfl := 1))(rf := ((\<lambda>_. 0)(rf := 1, wfl := 1)) rf - 1) = (\<lambda>_. 0 :: int)(wfl := 1)"
      using f(3) by (auto simp: fun_eq_iff)
    note J2 = 2(1) [unfolded E]
    show "wp (case fdalloc p wfl s2 of (None, s3) \<Rightarrow> close_both rf wfl (clear_fd p fd0 s3)
          | (Some fd1, s3) \<Rightarrow>
              bindR (copyout_p p a (put32 (replicate 4 0) 0 (of_nat fd0)) s3) (\<lambda>(e0, s4).
              bindR (if sint e0 < 0 then Inr (e0, s4) else copyout_p p (a + 4) (put32 (replicate 4 0) 0 (of_nat fd1)) s4) (\<lambda>(e1, s5).
                if sint e1 < 0 then close_both rf wfl (clear_fd p fd1 (clear_fd p fd0 s5)) else Inr (Ret 0, s5)))) ?Q"
    proof (rule wp_fdalloc_next [OF J2 _ 2(3,4)])
      show "wfl < length (ftable s2)" using f 2 by simp
      show "wp (close_both rf wfl (clear_fd p fd0 s2)) ?Q"
        by (rule close_both_J [OF J_clear_fd [OF J2 2(3,4)]]) (use f 2 in \<open>auto simp: fun_eq_iff\<close>)
    next
      fix fd1 s3
      assume 3: "J (((\<lambda>_. 0)(wfl := 1))(wfl := ((\<lambda>_. 0)(wfl := 1)) wfl - 1)) p s3" "ftable s3 = ftable s2" "fd1 < NOFILE"
        "fd1 \<noteq> fd0" "ofile (proc_at p s3) ! fd1 = Some wfl" "ofile (proc_at p s3) ! fd0 = Some rf"
      have J3: "J (\<lambda>_. 0) p s3" using 3(1) by simp
      have tail: "wp (if sint e1 < 0 then close_both rf wfl (clear_fd p fd1 (clear_fd p fd0 s5)) else Inr (Ret 0, s5)) ?Q"
        if "fview s5 = fview s3" for e1 :: i32 and s5
        by (rule wp_if, rule sys_pipe_tail_J [OF J3 _ _ f(3) 2(3) 3(3,4,6,5) that])
          (use f 2(2) 3(2) J_fview_step [OF J3 that] in \<open>simp_all add: wp_Inr\<close>)
      show "wp (bindR (copyout_p p a (put32 (replicate 4 0) 0 (of_nat fd0)) s3) (\<lambda>(e0, s4).
              bindR (if sint e0 < 0 then Inr (e0, s4) else copyout_p p (a + 4) (put32 (replicate 4 0) 0 (of_nat fd1)) s4) (\<lambda>(e1, s5).
                if sint e1 < 0 then close_both rf wfl (clear_fd p fd1 (clear_fd p fd0 s5)) else Inr (Ret 0, s5)))) ?Q"
        by (rule wp_bind_fview [where v = "fview s3"] wp_case_pair tail wp_if wp_Inr wp_fs refl | assumption | simp only: snd_conv)+
    qed
  qed
  show ?thesis unfolding sys_pipe_def
  proof (rule wp_bind_any, rule wp_bind [OF pipealloc_J [OF J]])
    fix a r
    assume r: "case fst r of None \<Rightarrow> J (\<lambda>_. 0) p (snd r)
     | Some (f0, f1) \<Rightarrow> J ((\<lambda>_. 0)(f0 := 1, f1 := 1)) p (snd r) \<and> f0 \<noteq> f1 \<and> f0 < length (ftable (snd r)) \<and> f1 < length (ftable (snd r))"
    show "wp (case r of (r, s1) \<Rightarrow> case r of None \<Rightarrow> fail s1 | Some (rf, wfl) \<Rightarrow>
       (case fdalloc p rf s1 of (None, s2) \<Rightarrow> close_both rf wfl s2
      | (Some fd0, s2) \<Rightarrow> (case fdalloc p wfl s2 of (None, s3) \<Rightarrow> close_both rf wfl (clear_fd p fd0 s3)
          | (Some fd1, s3) \<Rightarrow>
              bindR (copyout_p p a (put32 (replicate 4 0) 0 (of_nat fd0)) s3) (\<lambda>(e0, s4).
              bindR (if sint e0 < 0 then Inr (e0, s4) else copyout_p p (a + 4) (put32 (replicate 4 0) 0 (of_nat fd1)) s4) (\<lambda>(e1, s5).
                if sint e1 < 0 then close_both rf wfl (clear_fd p fd1 (clear_fd p fd0 s5)) else Inr (Ret 0, s5)))))) ?Q"
      using r by (intro wp_prod wp_option both wp_fail_J) auto
  qed
qed

text \<open>Reading and writing change at most the offset of a file in use.\<close>

definition JF :: "(nat \<Rightarrow> int) \<Rightarrow> nat \<Rightarrow> nat \<Rightarrow> kern \<Rightarrow> bool" where
  "JF E p f s \<longleftrightarrow> J E p s \<and> f < length (ftable s) \<and> 0 < f_ref (ftable s ! f)"

lemma JF_fview: "fview s' = fview s \<Longrightarrow> JF E p f s' = JF E p f s"
  unfolding JF_def using J_fview [of s' s] ftable_fview [of s' s] by simp

lemma JF_upd_off: "JF E p f s \<Longrightarrow> JF E p f (upd_file f (\<lambda>x. x\<lparr>f_off := o' x\<rparr>) s)"
  unfolding JF_def using J_upd_file [of E p s "\<lambda>x. x\<lparr>f_off := o' x\<rparr>" f] by simp

lemma wp_fs_JF:
  assumes "JF E p f s"
  shows "wp (begin_op s) (JF E p f)" "wp (end_op s) (JF E p f)" "wp (ilock ip s) (JF E p f)" "wp (iunlock ip s) (JF E p f)"
    "wp (readi out ip dst off n s m) (\<lambda>r. JF E p f (fst (snd r)))"
    "wp (writei inp ip dst off n s m) (\<lambda>r. JF E p f (fst (snd r)))"
  by (rule wp_weaken, rule wp_fs [OF refl], use assms JF_fview in blast)+

lemma JF_simps [simp]: "JF E p f (s\<lparr>kpm := m\<rparr>) = JF E p f s"
  by (rule JF_fview) simp

lemma advance_JF: "JF E p f s \<Longrightarrow> JF E p f (if c then upd_file f (\<lambda>x. x\<lparr>f_off := f_off x + r\<rparr>) (s\<lparr>kpm := m\<rparr>) else s\<lparr>kpm := m\<rparr>)"
  by (simp add: JF_upd_off)

lemma J_devices [simp]: "J E p (s\<lparr>kcons := c\<rparr>) = J E p s" "J E p (s\<lparr>kuart := u\<rparr>) = J E p s"
  by (rule J_fview, simp)+

lemma wp_fdtype:
  "wp a Q \<Longrightarrow> wp b Q \<Longrightarrow> wp c Q \<Longrightarrow> wp d Q \<Longrightarrow>
     wp (case t of FD_NONE \<Rightarrow> a | FD_PIPE \<Rightarrow> b | FD_INODE \<Rightarrow> c | FD_DEVICE \<Rightarrow> d) Q"
  by (cases t) simp_all

lemma fileread_J: "JF E p f s \<Longrightarrow> wp (fileread p' f a n s) (\<lambda>r. J E p (snd r))"
proof -
  assume F: "JF E p f s"
  then have J: "J E p s" by (simp add: JF_def)
  have inode: "wp (bindR (ilock ip s) (\<lambda>s1. bindR (readi (user_sink p' s1) ip a off n s1 (kpm s1)) (\<lambda>(r, s2, m).
      bindR (iunlock ip (if 0 < sint r then upd_file f (\<lambda>x. x\<lparr>f_off := f_off x + r\<rparr>) (s2\<lparr>kpm := m\<rparr>) else s2\<lparr>kpm := m\<rparr>))
        (\<lambda>s5. Inr (Ret r, s5))))) (\<lambda>r. JF E p f (snd r))" for ip off
    by (rule wp_bind [OF wp_fs_JF(3) [OF F]], rule wp_bind [OF wp_fs_JF(5)], assumption, (rule wp_prod)+,
        rule wp_bind [OF wp_fs_JF(4)], rule advance_JF, simp, rule wp_Inr, simp)
  show ?thesis
    unfolding fileread_def Let_def
    by (rule wp_if wp_fdtype wp_Inr wp_Inl wp_weaken [OF inode] wp_bind_any wp_prod | (simp add: J JF_def))+
qed

lemma filewrite_loop_J: "JF E p f s \<Longrightarrow> wp (filewrite_loop p' f a n i s) (\<lambda>r. JF E p f (snd r))"
proof (induction "nat (n - i)" arbitrary: i s rule: less_induct)
  case less
  have IH: "wp (filewrite_loop p' f a n (i + min (n - i) MAXWRITE) t) (\<lambda>r. JF E p f (snd r))" if "i < n" "JF E p f t" for t
    by (rule less.hyps) (use that in auto)
  show ?case
    unfolding filewrite_loop.simps [of p' f a n i s] Let_def
    by (rule wp_if, rule wp_bind [OF wp_fs_JF(1) [OF less.prems]], rule wp_bind [OF wp_fs_JF(3)], assumption,
        rule wp_bind [OF wp_fs_JF(6)], assumption, (rule wp_prod)+, rule wp_bind [OF wp_fs_JF(4)], rule advance_JF, simp,
        rule wp_bind [OF wp_fs_JF(2)], assumption, rule wp_if, rule wp_Inr, simp, rule IH, assumption, assumption,
        rule wp_Inr, simp add: less.prems)
qed

lemma filewrite_J: "JF E p f s \<Longrightarrow> wp (filewrite p' f a n s) (\<lambda>r. J E p (snd r))"
proof -
  assume F: "JF E p f s"
  then have J: "J E p s" by (simp add: JF_def)
  have inode: "wp (bindR (filewrite_loop p' f a m 0 s) (\<lambda>(i, s1). Inr (Ret (if i = m then n else - 1), s1)))
      (\<lambda>r. JF E p f (snd r))" for m
    by (rule wp_bind [OF filewrite_loop_J [OF F]], rule wp_prod, rule wp_Inr, simp)
  show ?thesis
    unfolding filewrite_def Let_def
    by (rule wp_if wp_fdtype wp_Inr wp_Inl wp_weaken [OF inode] wp_bind_any wp_prod | (simp add: J JF_def))+
qed

lemma sx_J: "wp m (\<lambda>r. J E p (snd r)) \<Longrightarrow> wp (sx m) (\<lambda>r. J E p (snd r))" "wp m' (\<lambda>r. J E p (snd r)) \<Longrightarrow> wp (ret_int m') (\<lambda>r. J E p (snd r))"
  by (auto simp: wp_def sx_def ret_int_def)

lemma sys_read_J: "J (\<lambda>_. 0) p s \<Longrightarrow> wp (sys_read p s) (\<lambda>r. J (\<lambda>_. 0) p (snd r))"
  unfolding sys_read_def
  by (rule wp_argfd wp_fail_J wp_bind_any sx_J fileread_J | assumption | simp add: JF_def open_file_pos)+

lemma sys_write_J: "J (\<lambda>_. 0) p s \<Longrightarrow> wp (sys_write p s) (\<lambda>r. J (\<lambda>_. 0) p (snd r))"
  unfolding sys_write_def
  by (rule wp_argfd wp_fail_J wp_bind_any sx_J filewrite_J | assumption | simp add: JF_def open_file_pos)+
section \<open>Fork, exit, wait\<close>

lemma refs_ok_revive: "refs_ok E fv ft \<Longrightarrow> i < length fv \<Longrightarrow> fv ! i = (ofs, d) \<Longrightarrow> refs_ok E (fv[i := (ofs, False)]) ft"
proof -
  assume r: "refs_ok E fv ft" and i: "i < length fv" "fv ! i = (ofs, d)"
  have "(ofs, d) \<in> set fv" using i nth_mem by metis
  then have "slot_ok (length ft) (ofs, False)" using r by (auto simp: refs_ok_def slot_ok_def)
  then have "\<forall>sl \<in> set (fv[i := (ofs, False)]). slot_ok (length ft) sl"
    using r set_update_subset_insert [of fv i "(ofs, False)"] by (auto simp: refs_ok_def)
  moreover have "map fst (fv[i := (ofs, False)]) = map fst fv" using i by (simp add: map_update list_update_same_conv)
  ultimately show ?thesis using r by (simp add: refs_ok_def)
qed

lemma refs_ok_bury:
  "refs_ok E fv ft \<Longrightarrow> i < length fv \<Longrightarrow> fv ! i = (replicate NOFILE None, d) \<Longrightarrow> refs_ok E (fv[i := (replicate NOFILE None, True)]) ft"
proof -
  assume r: "refs_ok E fv ft" and i: "i < length fv" "fv ! i = (replicate NOFILE None, d)"
  have "slot_ok (length ft) (replicate NOFILE None, True)" by (simp add: slot_ok_def)
  then have "\<forall>sl \<in> set (fv[i := (replicate NOFILE None, True)]). slot_ok (length ft) sl"
    using r set_update_subset_insert [of fv i "(replicate NOFILE None, True)"] by (auto simp: refs_ok_def)
  moreover have "map fst (fv[i := (replicate NOFILE None, True)]) = map fst fv" using i by (simp add: map_update list_update_same_conv)
  ultimately show ?thesis using r by (simp add: refs_ok_def)
qed

definition empty_slot :: "nat \<Rightarrow> kern \<Rightarrow> bool" where
  "empty_slot np s \<longleftrightarrow> np < length (procs (ks s)) \<and> ofile (proc_at np s) = replicate NOFILE None"

lemma empty_slot_fdv: "empty_slot np s \<longleftrightarrow> np < length (fdv (ks s)) \<and> fst (fdv (ks s) ! np) = replicate NOFILE None"
  by (auto simp: empty_slot_def fdv_nth)

lemma empty_slot_fview: "fview s' = fview s \<Longrightarrow> empty_slot np s' = empty_slot np s"
  by (simp only: empty_slot_fdv fview_def prod.inject)

lemma freeproc_J:
  assumes J: "J E p s" and np: "empty_slot np s" "np \<noteq> p"
  shows "wp (freeproc np s) (J E p)"
proof -
  have "J E p (s\<lparr>kpm := m, ks := free_slot np (ks s)\<rparr>)" for m
  proof -
    have v: "fdv (free_slot np (ks s)) = (fdv (ks s))[np := (replicate NOFILE None, True)]"
      using np(1) by (simp add: free_slot_def fdv_upd_proc empty_slot_def)
    have "refs_ok E ((fdv (ks s))[np := (replicate NOFILE None, True)]) (ftable s)"
      by (rule refs_ok_bury [where d = "snd (fdv (ks s) ! np)"])
        (use J np(1) in \<open>auto simp: J_def rok_def empty_slot_fdv prod_eq_iff simp del: length_fdv\<close>)
    then show ?thesis using J np(2) by (simp add: J_def rok_def caller_def v) (simp add: free_slot_def)
  qed
  then show ?thesis unfolding freeproc_def Let_def by (intro wp_bind_any wp_Inr)
qed

lemma allocproc_J:
  assumes J: "J E p s"
  shows "wp (allocproc s) (\<lambda>r. J E p (snd r) \<and> (case fst r of None \<Rightarrow> True
     | Some np \<Rightarrow> np \<noteq> p \<and> empty_slot np (snd r) \<and> \<not> snd (fdv (ks (snd r)) ! np)))"
  (is "wp _ ?Q")
proof (cases "alloc_slot (ks s)")
  case None
  then show ?thesis using J by (simp add: allocproc_def wp_Inr)
next
  case (Some nk)
  obtain np k where nk: "nk = (np, k)" by fastforce
  have i: "np < length (procs (ks s))" "p_state (proc_at np s) = UNUSED"
    using Some by (auto simp: nk alloc_slot_def allocpid_def first_idx_Some split: option.splits)
  have ofs: "ofile (proc_at np s) = replicate NOFILE None"
    using refs_okD(3) [of E "fdv (ks s)" "ftable s" np] J i by (simp add: J_def rok_def fdv_nth)
  have v: "fdv k = (fdv (ks s))[np := (replicate NOFILE None, False)]" "length (procs k) = length (procs (ks s))"
      "myproc h k = myproc h (ks s)" for h
    using Some i ofs
    by (auto simp: nk alloc_slot_def allocpid_def first_idx_Some fdv_upd_proc myproc_def split: option.splits) (simp add: fdv_def)
  have ne: "np \<noteq> p" using J i by (auto simp: J_def caller_def fdv_nth)
  have "refs_ok E (fdv k) (ftable s)"
    unfolding v by (rule refs_ok_revive [where d = True]) (use J i ofs in \<open>simp_all add: J_def rok_def fdv_nth\<close>)
  then have Jk: "J E p (s\<lparr>ks := k, kpm := m\<rparr>)" for m
    using J ne v by (simp add: J_def rok_def caller_def)
  have slot: "empty_slot np (s\<lparr>ks := k, kpm := m\<rparr>)" "\<not> snd (fdv (ks (s\<lparr>ks := k, kpm := m\<rparr>)) ! np)" for m
    using v i by (simp_all add: empty_slot_fdv)
  have ok: "?Q (x, t)" if "fview t = fview (s\<lparr>ks := k, kpm := m\<rparr>)" "x = None \<or> x = Some np" for x t m
    using that J_fview_step [OF Jk that(1)] empty_slot_fview [OF that(1)] slot [of m] ne
    by (auto simp: fview_def)
  have free: "wp (bindR (freeproc np t) (\<lambda>t'. Inr (None, t'))) ?Q" if "fview t = fview (s\<lparr>ks := k, kpm := m\<rparr>)" for t m
    by (rule wp_bind [OF freeproc_J [OF J_fview_step [OF Jk that]]])
      (use empty_slot_fview [OF that] slot [of m] ne in \<open>simp_all add: wp_Inr\<close>)
  show ?thesis
  proof -
    obtain tf m where m: "kalloc (kpm s) = (tf, m)" by fastforce
    let ?v = "fview (s\<lparr>ks := k, kpm := m\<rparr>)"
    have ctx: "fview (t\<lparr>ks := alloc_context a np (ks t)\<rparr>) = fview t" for t a
      by (simp add: fview_def alloc_context_def fdv_same)
    have a1: "fview (upd_pr np (\<lambda>q. q\<lparr>trapframe := tf\<rparr>) (s\<lparr>ks := k, kpm := m\<rparr>)) = ?v" by (simp add: upd_pr_fview)
    show ?thesis
      unfolding allocproc_def Some nk option.case prod.case m Let_def
      by (rule wp_if free [OF a1] wp_bind_fview(2) [where v = ?v] wp_fs(18) [OF a1] wp_case_pair
           free [where m = m] wp_Inr ok [where m = m] | simp add: upd_pr_fview ctx)+
  qed
qed
text \<open>The scheduler's operations on the view: locks and interrupts do not show in it.\<close>

lemma c_proc_update: "c_proc x = c_proc (cs ! h) \<Longrightarrow> c_proc (cs[h := x] ! h') = c_proc (cs ! h')"
  by (cases "h < length cs") (auto simp: nth_list_update list_update_beyond)

lemma c_proc_push_off: "c_proc (push_off h cs ! h') = c_proc (cs ! h')"
  by (simp add: push_off_def Let_def intr_off_def c_proc_update)

lemma c_proc_pop_off: "wp (pop_off h cs) (\<lambda>cs'. \<forall>h'. c_proc (cs' ! h') = c_proc (cs ! h'))"
  by (auto simp: wp_def pop_off_def Let_def intr_on_def c_proc_update split: if_splits)

lemma wp_acquire: "wp (acquire h lk cs) (\<lambda>r. \<forall>h'. c_proc (snd r ! h') = c_proc (cs ! h'))"
  by (simp add: wp_def acquire_def Let_def c_proc_push_off)

lemma wp_release: "wp (release h lk cs) (\<lambda>r. \<forall>h'. c_proc (snd r ! h') = c_proc (cs ! h'))"
  using c_proc_pop_off [of h cs] by (auto simp: wp_def release_def split: if_splits)

lemma fdv_records [simp]: "fdv (k\<lparr>cpus := cs\<rparr>) = fdv k" "fdv (k\<lparr>wait_lock := l\<rparr>) = fdv k" "fdv (k\<lparr>tickslock := l\<rparr>) = fdv k"
  "fdv (k\<lparr>ticks := t\<rparr>) = fdv k"
  by (simp_all add: fdv_def)

lemma wp_acquire_p: "wp (acquire_p h i k) (\<lambda>k'. fdv k' = fdv k \<and> (\<forall>h'. myproc h' k' = myproc h' k))"
  unfolding acquire_p_def
  by (rule wp_bind [OF wp_acquire]) (auto simp: myproc_def fdv_same intro!: wp_struct)

lemma wp_release_p: "wp (release_p h i k) (\<lambda>k'. fdv k' = fdv k)"
  unfolding release_p_def by (rule wp_bind [OF wp_release]) (auto simp: fdv_same intro!: wp_struct)

lemma fdv_upd_cpu [simp]: "fdv (upd_cpu h g k) = fdv k"
  by (simp add: upd_cpu_def fdv_def)

lemma wp_switch_out: "wp (switch_out h k) (\<lambda>k'. fdv k' = fdv k)"
  unfolding switch_out_def
proof (rule wp_bind)
  show "wp (sched h k) (\<lambda>r. fdv (snd r) = fdv k)"
    unfolding sched_def by (rule wp_struct | simp add: fdv_same)+
  show "wp (case r of (i, k1) \<Rightarrow> scheduler_return h i k1) (\<lambda>k'. fdv k' = fdv k)" if "fdv (snd r) = fdv k" for r
    unfolding scheduler_return_def
    using that by (cases r) (auto intro: wp_weaken [OF wp_release_p])
qed

lemma fdv_reparent [simp]: "fdv (reparent h i k) = fdv k"
proof -
  have "fdv (fold (\<lambda>j k. if parent (procs k ! j) = Some i
      then wakeup h (proc_chan (initproc k)) (upd_proc j (\<lambda>p. p\<lparr>parent := initproc k\<rparr>) k) else k) xs k) = fdv k" for xs k
    by (induction xs arbitrary: k) (simp_all add: fdv_same)
  then show ?thesis by (simp add: reparent_def)
qed

lemma wp_kexit_sched:
  assumes "myproc h k = Some i" "i < length (procs k)"
  shows "wp (kexit_sched h st k) (\<lambda>k'. fdv k' = (fdv k)[i := (fst (fdv k ! i), True)])"
proof -
  have z: "fdv (upd_proc i (\<lambda>p. p\<lparr>xstate := st, p_state := ZOMBIE\<rparr>) k3) = (fdv k)[i := (fst (fdv k ! i), True)]"
    if "fdv k3 = fdv k" for k3
  proof -
    have "length (procs k3) = length (procs k)" using that by (metis length_fdv)
    then have "ofile (procs k3 ! i) = fst (fdv k ! i)" using assms(2) that by (metis fdv_nth fst_conv)
    then show ?thesis using that by (simp add: fdv_upd_proc)
  qed
  show ?thesis
    unfolding kexit_sched_def assms(1) option.case
    by (rule wp_bind_any wp_prod wp_Let wp_bind [OF wp_acquire_p] wp_weaken [OF wp_switch_out] | erule trans | simp add: z)+
qed

lemma wp_yield:
  assumes "myproc h k = Some i" "i < length (procs k)" "\<not> snd (fdv k ! i)"
  shows "wp (yield h k) (\<lambda>k'. fdv k' = fdv k)"
proof -
  have z: "fdv (upd_proc i (\<lambda>p. p\<lparr>p_state := RUNNABLE, k_point := InYield\<rparr>) k1) = fdv k" if "fdv k1 = fdv k" for k1
  proof -
    have "length (procs k1) = length (procs k)" using that by (metis length_fdv)
    then have "fdv k ! i = (ofile (procs k1 ! i), False)"
      using assms(2,3) fdv_nth [of i k1] that by (simp add: prod_eq_iff)
    then have "(fdv k)[i := (ofile (procs k1 ! i), False)] = fdv k" by (metis list_update_id)
    then show ?thesis using that by (simp add: fdv_upd_proc)
  qed
  show ?thesis
    unfolding yield_def assms(1) option.case
    by (rule wp_bind [OF wp_acquire_p] wp_weaken [OF wp_switch_out])+ (simp add: z)
qed

lemma wp_user_timer:
  assumes "myproc h k = Some i" "i < length (procs k)" "\<not> snd (fdv k ! i)"
  shows "wp (user_timer h k) (\<lambda>k'. fdv k' = fdv k)"
proof -
  have m: "fdv (upd_proc i mlfq_tick k) = fdv k" by (rule fdv_same) (simp_all add: mlfq_tick_def Let_def)
  show ?thesis
    unfolding user_timer_def assms(1) option.case
    using wp_yield [of h k i] wp_yield [of h "upd_proc i mlfq_tick k" i] assms m by simp
qed

lemma wp_clockintr: "wp (clockintr h k) (\<lambda>k'. fdv k' = fdv k \<and> myproc h k' = myproc h k)"
proof -
  have w: "myproc h (wakeup h ch k') = myproc h k'" for ch k' by simp
  show ?thesis
    unfolding clockintr_def
    apply (rule wp_if)
     apply (rule wp_bind [OF wp_acquire])
     apply (rule wp_prod wp_Let wp_bind [OF wp_release])+
     apply (auto simp: myproc_def intro!: wp_struct)[1]
      apply (simp add: wakeup_eq)
    apply (simp add: wp_Inr)
    done
qed

lemma wp_foldR_upt:
  assumes step: "\<And>i s. i < n \<Longrightarrow> I i s \<Longrightarrow> wp (f i s) (I (Suc i))"
  shows "m \<le> n \<Longrightarrow> I m s \<Longrightarrow> wp (foldR f [m..<n] s) (I n)"
proof (induction "n - m" arbitrary: m s)
  case (Suc d)
  have "m < n" using Suc.hyps(2) by simp
  then have e: "[m..<n] = m # [Suc m..<n]" by (rule upt_conv_Cons)
  show ?case unfolding e foldR.simps
  proof (rule wp_bind [OF step [OF \<open>m < n\<close> Suc.prems(2)]])
    show "wp (foldR f [Suc m..<n] r) (I n)" if "I (Suc m) r" for r
      using Suc.hyps(1) [of "Suc m" r] Suc.hyps(2) that \<open>m < n\<close> by simp
  qed
qed (simp add: wp_def)

text \<open>The child of a fork: a slot of its own, with no descriptor from \<open>i\<close> on.\<close>

definition child_upto :: "nat \<Rightarrow> nat \<Rightarrow> nat \<Rightarrow> kern \<Rightarrow> bool" where
  "child_upto p np i s \<longleftrightarrow> J (\<lambda>_. 0) p s \<and> np \<noteq> p \<and> np < length (fdv (ks s)) \<and> \<not> snd (fdv (ks s) ! np) \<and>
     (\<forall>j \<ge> i. j < NOFILE \<longrightarrow> fst (fdv (ks s) ! np) ! j = None)"

lemma child_upto_fview: "fview s' = fview s \<Longrightarrow> child_upto p np i s' = child_upto p np i s"
  using J_fview [of s' s] by (simp only: child_upto_def) (simp only: fview_def prod.inject)

lemma ofile_index:
  assumes "J E p s" "i < NOFILE" "ofile (proc_at p s) ! i = Some f"
  shows "f < length (ftable s)"
  using assms refs_okD(2) [of E "fdv (ks s)" "ftable s" p _ _ i f] by (simp add: J_def rok_def caller_def fdv_nth)

lemma dup_file_wp:
  assumes c: "child_upto p np i s" and i: "i < NOFILE"
  shows "wp (dup_file p np i s) (child_upto p np (Suc i))"
proof (cases "ofile (proc_at p s) ! i")
  case None
  then show ?thesis using c by (simp add: dup_file_def wp_Inr child_upto_def)
next
  case (Some f)
  have J: "J (\<lambda>_. 0) p s" using c by (simp add: child_upto_def)
  have f: "f < length (ftable s)" by (rule ofile_index [OF J i Some])
  have step: "child_upto p np (Suc i) (upd_pr np (\<lambda>q. q\<lparr>ofile := (ofile q)[i := Some f]\<rparr>) s1)"
    if s1: "J ((\<lambda>_. 0)(f := 0 + 1)) p s1" "ks s1 = ks s" "length (ftable s1) = length (ftable s)" for s1
  proof -
    let ?s2 = "upd_pr np (\<lambda>q. q\<lparr>ofile := (ofile q)[i := Some f]\<rparr>) s1"
    have np: "np < length (procs (ks s))" "np \<noteq> p" "fdv (ks s) ! np = (ofile (proc_at np s), False)"
      "ofile (proc_at np s) ! i = None" "\<forall>j > i. j < NOFILE \<longrightarrow> ofile (proc_at np s) ! j = None"
      "p_state (proc_at np s) \<noteq> UNUSED" "p_state (proc_at np s) \<noteq> ZOMBIE"
      using c i by (auto simp: child_upto_def fdv_nth)
    have v: "fdv (ks ?s2) = (fdv (ks s))[np := ((ofile (proc_at np s))[i := Some f], False)]" "ftable ?s2 = ftable s1"
      using np(6,7) s1(2) by (simp_all add: upd_pr_def fdv_upd_proc)
    have "refs_ok (\<lambda>_. 0) (fdv (ks ?s2)) (ftable ?s2)"
      unfolding v using s1 np(1,3,4) i f
      by (intro refs_ok_set_fd [where E = "(\<lambda>_. 0)(f := 1)"]) (simp_all add: J_def rok_def)
    moreover have "caller p ?s2" using s1(1,2) np(2) unfolding caller_def v by (simp add: J_def caller_def upd_pr_def)
    ultimately have "J (\<lambda>_. 0) p ?s2" by (simp only: J_def rok_def)
    moreover have "fdv (ks ?s2) ! np = ((ofile (proc_at np s))[i := Some f], False)" unfolding v using np(1) by simp
    moreover have "np < length (fdv (ks ?s2))" unfolding v using np(1) by simp
    moreover have "(ofile (proc_at np s))[i := Some f] ! j = None" if "Suc i \<le> j" "j < NOFILE" for j using that np(5) by simp
    ultimately show ?thesis unfolding child_upto_def using np(2) by (simp only: fst_conv snd_conv) blast
  qed
  show ?thesis
    unfolding dup_file_def Some option.case
    by (rule wp_bind [OF wp_filedup [OF J f]]) (use step in \<open>simp add: wp_Inr\<close>)
qed

lemma kfork_J:
  assumes J: "J (\<lambda>_. 0) p s"
  shows "wp (kfork p s) (\<lambda>r. J (\<lambda>_. 0) p (snd r))"
proof -
  have run: "J (\<lambda>_. 0) p (s1\<lparr>ks := fork_runnable np (fork_parent np p (ks s1))\<rparr>)" if c: "child_upto p np n s1" for np n s1
  proof -
    have np: "np < length (procs (ks s1))" "np \<noteq> p" "fdv (ks s1) ! np = (ofile (proc_at np s1), False)"
      "J (\<lambda>_. 0) p s1"
      using c by (auto simp: child_upto_def fdv_nth)
    have "fdv (fork_runnable np (fork_parent np p (ks s1))) = (fdv (ks s1))[np := (ofile (proc_at np s1), False)]"
      using np(1) by (simp add: fork_runnable_def fork_parent_def fdv_upd_proc)
    then have "fdv (fork_runnable np (fork_parent np p (ks s1))) = fdv (ks s1)" using np(3) by (metis list_update_id)
    then show ?thesis using np(4) by (simp add: J_def rok_def caller_def) (simp add: fork_runnable_def fork_parent_def)
  qed
  have runs: "J (\<lambda>_. 0) p (s8\<lparr>ks := fork_runnable np (fork_parent np p (ks s8))\<rparr>)"
    if "child_upto p np NOFILE s6" "fview s8 = fview s6" for np s6 s8
    using run child_upto_fview [OF that(2)] that(1) by blast
  have fork: "wp (foldR (dup_file p np) [0..<NOFILE] s5) (child_upto p np NOFILE)"
    if "J (\<lambda>_. 0) p s1 \<and> (case Some np of None \<Rightarrow> True | Some np \<Rightarrow> np \<noteq> p \<and> empty_slot np s1 \<and> \<not> snd (fdv (ks s1) ! np))"
      "fview s5 = fview s1" for np s1 s5
  proof (rule wp_foldR_upt [where I = "child_upto p np", OF dup_file_wp le0])
    show "child_upto p np 0 s5" using that(1) unfolding child_upto_fview [OF that(2)] by (auto simp: child_upto_def empty_slot_fdv)
  qed
  have free: "wp (bindR (freeproc np s2) (\<lambda>s3. Inr (- 1, s3))) (\<lambda>r. J (\<lambda>_. 0) p (snd r))"
    if "J (\<lambda>_. 0) p s1 \<and> (case Some np of None \<Rightarrow> True | Some np \<Rightarrow> np \<noteq> p \<and> empty_slot np s1 \<and> \<not> snd (fdv (ks s1) ! np))"
      "fview s2 = fview s1" for np s1 s2
    by (rule wp_bind [OF freeproc_J]) (use that J_fview [OF that(2)] empty_slot_fview [OF that(2)] in \<open>auto simp: wp_Inr\<close>)
  have cwd: "wp (case c of None \<Rightarrow> Inl (Panic ''kerneltrap'') | Some c \<Rightarrow> Inr (upd_pr np (\<lambda>q. q\<lparr>cwd := Some c\<rparr>) (idup c s6)))
      (\<lambda>s. fview s = fview s6)" for np c s6
    by (intro wp_struct upd_pr_fview fview_upd_inode)
  show ?thesis
    unfolding kfork_def
    apply (rule wp_bind [OF allocproc_J [OF J]])
    apply (rule wp_prod, rule wp_option)
     apply (simp add: wp_Inr)
    apply (simp only: fst_conv snd_conv)
    apply (rule wp_bind_fview(2) [OF wp_fs(18) [OF refl]], rule wp_case_pair, rule wp_if)
     apply (erule (1) free)
    apply (simp only: Let_def)
    apply (rule wp_bind, erule fork)
     apply (simp add: upd_pr_fview)
    apply (rule wp_bind [OF cwd])
    apply (rule wp_Inr, simp only: snd_conv, erule runs, simp add: upd_pr_fview)
    done
qed

lemma close_file_J:
  assumes "J (\<lambda>_. 0) p s \<and> (\<forall>j < i. ofile (proc_at p s) ! j = None)" "i < NOFILE"
  shows "wp (close_file p i s) (\<lambda>s'. J (\<lambda>_. 0) p s' \<and> (\<forall>j < Suc i. ofile (proc_at p s') ! j = None))"
proof (cases "ofile (proc_at p s) ! i")
  case None
  then show ?thesis using assms by (auto simp: close_file_def wp_Inr less_Suc_eq)
next
  case (Some f)
  have J: "J (\<lambda>_. 0) p s" using assms(1) by simp
  have f: "f < length (ftable s)" by (rule ofile_index [OF J assms(2) Some])
  have p: "p < length (procs (ks s))" "length (ofile (proc_at p s)) = NOFILE"
    using J J_ofile_length [OF J] by (simp_all add: J_def caller_def)
  have step: "J (\<lambda>_. 0) p (clear_fd p i s1) \<and> (\<forall>j < Suc i. ofile (proc_at p (clear_fd p i s1)) ! j = None)"
    if s1: "J ((\<lambda>_. 0)(f := 0 - 1)) p s1" "fdv (ks s1) = fdv (ks s)" for s1
  proof -
    have "length (procs (ks s1)) = length (procs (ks s))" using s1(2) by (metis length_fdv)
    moreover from this have o: "ofile (proc_at p s1) = ofile (proc_at p s)" using s1(2) p(1) by (metis fdv_nth prod.inject)
    moreover have "J (((\<lambda>_. 0)(f := - 1))(f := - 1 + 1)) p (clear_fd p i s1)"
      using J_clear_fd [OF s1(1) assms(2), of f] o Some by simp
    ultimately show ?thesis using assms p by (simp add: clear_fd_def upd_pr_def less_Suc_eq nth_list_update)
  qed
  show ?thesis
    unfolding close_file_def Some option.case
    by (rule wp_bind [OF wp_fileclose [OF J f]]) (use step in \<open>simp add: wp_Inr clear_fd_def\<close>)
qed

lemma kexit_rok:
  assumes J: "J (\<lambda>_. 0) p s"
  shows "wp (kexit p st s) (rok (\<lambda>_. 0))"
proof -
  let ?I = "\<lambda>i s. J (\<lambda>_. 0) p s \<and> (\<forall>j < i. ofile (proc_at p s) ! j = None)"
  have close: "wp (foldR (close_file p) [0..<NOFILE] s) (?I NOFILE)"
    by (rule wp_foldR_upt [where I = ?I]) (use J close_file_J in \<open>simp_all\<close>)
  have final: "wp (bindR (kexit_sched (hart s5) st (ks s5)) (\<lambda>k. Inr (s5\<lparr>ks := k\<rparr>))) (rok (\<lambda>_. 0))"
    if s1: "?I NOFILE s1" and v: "fview s5 = fview s1" for s1 s5
  proof -
    have J5: "J (\<lambda>_. 0) p s5" using s1 J_fview [OF v] by simp
    have o: "ofile (proc_at p s5) = replicate NOFILE None"
      unfolding ofile_fview [OF v conjunct1 [OF s1]]
      using s1 J_ofile_length [of "\<lambda>_. 0" p s1] by (intro nth_equalityI) simp_all
    have p: "myproc (hart s5) (ks s5) = Some p" "p < length (procs (ks s5))" "fdv (ks s5) ! p = (replicate NOFILE None, False)"
      using J5 o by (auto simp: J_def caller_def fdv_nth)
    have "refs_ok (\<lambda>_. 0) ((fdv (ks s5))[p := (replicate NOFILE None, True)]) (ftable s5)"
      by (rule refs_ok_bury [where d = False]) (use J5 p in \<open>simp_all add: J_def rok_def\<close>)
    then show ?thesis
      by (intro wp_bind [OF wp_kexit_sched [OF p(1,2)]] wp_Inr) (simp add: rok_def p(3))
  qed
  show ?thesis
    unfolding kexit_def
    apply (rule wp_if, rule wp_Inl)
    apply (rule wp_bind [OF close])
    subgoal for s1
      by (rule wp_bind_fview(1) [where v = "fview s1"] wp_struct wp_fs | erule final | assumption | rule refl | simp add: upd_pr_fview)+
    done
qed

lemma kwait_J:
  assumes J: "J (\<lambda>_. 0) p s"
  shows "wp (kwait p addr s) (\<lambda>r. J (\<lambda>_. 0) p (snd r))"
proof -
  have slot: "empty_slot pp s \<and> pp \<noteq> p" if z: "zombie_child p (procs (ks s)) = Some pp" for pp
  proof -
    have pp: "pp < length (procs (ks s))" "p_state (proc_at pp s) = ZOMBIE"
      using z by (auto simp: zombie_child_def first_idx_Some)
    have "pp \<noteq> p" using J pp by (auto simp: J_def caller_def fdv_nth)
    moreover have "ofile (proc_at pp s) = replicate NOFILE None"
      using refs_okD(3) [of "\<lambda>_. 0" "fdv (ks s)" "ftable s" pp _ True] J pp by (simp add: J_def rok_def fdv_nth)
    ultimately show ?thesis using pp by (simp add: empty_slot_def)
  qed
  have free: "wp (bindR (freeproc pp s1) (\<lambda>s2. Inr (Ret x, s2))) (\<lambda>r. J (\<lambda>_. 0) p (snd r))"
    if "zombie_child p (procs (ks s)) = Some pp" "fview s1 = fview s" for pp s1 x
    by (rule wp_bind [OF freeproc_J]) (use slot [OF that(1)] J J_fview [OF that(2)] empty_slot_fview [OF that(2)] in \<open>auto simp: wp_Inr\<close>)
  show ?thesis
    unfolding kwait_def
    apply (rule wp_option)
     apply (rule wp_if, rule wp_Inr, simp only: snd_conv J)
     apply (rule wp_Inr, simp only: snd_conv J)
    apply (rule wp_Let, rule wp_bind_fview(2) [where v = "fview s"])
     apply (rule wp_if, rule wp_fs(20), rule refl, rule wp_Inr, simp)
    apply (rule wp_case_pair, rule wp_if, rule wp_Inr)
     apply (simp only: snd_conv J_fview J)
    apply (erule (1) free)
    done
qed
section \<open>Traps\<close>

definition Jsys :: "nat \<Rightarrow> ('a outcome \<times> kern) \<Rightarrow> bool" where
  "Jsys p r \<longleftrightarrow> rok (\<lambda>_. 0) (snd r) \<and> (fst r = Gone \<or> caller p (snd r))"

lemma wp_Jsys: "wp m (\<lambda>r. J (\<lambda>_. 0) p (snd r)) \<Longrightarrow> wp m (Jsys p)"
  by (erule wp_weaken) (simp add: J_def Jsys_def)

lemma sys_exit_Jsys: "J (\<lambda>_. 0) p s \<Longrightarrow> wp (sys_exit p s) (Jsys p)"
  unfolding sys_exit_def
  by (rule wp_bind_any wp_bind [OF kexit_rok] wp_Inr | assumption | simp add: Jsys_def)+

lemma sys_handlers_Jsys:
  assumes "Some f \<in> set syscalls" "J (\<lambda>_. 0) p s"
  shows "wp (f p s) (Jsys p)"
proof -
  note fv = J_wp [OF assms(2), THEN wp_Jsys]
  have fork: "wp (sys_fork p s) (Jsys p)" "wp (sys_wait p s) (Jsys p)"
    unfolding sys_fork_def sys_wait_def by (rule wp_bind_any wp_Jsys sx_J kfork_J kwait_J assms(2))+
  have "f \<in> {sys_fork, sys_exit, sys_wait, sys_pipe, sys_read, sys_kill, sys_exec, sys_fstat, sys_chdir, sys_dup, sys_getpid,
     sys_sbrk, sys_pause, sys_uptime, sys_open, sys_write, sys_mknod, sys_unlink, sys_link, sys_mkdir, sys_close, sys_sleep, sys_getprocinfo}"
    using assms(1) by (auto simp: syscalls_def)
  then show ?thesis
    using fork sys_exit_Jsys [OF assms(2)] sys_pipe_J [OF assms(2), THEN wp_Jsys] sys_read_J [OF assms(2), THEN wp_Jsys]
      sys_dup_J [OF assms(2), THEN wp_Jsys] sys_open_J [OF assms(2), THEN wp_Jsys] sys_write_J [OF assms(2), THEN wp_Jsys]
      sys_close_J [OF assms(2), THEN wp_Jsys]
      fv [OF sys_kill_wp] fv [OF sys_exec_wp] fv [OF sys_fstat_wp] fv [OF sys_chdir_wp] fv [OF sys_sbrk_wp] fv [OF sys_mknod_wp]
      fv [OF sys_unlink_wp] fv [OF sys_link_wp] fv [OF sys_mkdir_wp] fv [OF sys_simple_wp(1)] fv [OF sys_simple_wp(2)]
      fv [OF sys_simple_wp(3)] fv [OF sys_simple_wp(4)] fv [OF sys_simple_wp(5)]
    by (elim insertE emptyE) (simp_all only:)
qed

lemma sys_handler_listed: "sys_handler num = Some f \<Longrightarrow> Some f \<in> set syscalls"
  unfolding sys_handler_def by (auto split: if_splits simp: in_set_conv_nth intro!: exI [of _ "nat (sint num)"])

lemma Jsys_fview: "fview s' = fview s \<Longrightarrow> Jsys p (r, s') = Jsys p (r, s)"
  using fview_rok [of s' s] by (simp add: Jsys_def)

lemma syscall_Jsys:
  assumes J: "J (\<lambda>_. 0) p s"
  shows "wp (syscall p s) (Jsys p)"
proof (cases "sys_handler (ucast (tf_get p TF_A7 s))")
  case (Some f)
  have ret: "Jsys p (Ret y, tf_set p TF_A0 x (deliver s1)) = Jsys p (Ret y, s1)"
    "Jsys p (r', deliver s1) = Jsys p (r', s1)" for x y r' s1
    by (rule Jsys_fview, simp)+
  have any: "Jsys p (Ret x, s1)" if "Jsys p (Ret y, s1)" for x y s1 using that by (simp add: Jsys_def)
  have "wp (case r of Ret x \<Rightarrow> Inr (Ret x, tf_set p TF_A0 x (deliver s1)) | Block c n \<Rightarrow> Inr (r, deliver s1)
      | BlockTx a b c \<Rightarrow> Inr (r, deliver s1) | Gone \<Rightarrow> Inr (r, deliver s1)) (Jsys p)" if "Jsys p (r, s1)" for r s1
    using that by (cases r) (simp_all only: outcome.case wp_Inr ret)
  then show ?thesis
    unfolding syscall_def Let_def Some option.case
    by (intro wp_bind [OF sys_handlers_Jsys [OF sys_handler_listed [OF Some] J]] wp_prod) simp
next
  case None
  have Js: "Jsys p (r, s1)" if "fview s1 = fview s" for r and s1
    using J_fview_step [OF J that] by (simp add: J_def Jsys_def)
  show ?thesis
    unfolding syscall_def Let_def None option.case
    by (rule wp_bind_fview(1) [OF wp_fs(19) [OF refl]], rule wp_Inr, rule Js, simp)
qed

lemma uart_disk_wp: "wp (uart_intr s) (\<lambda>s'. fview s' = fview s)" "wp (disk_intr s) (\<lambda>s'. fview s' = fview s)"
  unfolding uart_intr_def disk_intr_def by (rule wp_bind_any wp_struct | simp)+

lemma devintr_J:
  assumes J: "J (\<lambda>_. 0) p s"
  shows "wp (devintr s) (\<lambda>r. J (\<lambda>_. 0) p (snd r))"
proof -
  obtain irq s1 where c: "plic_claim s = (irq, s1)" by fastforce
  have v: "fview s1 = fview s" using c by (auto simp: plic_claim_def split: list.splits)
  have ext: "wp (bindR (if irq = UART0_IRQ then uart_intr s1 else if irq = VIRTIO0_IRQ then disk_intr s1
      else if irq \<noteq> 0 then on_uart g s1 else Inr s1)
      (\<lambda>s2. Inr (n, deliver (if irq \<noteq> 0 then plic_complete irq s2 else s2)))) (\<lambda>r. J (\<lambda>_. 0) p (snd r))" for g and n :: nat
    apply (rule wp_bind_fview(1) [where v = "fview s1"])
     apply (rule wp_if uart_disk_wp wp_fs wp_Inr refl)+
    apply (simp only: snd_conv, rule J_fview_step [OF J])
    apply (simp add: v plic_complete_def plic_write_def)
    done
  have clock: "wp (clock_intr s) (\<lambda>s1. J (\<lambda>_. 0) p s1)"
    unfolding clock_intr_def
    by (rule wp_bind [OF wp_clockintr]) (use J in \<open>simp add: wp_Inr J_def rok_def caller_def flip: length_fdv\<close>)
  show ?thesis
    unfolding devintr_def c
    apply (rule wp_if)
     apply (simp only: Let_def prod.case, rule ext)
    apply (rule wp_if)
     apply (rule wp_bind [OF clock])
    using J by (simp_all add: wp_Inr)
qed

lemma page_fault_J: "J (\<lambda>_. 0) p s \<Longrightarrow> wp (page_fault p s) (\<lambda>r. J (\<lambda>_. 0) p (snd r))"
  by (erule J_wp) (unfold page_fault_def, (rule wp_bind_fview(2) [where v = "fview s"] wp_struct wp_fs | assumption | simp)+)

definition Jtrap :: "nat \<Rightarrow> (trapend option \<times> nat \<times> kern) \<Rightarrow> bool" where
  "Jtrap p r \<longleftrightarrow> rok (\<lambda>_. 0) (snd (snd r)) \<and> (fst r \<noteq> None \<or> caller p (snd (snd r)))"

lemma trap_cause_Jtrap:
  assumes J: "J (\<lambda>_. 0) p s"
  shows "wp (trap_cause p s) (Jtrap p)"
proof -
  have call: "wp (syscall p (set_intr intr_on (tf_set p TF_EPC x s))) (Jsys p)" for x
    by (rule syscall_Jsys, rule J_fview_step [OF J]) simp
  have ends: "wp (case r of Ret _ \<Rightarrow> Inr (None, 0, s2) | Block c n \<Rightarrow> Inr (Some (Waiting r), 0, s2)
      | BlockTx a b c \<Rightarrow> Inr (Some (Waiting r), 0, s2) | Gone \<Rightarrow> Inr (Some Exited, 0, s2)) (Jtrap p)" if "Jsys p (r, s2)" for r s2
    using that by (cases r) (simp_all add: wp_Inr Jtrap_def Jsys_def)
  have killed: "Jtrap p (None, 0, s4\<lparr>ks := setkilled p (ks s4)\<rparr>)" if "J (\<lambda>_. 0) p s2" "fview s4 = fview s2" for s2 s4
    using J_fview_step [OF that] by (simp add: J_def Jtrap_def rok_def caller_def setkilled_def fdv_same)
  have bad: "wp (bindR (on_uart (f s2) s2) (\<lambda>s3. bindR (on_uart (g s3) s3) (\<lambda>s4. Inr (None, 0, s4\<lparr>ks := setkilled p (ks s4)\<rparr>)))) (Jtrap p)"
    if "J (\<lambda>_. 0) p s2" for f g s2
    by (rule wp_bind_fview(1) [where v = "fview s2"] wp_fs wp_Inr killed [OF that] | assumption | rule refl)+
  show ?thesis
    unfolding trap_cause_def exit_trap_def
    apply (rule wp_if)
     apply (rule wp_if)
      apply (rule wp_bind [OF kexit_rok [OF J]])
      apply (simp add: wp_Inr Jtrap_def)
     apply (rule wp_Let, rule wp_bind [OF call], rule wp_prod)
     apply (rule ends, simp only:)
    apply (rule wp_bind [OF devintr_J [OF J]], rule wp_prod)
    apply (rule wp_if)
     apply (simp add: wp_Inr Jtrap_def J_def)
    apply (rule wp_bind [OF page_fault_J], simp only: snd_conv, rule wp_prod)
    apply (rule wp_if)
     apply (simp add: wp_Inr Jtrap_def J_def)
    apply (rule bad, simp only: snd_conv)
    done
qed

lemma fview_prepare_return [simp]: "fview (prepare_return p s) = fview s"
  by (simp add: prepare_return_def Let_def)

lemma usertrap_rok:
  assumes J: "J (\<lambda>_. 0) p s"
  shows "wp (usertrap p s) (\<lambda>r. rok (\<lambda>_. 0) (snd r))"
proof -
  have 1: "J (\<lambda>_. 0) p (tf_set p TF_EPC x (trapinithart s))" for x
    by (rule J_fview_step [OF J]) (simp add: trapinithart_def)
  have timer: "wp (bindR (user_timer (hart s2) (ks s2)) (\<lambda>k. Inr (Yielded, s2\<lparr>ks := k\<rparr>))) (\<lambda>r. rok (\<lambda>_. 0) (snd r))"
    if "J (\<lambda>_. 0) p s2" for s2
    by (rule wp_bind [OF wp_user_timer]) (use that in \<open>auto simp: J_def caller_def rok_def wp_Inr\<close>)
  have tail: "rok (\<lambda>_. 0) (prepare_return p s2)" if "J (\<lambda>_. 0) p s2" for s2
    using that fview_rok(1) [OF fview_prepare_return] by (simp only: J_def)
  have none: "wp (if is_killed p s2 then bindR (kexit p (- 1) s2) (\<lambda>s3. Inr (Exited, s3))
                    else if d = 2 then bindR (user_timer (hart s2) (ks s2)) (\<lambda>k. Inr (Yielded, s2\<lparr>ks := k\<rparr>))
                    else usertrap_tail p s2) (\<lambda>r. rok (\<lambda>_. 0) (snd r))" if s2: "J (\<lambda>_. 0) p s2" for s2 and d :: nat
    unfolding usertrap_tail_def Let_def
    by (rule wp_if timer [OF s2] wp_bind [OF kexit_rok [OF s2]] wp_Inr | simp add: tail [OF s2])+
  show ?thesis
    unfolding usertrap_def
    apply (rule wp_if, rule wp_Inl)
    apply (rule wp_Let, rule wp_bind [OF trap_cause_Jtrap [OF 1]], rule wp_prod, rule wp_prod, rule wp_option)
     apply (rule none, simp add: Jtrap_def J_def)
    apply (simp add: wp_Inr Jtrap_def)
    done
qed

text \<open>
  Claim C25. A trap from user space keeps the file table and the descriptors together. Before the trap,
  every open file's reference count is the number of descriptors, over all processes, that point to it, a
  file with count 0 has no type, and free slots and zombies hold no descriptor. Whatever the trap is (any
  system call with any arguments, error paths included, an interrupt, a page fault, a fault that kills the
  process, the exit of a killed process, a timer tick that yields), the same holds when the CPU returns to
  user space, waits, yields or is back in the scheduler after the exit.
\<close>

theorem usertrap_keeps_file_references:
  assumes "fref_inv s" "myproc (hart s) (ks s) = Some p" "p < length (procs (ks s))"
    "p_state (proc_at p s) = RUNNING" "usertrap p s = Inr (e, s')"
  shows "fref_inv s'"
proof -
  have "J (\<lambda>_. 0) p s" using assms by (simp add: J_def caller_def fref_inv_def rok_def fdv_nth)
  then show ?thesis using wpD [OF usertrap_rok assms(5)] by (simp add: fref_inv_def rok_def)
qed
text \<open>
  A kernel with one process, the caller, whose descriptor 0 is the only one for file 0; its trap frame asks
  for the system call \<^verbatim>\<open>dup(0)\<close>.
\<close>

definition one_proc_kern :: kern where
  "one_proc_kern =
     \<lparr>bufs = [], disk = (\<lambda>_. []), dwrites = [], woken = [], curpid = 1, log_start = 0, log_outstanding = 0,
      log_committing = False, log_dev = 0, lh_n = 0, lh_block = [],
      sb = \<lparr>sb_magic = 0, sb_size = 0, sb_nblocks = 0, sb_ninodes = 0, sb_nlog = 0, sb_logstart = 0, sb_inodestart = 0,
        sb_bmapstart = 0\<rparr>, itable = [],
      kpm = \<lparr>mem = (\<lambda>a. if a = 0x800010A8 then 10 else 0), freelist = 0, kend = 0\<rparr>,
      ks = \<lparr>procs = [zero_proc\<lparr>p_state := RUNNING, trapframe := 0x80001000, ofile := Some 0 # replicate 15 None\<rparr>],
        cpus = [\<lparr>c_proc = Some 0, noff = 0, intena = True, sie = False\<rparr>], initproc = Some 1, nextpid = 2, 
        pid_lock = initlock [], wait_lock = initlock [], tickslock = initlock [], ticks = 0\<rparr>,
      hart = 0, kcons = \<lparr>c_buf = [], c_r = 0, c_w = 0, c_e = 0\<rparr>,
      kuart = \<lparr>u_thr = [], u_rx = [], u_idle = True, u_ctl = [], tx_busy = False, panicked = False\<rparr>,
      devsws = [],
      vdisk = \<lparr>v_desc = [], avail_idx = 0, avail_ring = [], used_idx_dev = 0, used_ring = [], v_free = [], used_idx = 0,
        info_b = [], info_status = [], v_ops = [], v_isr = 0, v_mmio = [], v_woken = []\<rparr>,
      ftable = [\<lparr>f_type = FD_INODE, f_ref = 1, f_readable = True, f_writable = True, f_pipe = 0, f_ip = 0, f_off = 0, f_major = 0\<rparr>],
      pipes = (\<lambda>_. \<lparr>p_data = [], nread = 0, nwrite = 0, readopen = False, writeopen = False\<rparr>),
      kimg = \<lparr>a_trampoline = 0, a_uservec = 0, a_userret = 0, a_forkret = 0, a_usertrap = 0, a_kernelvec = 0, a_etext = 0\<rparr>,
      csr = \<lparr>sstatus = 0, stvec = 0, sepc = 0, scause = 8, stval = 0, satp = 0, time = 0, stimecmp = 0\<rparr>,
      plic = ([], []), first = False, kpagetable = 0, stack_junk = (\<lambda>_. 0)\<rparr>"

theorem usertrap_keeps_file_references_witness:
  "fref_inv one_proc_kern \<and>
   (case usertrap 0 one_proc_kern of Inl _ \<Rightarrow> False | Inr (e, s') \<Rightarrow> fref_inv s' \<and> map f_ref (ftable s') = [2])"
proof -
  have inv: "fref_inv one_proc_kern"
    by (simp add: fref_inv_def refs_ok_def slot_ok_def fdv_def one_proc_kern_def)
  have "case usertrap 0 one_proc_kern of Inl _ \<Rightarrow> False | Inr (e, s') \<Rightarrow> map f_ref (ftable s') = [2]"
    by code_simp
  then obtain e s' where u: "usertrap 0 one_proc_kern = Inr (e, s')" "map f_ref (ftable s') = [2]"
    by (auto split: sum.splits)
  have "fref_inv s'"
    by (rule usertrap_keeps_file_references [OF inv _ _ _ u(1)]) (simp_all add: one_proc_kern_def myproc_def)
  then show ?thesis using inv u by simp
qed

end
