(* ===== verification/Spec2Isabelle.thy ===== *)
theory Spec2Isabelle
  imports FileInv
begin

text \<open>
  A verification development of the xv6 RISC-V kernel with a multi-level feedback queue.
\<close>

end
